(* ===== verification/Kappara_Prelude.thy ===== *)
theory Kappara_Prelude
  imports Main "HOL-Library.Word"
begin

text \<open>
  The shared base of the development: machine integer types, C result codes, the linked-list
  predicates used for every intrusive list of the kernel (page free list, buffer-cache LRU and hash
  chains, STREAMS message queues), byte-array splicing and big/little-endian encodings, and
  the lemma collections the component theories feed to the simplifier.
\<close>

unbundle bit_operations_syntax

named_theorems consts_def \<open>numeric constants of the C headers\<close>
named_theorems lseg_simps \<open>facts about list segments under pointer updates\<close>

section \<open>Machine types\<close>

type_synonym u8 = "8 word"
type_synonym u16 = "16 word"
type_synonym u32 = "32 word"
type_synonym u64 = "64 word"
type_synonym bytes = "8 word list"

text \<open>A C pointer into a pool is an index or \<open>None\<close> for NULL.\<close>

type_synonym 'p ptr = "'p option"

section \<open>Linked lists threaded through a store\<close>

text \<open>
  \<open>lseg nx p xs q\<close>: following the link field \<open>nx\<close> from \<open>p\<close> visits exactly \<open>xs\<close>
  and then reaches \<open>q\<close>.
\<close>

fun lseg :: "('p \<Rightarrow> 'p ptr) \<Rightarrow> 'p ptr \<Rightarrow> 'p list \<Rightarrow> 'p ptr \<Rightarrow> bool" where
  "lseg nx p [] q \<longleftrightarrow> p = q"
| "lseg nx p (x # xs) q \<longleftrightarrow> p = Some x \<and> lseg nx (nx x) xs q"

text \<open>A NULL-terminated singly linked list, and a doubly linked one with head and tail.\<close>

definition slist :: "('p \<Rightarrow> 'p ptr) \<Rightarrow> 'p ptr \<Rightarrow> 'p list \<Rightarrow> bool" where
  "slist nx h xs \<longleftrightarrow> lseg nx h xs None"

definition dlist :: "('p \<Rightarrow> 'p ptr) \<Rightarrow> ('p \<Rightarrow> 'p ptr) \<Rightarrow> 'p ptr \<Rightarrow> 'p ptr \<Rightarrow> 'p list \<Rightarrow> bool" where
  "dlist nx pv h t xs \<longleftrightarrow> slist nx h xs \<and> slist pv t (rev xs)"

section \<open>Byte arrays\<close>

text \<open>\<open>kmemcpy(dst + off, src, n)\<close> on a byte array.\<close>

definition blit :: "'a list \<Rightarrow> nat \<Rightarrow> 'a list \<Rightarrow> 'a list" where
  "blit dst off src = take off dst @ src @ drop (off + length src) dst"

text \<open>\<open>kmemcpy(out, src + off, n)\<close>.\<close>

definition subbytes :: "nat \<Rightarrow> nat \<Rightarrow> 'a list \<Rightarrow> 'a list" where
  "subbytes off n xs = take n (drop off xs)"

text \<open>Little-endian (AArch64 memory) and big-endian (network) encodings.\<close>

definition le32 :: "u32 \<Rightarrow> bytes" where
  "le32 v = [ucast v, ucast (drop_bit 8 v), ucast (drop_bit 16 v), ucast (drop_bit 24 v)]"

definition un_le32 :: "bytes \<Rightarrow> u32" where
  "un_le32 bs = ucast (bs ! 0) OR push_bit 8 (ucast (bs ! 1))
     OR push_bit 16 (ucast (bs ! 2)) OR push_bit 24 (ucast (bs ! 3))"

definition be16 :: "u16 \<Rightarrow> bytes" where
  "be16 v = [ucast (drop_bit 8 v), ucast v]"

definition un_be16 :: "bytes \<Rightarrow> u16" where
  "un_be16 bs = push_bit 8 (ucast (bs ! 0)) OR ucast (bs ! 1)"

definition be32 :: "u32 \<Rightarrow> bytes" where
  "be32 v = [ucast (drop_bit 24 v), ucast (drop_bit 16 v), ucast (drop_bit 8 v), ucast v]"

definition un_be32 :: "bytes \<Rightarrow> u32" where
  "un_be32 bs = push_bit 24 (ucast (bs ! 0)) OR push_bit 16 (ucast (bs ! 1))
     OR push_bit 8 (ucast (bs ! 2)) OR ucast (bs ! 3)"

text \<open>The C test \<open>flags & mask\<close> used as a condition.\<close>

definition flag :: "'w::len word \<Rightarrow> 'w word \<Rightarrow> bool" where
  "flag f b \<longleftrightarrow> f AND b \<noteq> 0"

text \<open>Unlinking an element from anywhere in the list, as \<open>lru_unlink\<close> does.\<close>

definition skip_link :: "('p \<Rightarrow> 'p ptr) \<Rightarrow> 'p ptr \<Rightarrow> 'p ptr \<Rightarrow> ('p \<Rightarrow> 'p ptr)" where
  "skip_link nx p r = (case p of None \<Rightarrow> nx | Some a \<Rightarrow> nx(a := r))"

section \<open>List-segment lemmas\<close>

lemma lseg_None [simp]: "lseg nx None xs q \<longleftrightarrow> xs = [] \<and> q = None"
  by (cases xs) auto

lemma lseg_Some_None: "lseg nx (Some x) xs None \<longleftrightarrow> (\<exists>ys. xs = x # ys \<and> lseg nx (nx x) ys None)"
  by (cases xs) auto

lemma lseg_append: "lseg nx p (xs @ ys) q \<longleftrightarrow> (\<exists>m. lseg nx p xs m \<and> lseg nx m ys q)"
  by (induction xs arbitrary: p) auto

lemma lseg_snoc: "lseg nx p (xs @ [x]) q \<longleftrightarrow> lseg nx p xs (Some x) \<and> nx x = q"
  by (auto simp: lseg_append)

lemma lseg_upd [lseg_simps]: "a \<notin> set xs \<Longrightarrow> lseg (nx(a := r)) p xs q \<longleftrightarrow> lseg nx p xs q"
  by (induction xs arbitrary: p) auto

lemma lseg_cong: "(\<And>x. x \<in> set xs \<Longrightarrow> nx x = nx' x) \<Longrightarrow> lseg nx p xs q \<longleftrightarrow> lseg nx' p xs q"
  by (induction xs arbitrary: p) auto

lemma lseg_det: "lseg nx p xs None \<Longrightarrow> lseg nx p ys None \<Longrightarrow> xs = ys"
proof (induction xs arbitrary: p ys)
  case (Cons x xs)
  then show ?case by (cases ys) auto
qed simp

lemma lseg_distinct: "lseg nx p xs None \<Longrightarrow> distinct xs"
proof (induction xs arbitrary: p)
  case (Cons x xs)
  have "x \<notin> set xs"
  proof
    assume "x \<in> set xs"
    then obtain as bs where "xs = as @ x # bs" by (meson split_list)
    with Cons.prems have "lseg nx (nx x) bs None" "lseg nx (nx x) xs None"
      by (auto simp: lseg_append)
    then have "bs = xs" by (rule lseg_det)
    with \<open>xs = as @ x # bs\<close> show False by simp
  qed
  with Cons show ?case by auto
qed simp

lemma slist_Nil [simp]: "slist nx h [] \<longleftrightarrow> h = None"
  by (simp add: slist_def)

lemma slist_Cons [simp]: "slist nx h (x # xs) \<longleftrightarrow> h = Some x \<and> slist nx (nx x) xs"
  by (simp add: slist_def)

lemma slist_None [simp]: "slist nx None xs \<longleftrightarrow> xs = []"
  by (simp add: slist_def)

lemma slist_Some: "slist nx (Some x) xs \<longleftrightarrow> (\<exists>ys. xs = x # ys \<and> slist nx (nx x) ys)"
  by (simp add: slist_def lseg_Some_None)

lemma slist_upd [lseg_simps]: "a \<notin> set xs \<Longrightarrow> slist (nx(a := r)) p xs \<longleftrightarrow> slist nx p xs"
  by (simp add: slist_def lseg_upd)

lemma slist_distinct: "slist nx h xs \<Longrightarrow> distinct xs"
  unfolding slist_def by (rule lseg_distinct)

lemma slist_det: "slist nx h xs \<Longrightarrow> slist nx h ys \<Longrightarrow> xs = ys"
  unfolding slist_def by (rule lseg_det)

lemma slist_cong: "(\<And>x. x \<in> set xs \<Longrightarrow> nx x = nx' x) \<Longrightarrow> slist nx p xs \<longleftrightarrow> slist nx' p xs"
  unfolding slist_def by (rule lseg_cong)

lemma unat_less64: "unat (x :: u64) < 2 ^ 64"
  using unsigned_less [of x, where ?'a = nat] by simp

lemma unat_less32: "unat (x :: u32) < 2 ^ 32"
  using unsigned_less [of x, where ?'a = nat] by simp

lemma unat_ucast_32_64 [simp]: "unat (ucast (x :: u32) :: u64) = unat x"
  using unat_less32 [of x] by (simp add: unsigned_ucast_eq take_bit_nat_eq_self_iff)

lemma slist_transport:
  "slist n p xs \<Longrightarrow> (\<And>x. x \<in> set xs \<Longrightarrow> n' x = n x) \<Longrightarrow> slist n' p xs"
  using slist_cong [of xs n n' p] by simp

lemma slist_append: "slist nx h (as @ bs) \<longleftrightarrow> (\<exists>m. lseg nx h as m \<and> slist nx m bs)"
  by (simp add: slist_def lseg_append)

text \<open>Taking an element out of a singly linked list: its predecessor (or the head) skips it.\<close>

lemma slist_splice_head:
  "slist nx h (x # bs) \<Longrightarrow> slist (nx(x := r)) (nx x) bs"
  using slist_distinct [of nx h "x # bs"] by (auto simp: slist_upd)

lemma slist_splice_mid:
  assumes "slist nx h (as @ a # x # bs)"
  shows "slist (nx(a := nx x, x := r)) h (as @ a # bs)"
proof -
  from assms have d: "distinct (as @ a # x # bs)" by (rule slist_distinct)
  from assms obtain m where "lseg nx h as m" "m = Some a" "nx a = Some x" "slist nx (nx x) bs"
    by (auto simp: slist_append)
  with d show ?thesis
    by (auto simp: slist_append lseg_upd slist_upd)
qed

text \<open>Appending at the end of a singly linked list.\<close>

lemma slist_snoc:
  assumes "slist nx h (as @ [a])" "x \<notin> set as" "x \<noteq> a"
  shows "slist (nx(x := None, a := Some x)) h (as @ [a, x])"
proof -
  from assms(1) have "distinct (as @ [a])" by (rule slist_distinct)
  with assms show ?thesis
    by (auto simp: slist_append lseg_upd)
qed

section \<open>Doubly linked lists\<close>

lemma dlist_distinct: "dlist nx pv h t xs \<Longrightarrow> distinct xs"
  by (auto simp: dlist_def dest: slist_distinct)

lemma dlist_det: "dlist nx pv h t xs \<Longrightarrow> dlist nx pv h t ys \<Longrightarrow> xs = ys"
  by (auto simp: dlist_def dest: slist_det)

lemma dlist_Nil [simp]: "dlist nx pv h t [] \<longleftrightarrow> h = None \<and> t = None"
  by (simp add: dlist_def)

lemma dlist_head_None: "dlist nx pv None t xs \<longleftrightarrow> xs = [] \<and> t = None"
  by (auto simp: dlist_def)

lemma dlist_head: "dlist nx pv h t (x # xs) \<Longrightarrow> h = Some x"
  by (simp add: dlist_def)

lemma dlist_hd: "dlist nx pv h t xs \<Longrightarrow> h = (case xs of [] \<Rightarrow> None | x # _ \<Rightarrow> Some x)"
  by (cases xs) (auto simp: dlist_def)

lemma dlist_tail_None: "dlist nx pv h None xs \<longleftrightarrow> xs = [] \<and> h = None"
  by (auto simp: dlist_def)

lemma dlist_tail_Some: "dlist nx pv h (Some l) xs \<Longrightarrow> \<exists>as. xs = as @ [l]"
  by (cases xs rule: rev_cases) (auto simp: dlist_def)

lemma dlist_cong:
  assumes "\<And>x. x \<in> set xs \<Longrightarrow> nx x = nx' x" "\<And>x. x \<in> set xs \<Longrightarrow> pv x = pv' x"
  shows "dlist nx pv h t xs \<longleftrightarrow> dlist nx' pv' h t xs"
  using slist_cong [of xs nx nx' h] slist_cong [of "rev xs" pv pv' t] assms
  by (auto simp: dlist_def)

text \<open>The tail insertion of \<open>lru_insert_tail\<close> and \<open>putq\<close>.\<close>

lemma dlist_snoc:
  assumes "dlist nx pv h t xs" "x \<notin> set xs"
  shows "dlist (case t of None \<Rightarrow> nx(x := None) | Some l \<Rightarrow> nx(x := None, l := Some x))
           (pv(x := t)) (case t of None \<Rightarrow> Some x | Some _ \<Rightarrow> h) (Some x) (xs @ [x])"
proof (cases t)
  case None
  with assms(1) have "xs = []" by (simp add: dlist_tail_None)
  with None show ?thesis by (simp add: dlist_def)
next
  case (Some l)
  with assms(1) obtain as where xs: "xs = as @ [l]" using dlist_tail_Some by metis
  from assms(1) have f: "slist nx h (as @ [l])" and b: "slist pv t (rev xs)"
    by (auto simp: dlist_def xs)
  from assms(2) have "x \<notin> set as" "x \<noteq> l" by (auto simp: xs)
  then have "slist (nx(x := None, l := Some x)) h (as @ [l, x])" by (rule slist_snoc [OF f])
  moreover have "slist (pv(x := t)) (Some x) (x # rev xs)"
    using b assms(2) by (simp add: slist_upd)
  ultimately show ?thesis using Some by (simp add: dlist_def xs)
qed

text \<open>The head insertion of \<open>putbq\<close>, by symmetry.\<close>

lemma dlist_rev: "dlist nx pv h t xs \<longleftrightarrow> dlist pv nx t h (rev xs)"
  by (auto simp: dlist_def)

lemma dlist_cons:
  assumes "dlist nx pv h t xs" "x \<notin> set xs"
  shows "dlist (nx(x := h)) (case h of None \<Rightarrow> pv(x := None) | Some f \<Rightarrow> pv(x := None, f := Some x))
           (Some x) (case h of None \<Rightarrow> Some x | Some _ \<Rightarrow> t) (x # xs)"
proof -
  have "dlist pv nx t h (rev xs)" "x \<notin> set (rev xs)"
    using assms by (auto simp: dlist_def)
  from dlist_snoc [OF this] show ?thesis by (simp add: dlist_def split: option.splits)
qed

lemma dlist_prev: "dlist nx pv h t (as @ x # bs) \<Longrightarrow>
    pv x = (if as = [] then None else Some (last as))"
  by (cases as rule: rev_cases) (auto simp: dlist_def slist_append)

lemma dlist_next: "dlist nx pv h t (as @ x # bs) \<Longrightarrow>
    nx x = (case bs of [] \<Rightarrow> None | b # _ \<Rightarrow> Some b)"
  by (cases bs) (auto simp: dlist_def slist_append)

lemma slist_unlink:
  assumes "slist nx h (as @ x # bs)" "p = (if as = [] then None else Some (last as))"
  shows "slist ((skip_link nx p (nx x))(x := None)) (if p = None then nx x else h) (as @ bs)"
proof (cases as rule: rev_cases)
  case Nil
  with assms slist_splice_head [of nx h x bs None] show ?thesis by (simp add: skip_link_def)
next
  case (snoc cs c)
  with assms slist_splice_mid [of nx h cs c x bs None] show ?thesis by (simp add: skip_link_def)
qed

lemma dlist_unlink:
  assumes "dlist nx pv h t (as @ x # bs)"
  shows "dlist ((skip_link nx (pv x) (nx x))(x := None)) ((skip_link pv (nx x) (pv x))(x := None))
           (if pv x = None then nx x else h) (if nx x = None then pv x else t) (as @ bs)"
proof -
  have p: "pv x = (if as = [] then None else Some (last as))"
    using assms by (rule dlist_prev)
  have n: "nx x = (if rev bs = [] then None else Some (last (rev bs)))"
    using dlist_next [OF assms] by (cases bs) auto
  from assms have f: "slist nx h (as @ x # bs)" and b: "slist pv t (rev bs @ x # rev as)"
    by (auto simp: dlist_def)
  from slist_unlink [OF f p] slist_unlink [OF b n] show ?thesis by (simp add: dlist_def)
qed

section \<open>Flag words\<close>

lemma flag_zero [simp]: "\<not> flag 0 b" "\<not> flag f 0"
  by (simp_all add: flag_def)

lemma flag_or [simp]: "flag (f OR g) b \<longleftrightarrow> flag f b \<or> flag g b"
  by (simp add: flag_def bit.conj_disj_distrib2 or_eq_0_iff)

lemma flag_clear [simp]: "flag (f AND NOT m) b \<longleftrightarrow> flag f (b AND NOT m)"
  by (simp add: flag_def ac_simps)

lemma flag_clear2 [simp]: "flag (f AND (NOT m AND NOT k)) b \<longleftrightarrow> flag f (b AND (NOT m AND NOT k))"
  by (simp add: flag_def ac_simps)

lemma and_not_disjoint: "(b :: 'w::len word) AND m = 0 \<Longrightarrow> b AND NOT m = b"
  by (rule bit_word_eqI) (auto simp: bit_eq_iff bit_simps)

section \<open>Byte-array lemmas\<close>

lemma length_blit [simp]: "off + length src \<le> length dst \<Longrightarrow> length (blit dst off src) = length dst"
  by (simp add: blit_def)

lemma length_subbytes [simp]: "off + n \<le> length xs \<Longrightarrow> length (subbytes off n xs) = n"
  by (simp add: subbytes_def)

lemma subbytes_blit_same: "off + length src \<le> length dst \<Longrightarrow> subbytes off (length src) (blit dst off src) = src"
  by (simp add: subbytes_def blit_def)

lemma nth_blit:
  assumes "off + length src \<le> length dst" "i < length dst"
  shows "blit dst off src ! i = (if off \<le> i \<and> i < off + length src then src ! (i - off) else dst ! i)"
  using assms by (auto simp: blit_def nth_append)

lemma blit_all: "length src = length dst \<Longrightarrow> blit dst 0 src = src"
  by (simp add: blit_def)

lemma subbytes_blit_other:
  assumes "off + length src \<le> length dst" "off' + n \<le> off \<or> off + length src \<le> off'"
  shows "subbytes off' n (blit dst off src) = subbytes off' n dst"
  using assms by (auto simp: subbytes_def blit_def drop_take)

lemma subbytes_all: "length xs = n \<Longrightarrow> subbytes 0 n xs = xs"
  by (simp add: subbytes_def)

lemma nth_subbytes: "i < n \<Longrightarrow> off + n \<le> length xs \<Longrightarrow> subbytes off n xs ! i = xs ! (off + i)"
  by (simp add: subbytes_def)

section \<open>Encoding round trips\<close>

lemma byte_lane_cases:
  assumes "n < (32 :: nat)"
  obtains "n < 8" | "8 \<le> n" "n < 16" | "16 \<le> n" "n < 24" | "24 \<le> n" "n < 32"
  using assms by linarith

lemma un_be16_be16 [simp]: "un_be16 (be16 v) = v"
  unfolding un_be16_def be16_def
  by (rule bit_word_eqI) (auto simp: bit_simps)

lemma un_be32_be32 [simp]: "un_be32 (be32 v) = v"
proof (rule bit_word_eqI)
  fix n assume "n < LENGTH(32)"
  then have "n < 32" by simp
  then show "bit (un_be32 (be32 v)) n \<longleftrightarrow> bit v n"
    by (cases rule: byte_lane_cases) (auto simp: un_be32_def be32_def bit_simps)
qed

lemma un_le32_le32 [simp]: "un_le32 (le32 v) = v"
proof (rule bit_word_eqI)
  fix n assume "n < LENGTH(32)"
  then have "n < 32" by simp
  then show "bit (un_le32 (le32 v)) n \<longleftrightarrow> bit v n"
    by (cases rule: byte_lane_cases) (auto simp: un_le32_def le32_def bit_simps)
qed

lemma length_encodings [simp]:
  "length (be16 a) = 2" "length (be32 b) = 4" "length (le32 b) = 4"
  by (simp_all add: be16_def be32_def le32_def)

end
