(* ===== verification/Pmm.thy ===== *)
theory Pmm
  imports Kappara_Prelude
begin

text \<open>
  The physical page allocator, \<open>uts/os/core/pmm.c\<close>. Physical memory is a store of 64-bit
  words indexed by address; a free page's first word holds the address of the next free page,
  exactly as in the C code. Each operation is one critical section of \<open>pmm_lock\<close>, so a
  definition models its whole locked body. The abstraction is the list of free pages.
\<close>

section \<open>Definitions\<close>

definition PAGE_SIZE :: u64 where [consts_def]: "PAGE_SIZE = 4096"

record pmm =
  pmem :: "u64 \<Rightarrow> u64"
  freelist :: u64
  free_count :: u64

definition align_up :: "u64 \<Rightarrow> u64 \<Rightarrow> u64" where
  "align_up v a = (v + a - 1) AND NOT (a - 1)"

definition align_dn :: "u64 \<Rightarrow> u64 \<Rightarrow> u64" where
  "align_dn v a = v AND NOT (a - 1)"

text \<open>\<open>zero_page\<close>: the loop stores 0 in \<open>u[i]\<close> for \<open>i < PAGE_SIZE / 8\<close>.\<close>

fun zero_loop :: "(u64 \<Rightarrow> u64) \<Rightarrow> u64 \<Rightarrow> nat \<Rightarrow> (u64 \<Rightarrow> u64)" where
  "zero_loop mm p 0 = mm"
| "zero_loop mm p (Suc i) = (zero_loop mm p i)(p + 8 * of_nat i := 0)"

definition zero_page :: "(u64 \<Rightarrow> u64) \<Rightarrow> u64 \<Rightarrow> (u64 \<Rightarrow> u64)" where
  "zero_page mm p = zero_loop mm p (unat PAGE_SIZE div 8)"

definition pmm_free :: "u64 \<Rightarrow> pmm \<Rightarrow> pmm" where
  "pmm_free p s =
     (if p = 0 then s
      else s\<lparr>pmem := (pmem s)(p := freelist s), freelist := p, free_count := free_count s + 1\<rparr>)"

definition pmm_alloc :: "pmm \<Rightarrow> u64 \<times> pmm" where
  "pmm_alloc s =
     (if freelist s = 0 then (0, s)
      else let pa = freelist s in
        (pa, s\<lparr>freelist := pmem s pa, free_count := free_count s - 1,
               pmem := zero_page (pmem s) pa\<rparr>))"

definition pmm_free_count :: "pmm \<Rightarrow> u64" where
  "pmm_free_count s = free_count s"

text \<open>
  The enrolment loop of \<open>pmm_add_range\<close>: \<open>pa\<close> runs down from \<open>end\<close> to \<open>start\<close> in
  page steps. Its caller passes page multiples, so the loop stops exactly at \<open>start\<close> and
  the wrap-around test \<open>pa < PAGE_SIZE\<close> (which makes the recursion total) never fires.
\<close>

function add_loop :: "u64 \<Rightarrow> u64 \<Rightarrow> pmm \<Rightarrow> pmm" where
  "add_loop start pa s =
     (if pa > start then (if pa < PAGE_SIZE then s
        else add_loop start (pa - PAGE_SIZE) (pmm_free (pa - PAGE_SIZE) s))
      else s)"
  by pat_completeness auto
termination
proof (relation "measure (\<lambda>(start, pa, s). unat pa)", goal_cases)
  case 1
  then show ?case by simp
next
  case (2 start pa s)
  then have "unat (pa - PAGE_SIZE) = unat pa - unat PAGE_SIZE"
    by (simp add: unat_sub)
  with 2 show ?case by (auto simp: consts_def word_less_nat_alt)
qed

declare add_loop.simps [simp del]

definition pmm_add_range :: "u64 \<Rightarrow> u64 \<Rightarrow> pmm \<Rightarrow> pmm" where
  "pmm_add_range start e s =
     (let start' = align_up start PAGE_SIZE; e' = align_dn e PAGE_SIZE in
      if e' \<le> start' then s else add_loop start' e' s)"

definition pmm_init :: "u64 \<Rightarrow> u64 \<Rightarrow> pmm \<Rightarrow> pmm" where
  "pmm_init start e s = pmm_add_range start e s"

text \<open>The abstraction: the list of free pages threaded through their first words.\<close>

definition page_aligned :: "u64 \<Rightarrow> bool" where
  "page_aligned p \<longleftrightarrow> unat p mod 4096 = 0"

definition nullptr :: "u64 \<Rightarrow> u64 ptr" where
  "nullptr a = (if a = 0 then None else Some a)"

definition pmm_abs :: "pmm \<Rightarrow> u64 list \<Rightarrow> bool" where
  "pmm_abs s ps \<longleftrightarrow> slist (\<lambda>a. nullptr (pmem s a)) (nullptr (freelist s)) ps
     \<and> (\<forall>p \<in> set ps. p \<noteq> 0 \<and> page_aligned p) \<and> free_count s = of_nat (length ps)"

definition in_page :: "u64 \<Rightarrow> u64 \<Rightarrow> bool" where
  "in_page p x \<longleftrightarrow> unat x div 4096 = unat p div 4096"

text \<open>The pages numbered \<open>i\<close> to \<open>j - 1\<close>, by address.\<close>

definition page_addr :: "nat \<Rightarrow> u64" where
  "page_addr k = of_nat (4096 * k)"

definition page_span :: "nat \<Rightarrow> nat \<Rightarrow> u64 list" where
  "page_span i j = map page_addr [i..<j]"

text \<open>A store by a client into a page it owns.\<close>

definition pmm_store :: "u64 \<Rightarrow> u64 \<Rightarrow> pmm \<Rightarrow> pmm" where
  "pmm_store x v s = s\<lparr>pmem := (pmem s)(x := v)\<rparr>"

text \<open>
  Clients of a page source: a run of allocations, releases of owned pages, and stores into
  owned pages, with the set of owned pages as ghost state.
\<close>

inductive owner_run :: "('s \<Rightarrow> u64 \<times> 's) \<Rightarrow> (u64 \<Rightarrow> 's \<Rightarrow> 's) \<Rightarrow> (u64 \<Rightarrow> u64 \<Rightarrow> 's \<Rightarrow> 's) \<Rightarrow>
    's \<Rightarrow> u64 set \<Rightarrow> 's \<Rightarrow> u64 set \<Rightarrow> bool" for al re wr s0 own0 where
  start: "owner_run al re wr s0 own0 s0 own0"
| alloc: "owner_run al re wr s0 own0 s own \<Longrightarrow> al s = (p, s') \<Longrightarrow> p \<noteq> 0 \<Longrightarrow>
    owner_run al re wr s0 own0 s' (insert p own)"
| release: "owner_run al re wr s0 own0 s own \<Longrightarrow> p \<in> own \<Longrightarrow>
    owner_run al re wr s0 own0 (re p s) (own - {p})"
| store: "owner_run al re wr s0 own0 s own \<Longrightarrow> p \<in> own \<Longrightarrow> in_page p x \<Longrightarrow>
    owner_run al re wr s0 own0 (wr x v s) own"

section \<open>The page-source contract\<close>

locale page_source =
  fixes al :: "'s \<Rightarrow> u64 \<times> 's"
    and re :: "u64 \<Rightarrow> 's \<Rightarrow> 's"
    and wr :: "u64 \<Rightarrow> u64 \<Rightarrow> 's \<Rightarrow> 's"
    and abs :: "'s \<Rightarrow> u64 list \<Rightarrow> bool"
  assumes abs_pages: "abs s ps \<Longrightarrow> distinct ps \<and> (\<forall>p \<in> set ps. p \<noteq> 0 \<and> page_aligned p)"
    and al_empty: "abs s [] \<Longrightarrow> al s = (0, s)"
    and al_cons: "abs s (p # ps) \<Longrightarrow> \<exists>s'. al s = (p, s') \<and> abs s' ps"
    and re_abs: "abs s ps \<Longrightarrow> p \<noteq> 0 \<Longrightarrow> page_aligned p \<Longrightarrow> p \<notin> set ps \<Longrightarrow> abs (re p s) (p # ps)"
    and wr_abs: "abs s ps \<Longrightarrow> page_aligned p \<Longrightarrow> p \<notin> set ps \<Longrightarrow> in_page p x \<Longrightarrow> abs (wr x v s) ps"
begin

lemma al_result:
  assumes "abs s ps" "al s = (p, s')"
  shows "(p = 0 \<longleftrightarrow> ps = []) \<and> (p \<noteq> 0 \<longrightarrow> (\<exists>qs. ps = p # qs \<and> abs s' qs))"
proof (cases ps)
  case Nil
  with assms al_empty [of s] show ?thesis by auto
next
  case (Cons q qs)
  with assms al_cons [of s q qs] abs_pages [of s ps] show ?thesis by auto
qed

lemma run_conserves:
  assumes "owner_run al re wr s0 own0 s own" "abs s0 ps0"
    "own0 \<inter> set ps0 = {}" "\<forall>p \<in> own0. p \<noteq> 0 \<and> page_aligned p"
  shows "\<exists>ps. abs s ps \<and> own \<inter> set ps = {} \<and> own \<union> set ps = own0 \<union> set ps0
    \<and> (\<forall>p \<in> own. p \<noteq> 0 \<and> page_aligned p)"
  using assms
proof (induction rule: owner_run.induct)
  case start
  then show ?case by blast
next
  case (alloc s own p s')
  then obtain ps where ps: "abs s ps" "own \<inter> set ps = {}" "own \<union> set ps = own0 \<union> set ps0"
    "\<forall>p \<in> own. p \<noteq> 0 \<and> page_aligned p" by blast
  from al_result [OF ps(1) alloc.hyps(2)] alloc.hyps(3)
  obtain qs where "ps = p # qs" "abs s' qs" by blast
  with ps abs_pages [OF ps(1)] show ?case by (intro exI [of _ qs]) auto
next
  case (release s own p)
  then obtain ps where ps: "abs s ps" "own \<inter> set ps = {}" "own \<union> set ps = own0 \<union> set ps0"
    "\<forall>p \<in> own. p \<noteq> 0 \<and> page_aligned p" by blast
  with release.hyps(2) have "abs (re p s) (p # ps)" by (intro re_abs) auto
  with ps release.hyps(2) show ?case by (intro exI [of _ "p # ps"]) auto
next
  case (store s own p x v)
  then obtain ps where ps: "abs s ps" "own \<inter> set ps = {}" "own \<union> set ps = own0 \<union> set ps0"
    "\<forall>p \<in> own. p \<noteq> 0 \<and> page_aligned p" by blast
  with store.hyps have "abs (wr x v s) ps" by (intro wr_abs [of s ps p]) auto
  with ps show ?case by blast
qed

lemma run_alloc_fresh:
  assumes "owner_run al re wr s0 own0 s own" "abs s0 ps0"
    "own0 \<inter> set ps0 = {}" "\<forall>p \<in> own0. p \<noteq> 0 \<and> page_aligned p" "al s = (p, s')"
  shows "p \<notin> own \<and> (p = 0 \<longleftrightarrow> own = own0 \<union> set ps0)"
proof -
  from run_conserves [OF assms(1-4)] obtain ps where
    ps: "abs s ps" "own \<inter> set ps = {}" "own \<union> set ps = own0 \<union> set ps0"
    "\<forall>p \<in> own. p \<noteq> 0 \<and> page_aligned p" by blast
  from al_result [OF ps(1) assms(5)] have r: "p = 0 \<longleftrightarrow> ps = []"
    "p \<noteq> 0 \<Longrightarrow> p \<in> set ps" by auto
  from r ps have "p = 0 \<longleftrightarrow> own = own0 \<union> set ps0" by (cases ps) auto
  with r ps show ?thesis by auto
qed

end

section \<open>Lemmas\<close>

lemma nullptr_simps [simp]:
  "nullptr 0 = None" "nullptr a = None \<longleftrightarrow> a = 0" "nullptr a = Some b \<longleftrightarrow> a = b \<and> a \<noteq> 0"
  by (auto simp: nullptr_def)

lemma page_bound: "page_aligned p \<Longrightarrow> unat p + 4096 \<le> 2 ^ 64"
proof -
  assume "page_aligned p"
  then obtain k where k: "unat p = 4096 * k" by (auto simp: page_aligned_def mod_eq_0_iff_dvd dvd_def)
  have "unat p < 2 ^ 64" using unsigned_less [of p] by simp
  with k show ?thesis by simp
qed

lemma unat_word_slot:
  assumes "page_aligned p" "i < 512"
  shows "unat (p + 8 * of_nat i) = unat p + 8 * i"
proof -
  have "unat p + 8 * i < 2 ^ 64" using page_bound [OF assms(1)] assms(2) by simp
  moreover have "8 * of_nat i = (of_nat (8 * i) :: u64)" by simp
  ultimately show ?thesis by (simp add: unat_word_ariths unat_of_nat)
qed

lemma in_page_slot: "page_aligned p \<Longrightarrow> i < 512 \<Longrightarrow> in_page p (p + 8 * of_nat i)"
  unfolding in_page_def by (subst unat_word_slot) (auto simp: page_aligned_def)

lemma in_page_aligned: "page_aligned p \<Longrightarrow> page_aligned q \<Longrightarrow> in_page p q \<longleftrightarrow> p = q"
  by (auto simp: in_page_def page_aligned_def word_unat_eq_iff)

lemma zero_loop_apply: "zero_loop mm p n x = (if \<exists>i < n. x = p + 8 * of_nat i then 0 else mm x)"
  by (induction n) (auto simp: less_Suc_eq)

lemma zero_page_slot: "i < 512 \<Longrightarrow> zero_page mm p (p + 8 * of_nat i) = 0"
  by (auto simp: zero_page_def zero_loop_apply consts_def)

lemma zero_page_frame: "page_aligned p \<Longrightarrow> \<not> in_page p x \<Longrightarrow> zero_page mm p x = mm x"
  using in_page_slot by (auto simp: zero_page_def zero_loop_apply consts_def)

lemma pmm_abs_cong:
  assumes "\<And>p. p \<in> set ps \<Longrightarrow> pmem s p = pmem s' p" "freelist s = freelist s'"
    "free_count s = free_count s'"
  shows "pmm_abs s ps \<longleftrightarrow> pmm_abs s' ps"
  using assms slist_cong [of ps "\<lambda>a. nullptr (pmem s a)" "\<lambda>a. nullptr (pmem s' a)"]
  by (simp add: pmm_abs_def)

lemma pmm_alloc_Nil: "pmm_abs s [] \<Longrightarrow> pmm_alloc s = (0, s)"
  by (simp add: pmm_abs_def pmm_alloc_def)

lemma pmm_alloc_Cons:
  assumes "pmm_abs s (p # ps)"
  obtains s' where "pmm_alloc s = (p, s')" "pmm_abs s' ps"
    "pmem s' = zero_page (pmem s) p" "free_count s' = free_count s - 1"
proof -
  let ?s = "s\<lparr>freelist := pmem s p, free_count := free_count s - 1, pmem := zero_page (pmem s) p\<rparr>"
  from assms have p: "p \<noteq> 0" "page_aligned p" "freelist s = p" "free_count s = of_nat (length ps) + 1"
    and ps: "slist (\<lambda>a. nullptr (pmem s a)) (nullptr (pmem s p)) ps"
    and al: "\<forall>q \<in> set ps. q \<noteq> 0 \<and> page_aligned q"
    by (auto simp: pmm_abs_def)
  from assms have "distinct (p # ps)" unfolding pmm_abs_def by (blast dest: slist_distinct)
  then have "p \<notin> set ps" by simp
  then have "zero_page (pmem s) p q = pmem s q" if "q \<in> set ps" for q
    using that p(2) al zero_page_frame in_page_aligned by metis
  then have "slist (\<lambda>a. nullptr (zero_page (pmem s) p a)) (nullptr (pmem s p)) ps"
    using ps by (auto intro: slist_transport)
  with p al have "pmm_abs ?s ps" by (simp add: pmm_abs_def)
  moreover have "pmm_alloc s = (p, ?s)" using p by (simp add: pmm_alloc_def)
  ultimately show thesis using that by simp
qed

lemma pmm_free_abs:
  assumes "pmm_abs s ps" "p \<noteq> 0" "page_aligned p" "p \<notin> set ps"
  shows "pmm_abs (pmm_free p s) (p # ps)"
proof -
  have "slist (\<lambda>a. nullptr (((pmem s)(p := freelist s)) a)) (nullptr (freelist s)) ps"
    using assms by (auto simp: pmm_abs_def intro: slist_transport)
  with assms show ?thesis by (simp add: pmm_abs_def pmm_free_def)
qed

lemma pmm_store_abs:
  assumes "pmm_abs s ps" "page_aligned p" "p \<notin> set ps" "in_page p x"
  shows "pmm_abs (pmm_store x v s) ps"
proof -
  have "x \<notin> set ps" using assms in_page_aligned [of p] by (auto simp: pmm_abs_def)
  then have "pmm_abs s ps \<longleftrightarrow> pmm_abs (pmm_store x v s) ps"
    by (intro pmm_abs_cong) (auto simp: pmm_store_def)
  with assms(1) show ?thesis by simp
qed

interpretation pages: page_source pmm_alloc pmm_free pmm_store pmm_abs
proof unfold_locales
  show "pmm_abs s ps \<Longrightarrow> distinct ps \<and> (\<forall>p \<in> set ps. p \<noteq> 0 \<and> page_aligned p)" for s ps
    by (auto simp: pmm_abs_def dest: slist_distinct)
  show "pmm_abs s (p # ps) \<Longrightarrow> \<exists>s'. pmm_alloc s = (p, s') \<and> pmm_abs s' ps" for s p ps
    using pmm_alloc_Cons by metis
qed (simp_all add: pmm_alloc_Nil pmm_free_abs pmm_store_abs)

lemma and_not_mask: "(x :: u64) AND NOT (mask n) = push_bit n (drop_bit n x)"
  by (rule bit_word_eqI) (auto simp: bit_simps)

lemma unat_align_dn: "unat (align_dn v PAGE_SIZE) = 4096 * (unat v div 4096)"
proof -
  have "align_dn v PAGE_SIZE = push_bit 12 (drop_bit 12 v)"
    by (simp add: align_dn_def consts_def and_not_mask [symmetric] mask_eq_exp_minus_1)
  moreover have "unat (push_bit 12 (drop_bit 12 v)) = 4096 * (unat v div 4096)"
  proof -
    have "unat v < 2 ^ 64" using unsigned_less [of v] by simp
    then have "4096 * (unat v div 4096) < 2 ^ 64"
      by (metis le_less_trans times_div_less_eq_dividend)
    then show ?thesis
      by (simp add: push_bit_eq_mult drop_bit_eq_div unat_word_ariths unat_div_distrib mult.commute)
  qed
  ultimately show ?thesis by simp
qed

lemma unat_align_up:
  assumes "unat v + 4095 < 2 ^ 64"
  shows "unat (align_up v PAGE_SIZE) = 4096 * ((unat v + 4095) div 4096)"
proof -
  have "align_up v PAGE_SIZE = align_dn (v + 4095) PAGE_SIZE"
    by (simp add: align_up_def align_dn_def consts_def algebra_simps)
  moreover have "unat (v + 4095) = unat v + 4095" using assms by (simp add: unat_word_ariths)
  ultimately show ?thesis by (simp add: unat_align_dn)
qed

lemma page_span_Suc: "i \<le> j \<Longrightarrow> page_span i (Suc j) = page_span i j @ [page_addr j]"
  by (simp add: page_span_def)

lemma unat_page: "4096 * k < 2 ^ 64 \<Longrightarrow> unat (page_addr k) = 4096 * k"
  unfolding page_addr_def by (subst unat_of_nat) (simp add: take_bit_eq_mod)

lemma page_span_fresh:
  assumes "4096 * j < 2 ^ 64" shows "page_addr j \<notin> set (page_span i j)"
proof
  assume "page_addr j \<in> set (page_span i j)"
  then obtain k where "k < j" "page_addr j = page_addr k"
    by (auto simp: page_span_def)
  with unat_page [of j] unat_page [of k] assms show False by simp
qed

lemma add_loop_abs:
  assumes "i \<le> j" "4096 * j < 2 ^ 64" "pmm_abs s ps" "set (page_span i j) \<inter> set ps = {}"
  shows "pmm_abs (add_loop (page_addr i) (page_addr j) s)
    (filter (\<lambda>p. p \<noteq> 0) (page_span i j) @ ps)"
  using assms
proof (induction "j - i" arbitrary: j s ps)
  case 0
  then show ?case by (simp add: page_span_def add_loop.simps)
next
  case (Suc d)
  then obtain j' where j: "j = Suc j'" by (cases j) auto
  with Suc have le: "i \<le> j'" "d = j' - i" "4096 * j' < 2 ^ 64" by auto
  let ?p = "page_addr j'"
  have pa: "page_addr j - PAGE_SIZE = ?p" by (simp add: j consts_def page_addr_def)
  have gt: "page_addr j > page_addr i"
    "\<not> page_addr j < PAGE_SIZE"
    using unat_page [of j] unat_page [of i] le Suc.prems(2) j
    by (simp_all add: word_less_nat_alt consts_def)
  have al: "page_aligned ?p" using unat_page [of j'] le by (simp add: page_aligned_def)
  let ?ps = "if ?p = 0 then ps else ?p # ps"
  have "pmm_abs (pmm_free ?p s) ?ps"
  proof (cases "?p = 0")
    case True
    with Suc.prems(3) show ?thesis by (simp add: pmm_free_def)
  next
    case False
    with Suc.prems al page_span_Suc [OF le(1)] j have "pmm_abs (pmm_free ?p s) (?p # ps)"
      by (intro pmm_free_abs) auto
    with False show ?thesis by auto
  qed
  moreover have "set (page_span i j') \<inter> set ?ps = {}"
    using Suc.prems(4) page_span_fresh [OF le(3), of i] page_span_Suc [OF le(1)] j by auto
  ultimately have "pmm_abs (add_loop (page_addr i) ?p (pmm_free ?p s))
      (filter (\<lambda>p. p \<noteq> 0) (page_span i j') @ ?ps)"
    using Suc.hyps(1) [OF le(2,1,3)] by blast
  moreover have "add_loop (page_addr i) (page_addr j) s
      = add_loop (page_addr i) ?p (pmm_free ?p s)"
    using gt unfolding add_loop.simps [of _ "page_addr j"] pa by simp
  ultimately show ?case using page_span_Suc [OF le(1)] j by (simp split: if_splits)
qed

section \<open>Properties\<close>

text \<open>
  \<open>pmm_add_range\<close> (and so \<open>pmm_init\<close>) enrols exactly the whole pages inside
  \<open>[start, end)\<close>, in ascending order in front of the pages already free, when none of them
  is free already; page 0 is never enrolled.
\<close>
theorem pmm_add_range_enrols:
  assumes "pmm_abs s ps" "unat start + 4095 < 2 ^ 64"
    "set (page_span ((unat start + 4095) div 4096) (unat e div 4096)) \<inter> set ps = {}"
  shows "pmm_abs (pmm_add_range start e s)
    (filter (\<lambda>p. p \<noteq> 0) (page_span ((unat start + 4095) div 4096) (unat e div 4096)) @ ps)"
proof -
  define i j where "i = (unat start + 4095) div 4096" and "j = unat e div 4096"
  have bi: "4096 * i < 2 ^ 64" and bj: "4096 * j < 2 ^ 64"
    using unat_align_up [OF assms(2)] unat_align_dn [of e] unat_less64 [of "align_up start PAGE_SIZE"]
      unat_less64 [of "align_dn e PAGE_SIZE"]
    by (simp_all add: i_def j_def)
  have i: "align_up start PAGE_SIZE = page_addr i" and j: "align_dn e PAGE_SIZE = page_addr j"
    using unat_align_up [OF assms(2)] unat_align_dn [of e] unat_page [OF bi] unat_page [OF bj]
    by (simp_all add: word_unat_eq_iff i_def j_def)
  have le: "align_dn e PAGE_SIZE \<le> align_up start PAGE_SIZE \<longleftrightarrow> j \<le> i"
    by (simp add: word_le_nat_alt i j unat_page [OF bi] unat_page [OF bj])
  show ?thesis
  proof (cases "j \<le> i")
    case True
    with le assms(1) show ?thesis
      by (simp add: pmm_add_range_def page_span_def i_def [symmetric] j_def [symmetric])
  next
    case False
    with le assms add_loop_abs [of i j s ps] bj show ?thesis
      by (simp add: pmm_add_range_def i j i_def [symmetric] j_def [symmetric] Let_def)
  qed
qed

lemma pmm_abs_empty: "pmm_abs \<lparr>pmem = mm, freelist = 0, free_count = 0\<rparr> []"
  by (simp add: pmm_abs_def)

theorem pmm_add_range_enrols_witness:
  "pmm_abs (pmm_add_range 0x80 0x3FFF \<lparr>pmem = (\<lambda>_. 7), freelist = 0, free_count = 0\<rparr>) [0x1000, 0x2000]"
  using pmm_add_range_enrols [OF pmm_abs_empty [of "\<lambda>_. 7"], of "0x80" "0x3FFF"]
  by (simp add: page_span_def page_addr_def upt_rec)

text \<open>
  \<open>pmm_alloc\<close> takes the most recently freed page, hands it out filled with zeroes,
  changes no word outside it, and leaves the other free pages linked in order; it returns NULL
  and changes nothing exactly when no page is free.
\<close>
theorem pmm_alloc_correct:
  assumes "pmm_abs s ps"
  shows "case pmm_alloc s of (p, s') \<Rightarrow>
    (p = 0 \<longleftrightarrow> ps = []) \<and> (p = 0 \<longrightarrow> s' = s) \<and>
    (p \<noteq> 0 \<longrightarrow> p = hd ps \<and> pmm_abs s' (tl ps) \<and> (\<forall>i < 512. pmem s' (p + 8 * of_nat i) = 0)
      \<and> (\<forall>x. \<not> in_page p x \<longrightarrow> pmem s' x = pmem s x)
      \<and> pmm_free_count s' = pmm_free_count s - 1)"
proof (cases ps)
  case Nil
  with assms pmm_alloc_Nil show ?thesis by simp
next
  case (Cons p qs)
  with assms pmm_alloc_Cons obtain s' where s': "pmm_alloc s = (p, s')" "pmm_abs s' qs"
    "pmem s' = zero_page (pmem s) p" "free_count s' = free_count s - 1" by metis
  from assms Cons have "p \<noteq> 0" "page_aligned p" by (auto simp: pmm_abs_def)
  with s' Cons show ?thesis by (simp add: zero_page_slot zero_page_frame pmm_free_count_def)
qed

lemma abs_1000: "pmm_abs \<lparr>pmem = (\<lambda>_. 0), freelist = 0x1000, free_count = 1\<rparr> [0x1000]"
  by (simp add: pmm_abs_def page_aligned_def)

theorem pmm_alloc_correct_witness:
  "fst (pmm_alloc \<lparr>pmem = (\<lambda>_. 0), freelist = 0x1000, free_count = 1\<rparr>) = 0x1000"
  using pmm_alloc_correct [OF abs_1000] by (simp split: prod.splits)

text \<open>
  C21. Over any run of allocations, releases of owned pages and stores into owned pages, no page
  is ever both free and owned, no page is lost or invented, an allocation never returns a page
  that is already owned, and it returns NULL exactly when every page is owned.
\<close>
theorem pmm_ownership:
  assumes "owner_run pmm_alloc pmm_free pmm_store s0 own0 s own" "pmm_abs s0 ps0"
    "own0 \<inter> set ps0 = {}" "\<forall>p \<in> own0. p \<noteq> 0 \<and> page_aligned p"
  shows "(\<exists>ps. pmm_abs s ps \<and> own \<inter> set ps = {} \<and> own \<union> set ps = own0 \<union> set ps0)
    \<and> fst (pmm_alloc s) \<notin> own \<and> (fst (pmm_alloc s) = 0 \<longleftrightarrow> own = own0 \<union> set ps0)"
  using pages.run_conserves [OF assms]
    pages.run_alloc_fresh [OF assms, of "fst (pmm_alloc s)" "snd (pmm_alloc s)"] by auto

theorem pmm_ownership_witness:
  "fst (pmm_alloc (pmm_store 0x1008 7 (snd (pmm_alloc \<lparr>pmem = (\<lambda>_. 0), freelist = 0x1000, free_count = 1\<rparr>)))) = 0"
proof -
  let ?s = "\<lparr>pmem = (\<lambda>_. 0), freelist = 0x1000, free_count = 1\<rparr>"
  have al: "pmm_alloc ?s = (0x1000, snd (pmm_alloc ?s))" by (simp add: pmm_alloc_def)
  have "owner_run pmm_alloc pmm_free pmm_store ?s {} (snd (pmm_alloc ?s)) {0x1000}"
    using owner_run.alloc [where al = pmm_alloc and s = ?s and own = "{}", OF owner_run.start al] by simp
  then have "owner_run pmm_alloc pmm_free pmm_store ?s {} (pmm_store 0x1008 7 (snd (pmm_alloc ?s))) {0x1000}"
    by (rule owner_run.store [where p = "0x1000"]) (simp_all add: in_page_def)
  from pmm_ownership [OF this abs_1000] show ?thesis by simp
qed

end
