(* ===== verification/Kmem.thy ===== *)
theory Kmem
  imports Pmm "HOL-Library.Monad_Syntax"
begin

text \<open>
  The slab allocator, \<open>uts/os/core/kmem.c\<close>, on top of the pages of \<open>Pmm\<close>. Slab headers and the links
  between free objects live in the words of the physical memory, as in the C code: the header of a slab is
  the first 32 bytes of its page and a free object's first word is the address of the next one. The cache
  descriptors are static variables, a map from their addresses; the array of the size caches starts at
  \<open>size_base\<close>. Pointers are multiples of 8. Each operation is one critical section of \<open>kmem_lock\<close>; the
  outer \<open>None\<close> of an allocation is a load through NULL. The theorems: what \<open>kmem_cache_init\<close> and
  \<open>kmem_init\<close> set up, that objects in use never overlap and never are handed out twice under any sequence
  of operations and of stores into objects in use, that memory is refused only when no page is left, and
  that \<open>kmalloc\<close> picks the smallest size class that fits.
\<close>

section \<open>Definitions\<close>

definition SLAB_MAGIC :: u32 where [consts_def]: "SLAB_MAGIC = 0x5BAB10C0"
definition OBJ_ALIGN :: u64 where [consts_def]: "OBJ_ALIGN = 8"
definition KMEM_MAX_REGISTERED :: nat where [consts_def]: "KMEM_MAX_REGISTERED = 16"

record kmem_cache =
  cache_name :: string
  obj_size :: u64
  objs_per_slab :: u64
  cache_slabs :: u64
  total_objs :: u64
  free_objs :: u64

record kmem =
  km :: pmm
  caches :: "u64 \<Rightarrow> kmem_cache"
  kmem_registered :: "u64 list"
  size_base :: u64

text \<open>The fields of \<open>struct slab\<close> in the words of its page.\<close>

definition slab_magic :: "(u64 \<Rightarrow> u64) \<Rightarrow> u64 \<Rightarrow> u32" where
  "slab_magic m s = ucast (m s)"

definition slab_free_count :: "(u64 \<Rightarrow> u64) \<Rightarrow> u64 \<Rightarrow> u32" where
  "slab_free_count m s = ucast (drop_bit 32 (m s))"

definition hdr_word :: "u32 \<Rightarrow> u32 \<Rightarrow> u64" where
  "hdr_word mg cnt = ucast mg OR push_bit 32 (ucast cnt)"

definition slab_next :: "(u64 \<Rightarrow> u64) \<Rightarrow> u64 \<Rightarrow> u64" where
  "slab_next m s = m (s + 8)"

definition slab_cache :: "(u64 \<Rightarrow> u64) \<Rightarrow> u64 \<Rightarrow> u64" where
  "slab_cache m s = m (s + 16)"

definition slab_freelist :: "(u64 \<Rightarrow> u64) \<Rightarrow> u64 \<Rightarrow> u64" where
  "slab_freelist m s = m (s + 24)"

definition set_free_count :: "u32 \<Rightarrow> u64 \<Rightarrow> (u64 \<Rightarrow> u64) \<Rightarrow> (u64 \<Rightarrow> u64)" where
  "set_free_count v s m = m(s := hdr_word (slab_magic m s) v)"

definition slab_header_size :: u64 where
  "slab_header_size = (32 + OBJ_ALIGN - 1) AND NOT (OBJ_ALIGN - 1)"

definition objs_per_slab_for :: "u64 \<Rightarrow> u64" where
  "objs_per_slab_for sz = (PAGE_SIZE - slab_header_size) div sz"

definition slab_of :: "u64 \<Rightarrow> u64" where
  "slab_of p = p AND NOT (PAGE_SIZE - 1)"

text \<open>The loop that threads the objects of a new slab, from the last to the first.\<close>

fun grow_loop :: "u64 \<Rightarrow> u64 \<Rightarrow> nat \<Rightarrow> (u64 \<Rightarrow> u64) \<Rightarrow> (u64 \<Rightarrow> u64)" where
  "grow_loop s sz 0 m = m"
| "grow_loop s sz (Suc i) m =
     (let obj = s + slab_header_size + of_nat i * sz;
          m1 = m(obj := slab_freelist m s)
      in grow_loop s sz i (m1(s + 24 := obj)))"

definition grow_cache :: "u64 \<Rightarrow> kmem \<Rightarrow> u64 \<times> kmem" where
  "grow_cache c K =
     (case pmm_alloc (km K) of (s, pm) \<Rightarrow>
        if s = 0 then (0, K\<lparr>km := pm\<rparr>)
        else let r = caches K c;
                 m1 = (pmem pm)(s := hdr_word SLAB_MAGIC (ucast (objs_per_slab r)),
                                s + 16 := c, s + 8 := cache_slabs r, s + 24 := 0);
                 m2 = grow_loop s (obj_size r) (unat (objs_per_slab r)) m1
             in (s, K\<lparr>km := pm\<lparr>pmem := m2\<rparr>,
                      caches := (caches K)(c := r\<lparr>cache_slabs := s, total_objs := total_objs r + objs_per_slab r,
                                                free_objs := free_objs r + objs_per_slab r\<rparr>)\<rparr>))"

definition kmem_register :: "u64 \<Rightarrow> kmem \<Rightarrow> kmem" where
  "kmem_register c K =
     (if c \<in> set (kmem_registered K) then K
      else if length (kmem_registered K) < KMEM_MAX_REGISTERED then K\<lparr>kmem_registered := kmem_registered K @ [c]\<rparr>
      else K)"

definition round_obj_size :: "u64 \<Rightarrow> u64" where
  "round_obj_size sz = ((if sz < 8 then 8 else sz) + OBJ_ALIGN - 1) AND NOT (OBJ_ALIGN - 1)"

definition kmem_cache_init :: "u64 \<Rightarrow> string \<Rightarrow> u64 \<Rightarrow> kmem \<Rightarrow> kmem" where
  "kmem_cache_init c nm sz K =
     (let sz1 = round_obj_size sz in
      kmem_register c (K\<lparr>caches := (caches K)(c := \<lparr>cache_name = nm, obj_size = sz1, objs_per_slab = objs_per_slab_for sz1,
                                                cache_slabs = 0, total_objs = 0, free_objs = 0\<rparr>)\<rparr>))"

partial_function (option) count_slabs :: "(u64 \<Rightarrow> u64) \<Rightarrow> u64 \<Rightarrow> u32 \<Rightarrow> u32 option" where
  "count_slabs m s n = (if s = 0 then Some n else count_slabs m (slab_next m s) (n + 1))"

definition kmem_cache_nslabs :: "u64 \<Rightarrow> kmem \<Rightarrow> u32 option" where
  "kmem_cache_nslabs c K = count_slabs (pmem (km K)) (cache_slabs (caches K c)) 0"

definition kmem_num_caches :: "kmem \<Rightarrow> nat" where
  "kmem_num_caches K = length (kmem_registered K)"

definition kmem_get_cache :: "nat \<Rightarrow> kmem \<Rightarrow> u64 ptr" where
  "kmem_get_cache i K = (if i \<ge> length (kmem_registered K) then None else Some (kmem_registered K ! i))"

partial_function (option) find_slab :: "(u64 \<Rightarrow> u64) \<Rightarrow> u64 \<Rightarrow> u64 option" where
  "find_slab m s =
     (if s = 0 then Some 0 else if slab_free_count m s > 0 then Some s else find_slab m (slab_next m s))"

definition kmem_cache_alloc :: "u64 \<Rightarrow> kmem \<Rightarrow> (u64 \<times> kmem) option" where
  "kmem_cache_alloc c K =
     do { s0 \<leftarrow> find_slab (pmem (km K)) (cache_slabs (caches K c));
          let (s, K1) = (if s0 = 0 then grow_cache c K else (s0, K));
          if s = 0 then Some (0, K1)
          else let m = pmem (km K1); p = slab_freelist m s in
            if p = 0 then None
            else let m1 = m(s + 24 := m p); m2 = set_free_count (slab_free_count m1 s - 1) s m1
                 in Some (p, K1\<lparr>km := (km K1)\<lparr>pmem := m2\<rparr>,
                                caches := (caches K1)(c := (caches K1 c)\<lparr>free_objs := free_objs (caches K1 c) - 1\<rparr>)\<rparr>) }"

definition slab_free :: "u64 \<Rightarrow> u64 \<Rightarrow> kmem \<Rightarrow> kmem" where
  "slab_free s p K =
     (let m = pmem (km K); m1 = m(p := slab_freelist m s); m2 = m1(s + 24 := p);
          m3 = set_free_count (slab_free_count m2 s + 1) s m2; c = slab_cache m3 s
      in K\<lparr>km := (km K)\<lparr>pmem := m3\<rparr>,
           caches := (caches K)(c := (caches K c)\<lparr>free_objs := free_objs (caches K c) + 1\<rparr>)\<rparr>)"

definition kmem_cache_free :: "u64 \<Rightarrow> u64 \<Rightarrow> kmem \<Rightarrow> kmem" where
  "kmem_cache_free c p K =
     (if p = 0 then K
      else let s = slab_of p; m = pmem (km K) in
        if slab_magic m s \<noteq> SLAB_MAGIC \<or> slab_cache m s \<noteq> c then K else slab_free s p K)"

definition kfree :: "u64 \<Rightarrow> kmem \<Rightarrow> kmem" where
  "kfree p K =
     (if p = 0 then K
      else let s = slab_of p in if slab_magic (pmem (km K)) s \<noteq> SLAB_MAGIC then K else slab_free s p K)"

text \<open>An element of \<open>size_caches\<close> is 64 bytes: a name, a size and the cache at offset 16.\<close>

definition size_caches :: "(string \<times> u64) list" where
  "size_caches = [(''size-16'', 16), (''size-32'', 32), (''size-64'', 64), (''size-128'', 128),
     (''size-256'', 256), (''size-512'', 512), (''size-1024'', 1024), (''size-2048'', 2048)]"

definition size_cache :: "u64 \<Rightarrow> nat \<Rightarrow> u64" where
  "size_cache b i = b + 64 * of_nat i + 16"

definition kmem_init :: "kmem \<Rightarrow> kmem" where
  "kmem_init K = fold (\<lambda>i. kmem_cache_init (size_cache (size_base K) i) (fst (size_caches ! i)) (snd (size_caches ! i)))
     [0..<length size_caches] K"

text \<open>The first class that is large enough, from index \<open>i\<close> on.\<close>

fun size_class :: "u64 \<Rightarrow> (string \<times> u64) list \<Rightarrow> nat \<Rightarrow> nat option" where
  "size_class n [] i = None"
| "size_class n ((_, sz) # r) i = (if sz \<ge> n then Some i else size_class n r (Suc i))"

definition kmalloc :: "u64 \<Rightarrow> kmem \<Rightarrow> (u64 \<times> kmem) option" where
  "kmalloc n K =
     (if n = 0 then Some (0, K)
      else case size_class n size_caches 0 of
        None \<Rightarrow> Some (0, K)
      | Some i \<Rightarrow> kmem_cache_alloc (size_cache (size_base K) i) K)"

definition kmem_num_size_caches :: nat where
  "kmem_num_size_caches = length size_caches"

definition kmem_get_size_cache :: "nat \<Rightarrow> kmem \<Rightarrow> u64 ptr" where
  "kmem_get_size_cache i K = (if i \<ge> length size_caches then None else Some (size_cache (size_base K) i))"

text \<open>What taking an object and returning one do to the memory.\<close>

definition slab_pop :: "u64 \<Rightarrow> (u64 \<Rightarrow> u64) \<Rightarrow> (u64 \<Rightarrow> u64)" where
  "slab_pop s m = (let m1 = m(s + 24 := m (slab_freelist m s)) in set_free_count (slab_free_count m1 s - 1) s m1)"

definition slab_push :: "u64 \<Rightarrow> u64 \<Rightarrow> (u64 \<Rightarrow> u64) \<Rightarrow> (u64 \<Rightarrow> u64)" where
  "slab_push s p m = (let m2 = m(p := slab_freelist m s, s + 24 := p) in set_free_count (slab_free_count m2 s + 1) s m2)"

text \<open>
  The abstraction. A slab is its page and its list of free objects; \<open>a c\<close> lists the slabs of the cache at
  \<open>c\<close>, \<open>C\<close> the caches and \<open>ps\<close> the free pages.
\<close>

type_synonym slab = "u64 \<times> u64 list"

definition slab_objs :: "kmem_cache \<Rightarrow> u64 \<Rightarrow> u64 list" where
  "slab_objs r s = map (\<lambda>i. s + of_nat (32 + i * unat (obj_size r))) [0..<unat (objs_per_slab r)]"

definition slab_ok :: "(u64 \<Rightarrow> u64) \<Rightarrow> u64 \<Rightarrow> kmem_cache \<Rightarrow> slab \<Rightarrow> bool" where
  "slab_ok m c r x \<longleftrightarrow> (case x of (s, fl) \<Rightarrow> s \<noteq> 0 \<and> page_aligned s \<and> slab_magic m s = SLAB_MAGIC \<and> slab_cache m s = c
     \<and> slist (\<lambda>a. nullptr (m a)) (nullptr (slab_freelist m s)) fl \<and> set fl \<subseteq> set (slab_objs r s)
     \<and> slab_free_count m s = of_nat (length fl))"

definition geometry :: "kmem_cache \<Rightarrow> bool" where
  "geometry r \<longleftrightarrow> 8 \<le> unat (obj_size r) \<and> unat (obj_size r) mod 8 = 0 \<and> 0 < unat (objs_per_slab r)
     \<and> unat (objs_per_slab r) * unat (obj_size r) \<le> 4064"

definition cache_ok :: "(u64 \<Rightarrow> u64) \<Rightarrow> u64 \<Rightarrow> kmem_cache \<Rightarrow> slab list \<Rightarrow> bool" where
  "cache_ok m c r sl \<longleftrightarrow> geometry r \<and> slist (\<lambda>s. nullptr (slab_next m s)) (nullptr (cache_slabs r)) (map fst sl)
     \<and> (\<forall>x \<in> set sl. slab_ok m c r x) \<and> total_objs r = of_nat (length sl) * objs_per_slab r
     \<and> free_objs r = of_nat (sum_list (map (\<lambda>x. length (snd x)) sl))"

definition kmem_abs :: "kmem \<Rightarrow> u64 set \<Rightarrow> u64 list \<Rightarrow> (u64 \<Rightarrow> slab list) \<Rightarrow> bool" where
  "kmem_abs K C ps a \<longleftrightarrow> pmm_abs (km K) ps \<and> (\<forall>c \<in> C. cache_ok (pmem (km K)) c (caches K c) (a c))
     \<and> (\<forall>c \<in> C. fst ` set (a c) \<inter> set ps = {})
     \<and> (\<forall>c \<in> C. \<forall>d \<in> C. c \<noteq> d \<longrightarrow> fst ` set (a c) \<inter> fst ` set (a d) = {})"

text \<open>The objects in use, each with its cache.\<close>

definition used :: "kmem_cache \<Rightarrow> slab list \<Rightarrow> u64 set" where
  "used r sl = (\<Union>x \<in> set sl. set (slab_objs r (fst x)) - set (snd x))"

definition in_use :: "kmem \<Rightarrow> u64 set \<Rightarrow> (u64 \<Rightarrow> slab list) \<Rightarrow> (u64 \<times> u64) set" where
  "in_use K C a = {(c, p). c \<in> C \<and> p \<in> used (caches K c) (a c)}"

text \<open>A store by the user of an object.\<close>

definition kmem_store :: "u64 \<Rightarrow> u64 \<Rightarrow> kmem \<Rightarrow> kmem" where
  "kmem_store x v K = K\<lparr>km := pmm_store x v (km K)\<rparr>"

text \<open>Runs of the allocator from a state with no object in use; the set holds the objects handed out.\<close>

inductive kmem_run :: "u64 set \<Rightarrow> kmem \<Rightarrow> kmem \<Rightarrow> (u64 \<times> u64) set \<Rightarrow> bool" for C K0 where
  start: "kmem_run C K0 K0 {}"
| alloc: "kmem_run C K0 K L \<Longrightarrow> c \<in> C \<Longrightarrow> kmem_cache_alloc c K = Some (p, K') \<Longrightarrow>
    kmem_run C K0 K' (if p = 0 then L else insert (c, p) L)"
| free: "kmem_run C K0 K L \<Longrightarrow> (c, p) \<in> L \<Longrightarrow> kmem_run C K0 (kfree p K) (L - {(c, p)})"
| cache_free: "kmem_run C K0 K L \<Longrightarrow> (c, p) \<in> L \<Longrightarrow> kmem_run C K0 (kmem_cache_free c p K) (L - {(c, p)})"
| store: "kmem_run C K0 K L \<Longrightarrow> (c, p) \<in> L \<Longrightarrow> k < unat (obj_size (caches K c)) \<Longrightarrow>
    kmem_run C K0 (kmem_store (p + of_nat k) v K) L"

text \<open>No page is free and no slab of the cache has a free object.\<close>

definition exhausted :: "u64 list \<Rightarrow> slab list \<Rightarrow> bool" where
  "exhausted ps sl \<longleftrightarrow> ps = [] \<and> (\<forall>x \<in> set sl. snd x = [])"

text \<open>The smallest size class for a request.\<close>

definition best_class :: "u64 \<Rightarrow> nat \<Rightarrow> bool" where
  "best_class n i \<longleftrightarrow> i < 8 \<and> n \<le> snd (size_caches ! i) \<and> (\<forall>j < i. snd (size_caches ! j) < n)"

text \<open>A size cache after boot, and a memory with one free page.\<close>

definition boot_cache :: "nat \<Rightarrow> kmem_cache" where
  "boot_cache i = \<lparr>cache_name = fst (size_caches ! i), obj_size = snd (size_caches ! i),
     objs_per_slab = objs_per_slab_for (snd (size_caches ! i)), cache_slabs = 0, total_objs = 0, free_objs = 0\<rparr>"

definition sample_kmem :: kmem where
  "sample_kmem = \<lparr>km = \<lparr>pmem = (\<lambda>_. 0), freelist = 0x1000, free_count = 1\<rparr>, caches = (\<lambda>_. boot_cache 0), kmem_registered = [], size_base = 0x40000\<rparr>"

section \<open>Lemmas\<close>

lemma hdr_word_fields [simp]: "ucast (hdr_word a b) = a" "ucast (drop_bit 32 (hdr_word a b)) = b"
  by (rule bit_word_eqI, auto simp: hdr_word_def bit_simps dest: bit_imp_le_length)+

lemma header_32 [simp]: "slab_header_size = 32"
  by (simp add: slab_header_size_def consts_def)

lemma unat_page_off: "page_aligned s \<Longrightarrow> k < 4096 \<Longrightarrow> unat (s + of_nat k) = unat s + k"
  using page_bound [of s] by (simp add: unat_word_ariths unat_of_nat)

lemma slot_eq:
  assumes "page_aligned s" "page_aligned t" "i < 4096" "j < 4096"
  shows "s + of_nat i = t + of_nat j \<longleftrightarrow> s = t \<and> i = j"
proof
  assume "s + of_nat i = t + of_nat j"
  then have e: "unat s + i = unat t + j" using unat_page_off [OF assms(1,3)] unat_page_off [OF assms(2,4)] by metis
  obtain x y where xy: "unat s = 4096 * x" "unat t = 4096 * y"
    using assms(1,2) by (auto simp: page_aligned_def mod_eq_0_iff_dvd dvd_def)
  then have "(4096 * x + i) div 4096 = (4096 * y + j) div 4096" using e by simp
  then have "x = y" using assms(3,4) by simp
  with e xy show "s = t \<and> i = j" by (simp add: word_unat_eq_iff)
qed simp

lemma in_page_off: "page_aligned s \<Longrightarrow> k < 4096 \<Longrightarrow> in_page s (s + of_nat k)"
  by (auto simp: in_page_def unat_page_off page_aligned_def mod_eq_0_iff_dvd elim!: dvdE)

lemma slab_of_off:
  assumes "page_aligned s" "k < 4096" shows "slab_of (s + of_nat k) = s"
proof -
  have "slab_of (s + of_nat k) = align_dn (s + of_nat k) PAGE_SIZE" by (simp add: slab_of_def align_dn_def)
  then have "unat (slab_of (s + of_nat k)) = 4096 * ((unat s + k) div 4096)" using assms by (simp add: unat_align_dn unat_page_off)
  also have "\<dots> = unat s" using assms by (auto simp: page_aligned_def mod_eq_0_iff_dvd elim!: dvdE)
  finally show ?thesis by (simp add: word_unat_eq_iff)
qed

lemma obj_off:
  assumes "geometry r" "i < unat (objs_per_slab r)" "k < unat (obj_size r)"
  shows "32 + i * unat (obj_size r) + k < 4096"
proof -
  have "Suc i * unat (obj_size r) \<le> unat (objs_per_slab r) * unat (obj_size r)" using assms(2) by (intro mult_right_mono) simp_all
  then show ?thesis using assms(1,3) by (simp add: geometry_def)
qed

lemma slab_objsE:
  assumes "p \<in> set (slab_objs r s)" "geometry r"
  obtains i where "i < unat (objs_per_slab r)" "p = s + of_nat (32 + i * unat (obj_size r))" "32 + i * unat (obj_size r) < 4096"
  using assms obj_off [OF assms(2), of _ 0] by (auto simp: slab_objs_def geometry_def)

text \<open>Two objects with a common byte are the same object.\<close>

lemma objs_disjoint:
  assumes "geometry r" "page_aligned s" "geometry r'" "page_aligned s'" "s = s' \<Longrightarrow> r = r'"
    "p \<in> set (slab_objs r s)" "q \<in> set (slab_objs r' s')" "k < unat (obj_size r)" "l < unat (obj_size r')" "p + of_nat k = q + of_nat l"
  shows "p = q \<and> k = l \<and> s = s'"
proof -
  from assms(6) obtain i where i: "i < unat (objs_per_slab r)" "p = s + of_nat (32 + i * unat (obj_size r))" by (auto simp: slab_objs_def)
  from assms(7) obtain j where j: "j < unat (objs_per_slab r')" "q = s' + of_nat (32 + j * unat (obj_size r'))" by (auto simp: slab_objs_def)
  have "s + of_nat (32 + i * unat (obj_size r) + k) = s' + of_nat (32 + j * unat (obj_size r') + l)"
    using assms(10) i(2) j(2) by (simp add: algebra_simps)
  then have e: "s = s'" "32 + i * unat (obj_size r) + k = 32 + j * unat (obj_size r') + l"
    using slot_eq [OF assms(2,4) obj_off [OF assms(1) i(1) assms(8)] obj_off [OF assms(3) j(1) assms(9)]] by simp_all
  then have r: "r = r'" and d: "(i * unat (obj_size r) + k) div unat (obj_size r) = (j * unat (obj_size r) + l) div unat (obj_size r)"
    using assms(5) by simp_all
  then have "i = j" using assms(1,8,9) by (simp add: geometry_def)
  with e i(2) j(2) r show ?thesis by simp
qed

lemma obj_not_header:
  assumes "geometry r" "page_aligned s" "p \<in> set (slab_objs r s)" "k < unat (obj_size r)"
  shows "p + of_nat k \<noteq> s" "p + of_nat k \<noteq> s + 8" "p + of_nat k \<noteq> s + 16" "p + of_nat k \<noteq> s + 24"
proof -
  from assms(3) obtain i where i: "i < unat (objs_per_slab r)" "p = s + of_nat (32 + i * unat (obj_size r))" by (auto simp: slab_objs_def)
  have "p + of_nat k \<noteq> s + of_nat h" if "h < 32" for h
  proof -
    have "p + of_nat k = s + of_nat (32 + i * unat (obj_size r) + k)" using i(2) by (simp add: algebra_simps)
    then show ?thesis using slot_eq [OF assms(2,2) obj_off [OF assms(1) i(1) assms(4)], of h] that by (simp add: add.assoc)
  qed
  from this [of 0] this [of 8] this [of 16] this [of 24]
  show "p + of_nat k \<noteq> s" "p + of_nat k \<noteq> s + 8" "p + of_nat k \<noteq> s + 16" "p + of_nat k \<noteq> s + 24" by simp_all
qed

lemma geometry_pos: "geometry r \<Longrightarrow> 0 < unat (obj_size r)" "geometry r \<Longrightarrow> 0 < obj_size r"
  by (auto simp: geometry_def word_less_nat_alt)

lemma obj_not_header0:
  assumes "geometry r" "page_aligned s" "p \<in> set (slab_objs r s)"
  shows "p \<noteq> s" "p \<noteq> s + 8" "p \<noteq> s + 16" "p \<noteq> s + 24"
  using obj_not_header [OF assms, of 0] geometry_pos(1) [OF assms(1)] by simp_all

lemma obj_in_page:
  assumes "geometry r" "page_aligned s" "p \<in> set (slab_objs r s)" "k < unat (obj_size r)"
  shows "in_page s (p + of_nat k)" "slab_of (p + of_nat k) = s"
proof -
  from assms(3) obtain i where i: "i < unat (objs_per_slab r)" "p = s + of_nat (32 + i * unat (obj_size r))" by (auto simp: slab_objs_def)
  then have e: "p + of_nat k = s + of_nat (32 + i * unat (obj_size r) + k)" by (simp add: algebra_simps)
  show "in_page s (p + of_nat k)" "slab_of (p + of_nat k) = s"
    unfolding e by (intro in_page_off slab_of_off assms(2) obj_off [OF assms(1) i(1) assms(4)])+
qed

lemma obj_nonzero: "geometry r \<Longrightarrow> page_aligned s \<Longrightarrow> s \<noteq> 0 \<Longrightarrow> p \<in> set (slab_objs r s) \<Longrightarrow> p \<noteq> 0"
proof
  assume a: "geometry r" "page_aligned s" "s \<noteq> 0" "p \<in> set (slab_objs r s)" "p = 0"
  from slab_objsE [OF a(4,1)] obtain i where "0 = s + of_nat (32 + i * unat (obj_size r))" "32 + i * unat (obj_size r) < 4096"
    using a(5) by metis
  then have "unat s + (32 + i * unat (obj_size r)) = 0" using unat_page_off [OF a(2)] by (metis unsigned_0)
  then show False by simp
qed

lemma header_in_page:
  assumes "page_aligned s" shows "in_page s s" "in_page s (s + 8)" "in_page s (s + 16)" "in_page s (s + 24)"
  using in_page_off [OF assms, of 0] in_page_off [OF assms, of 8] in_page_off [OF assms, of 16] in_page_off [OF assms, of 24] by simp_all

lemma slab_ok_distinct: "slab_ok m c r (s, fl) \<Longrightarrow> distinct fl"
  by (auto simp: slab_ok_def dest: slist_distinct)

lemma slab_ok_frame:
  assumes "slab_ok m c r (s, fl)" "geometry r" "\<And>x. in_page s x \<Longrightarrow> m' x = m x"
  shows "slab_ok m' c r (s, fl)" "slab_next m' s = slab_next m s"
proof -
  have s: "page_aligned s" "set fl \<subseteq> set (slab_objs r s)" using assms(1) by (simp_all add: slab_ok_def)
  have "m' a = m a" if "a \<in> set fl" for a
    using obj_in_page(1) [OF assms(2) s(1), of a 0] geometry_pos(1) [OF assms(2)] that s(2) assms(3) by auto
  then have "slist (\<lambda>a. nullptr (m' a)) h fl \<longleftrightarrow> slist (\<lambda>a. nullptr (m a)) h fl" for h by (intro slist_cong) simp
  then show "slab_ok m' c r (s, fl)" using assms(1,3) header_in_page [OF s(1)]
    by (simp add: slab_ok_def slab_magic_def slab_cache_def slab_freelist_def slab_free_count_def)
  show "slab_next m' s = slab_next m s" using assms(3) header_in_page [OF s(1)] by (simp add: slab_next_def)
qed

lemma slab_free_list_length:
  assumes "slab_ok m c r (s, fl)" "geometry r"
  shows "length fl \<le> 508" "unat (slab_free_count m s) = length fl"
proof -
  have "distinct fl" "set fl \<subseteq> set (slab_objs r s)" using assms(1) by (auto simp: slab_ok_def dest: slist_distinct)
  then have "length fl \<le> card (set (slab_objs r s))" using card_mono [of "set (slab_objs r s)" "set fl"] by (simp add: distinct_card)
  also have "\<dots> \<le> length (slab_objs r s)" by (rule card_length)
  finally have "length fl \<le> unat (objs_per_slab r)" by (simp add: slab_objs_def)
  moreover have "unat (objs_per_slab r) * 8 \<le> unat (objs_per_slab r) * unat (obj_size r)"
    using assms(2) by (intro mult_le_mono2) (simp add: geometry_def)
  then have "unat (objs_per_slab r) * 8 \<le> 4064" using assms(2) by (simp only: geometry_def) linarith
  ultimately show l: "length fl \<le> 508" by simp
  then show "unat (slab_free_count m s) = length fl" using assms(1) by (simp add: slab_ok_def unat_of_nat)
qed

lemmas slab_fields = slab_magic_def slab_cache_def slab_freelist_def slab_free_count_def slab_next_def set_free_count_def

lemma slab_pop_ok:
  assumes "slab_ok m c r (s, p # fl)" "geometry r"
  shows "slab_freelist m s = p" "slab_ok (slab_pop s m) c r (s, fl)" "slab_next (slab_pop s m) s = slab_next m s"
    "\<not> in_page s x \<Longrightarrow> slab_pop s m x = m x"
proof -
  have s: "page_aligned s" "set (p # fl) \<subseteq> set (slab_objs r s)" and l: "slist (\<lambda>a. nullptr (m a)) (nullptr (slab_freelist m s)) (p # fl)"
    using assms(1) by (auto simp: slab_ok_def)
  show p: "slab_freelist m s = p" using l by simp
  have f: "slab_pop s m = m(s + 24 := m p, s := hdr_word (slab_magic m s) (slab_free_count m s - 1))"
    using p by (simp add: slab_pop_def Let_def slab_fields)
  have "slab_pop s m a = m a" if "a \<in> set fl" for a
    using obj_not_header0 [OF assms(2) s(1), of a] that s(2) by (auto simp: f)
  then have "slist (\<lambda>a. nullptr (slab_pop s m a)) (nullptr (m p)) fl \<longleftrightarrow> slist (\<lambda>a. nullptr (m a)) (nullptr (m p)) fl"
    by (intro slist_cong) simp
  moreover have "slab_magic (slab_pop s m) s = slab_magic m s" "slab_cache (slab_pop s m) s = slab_cache m s"
    "slab_freelist (slab_pop s m) s = m p" "slab_free_count (slab_pop s m) s = slab_free_count m s - 1"
    by (simp_all add: f slab_fields)
  ultimately show "slab_ok (slab_pop s m) c r (s, fl)" using assms(1) l by (simp add: slab_ok_def)
  show "slab_next (slab_pop s m) s = slab_next m s" by (simp add: f slab_fields)
  show "\<not> in_page s x \<Longrightarrow> slab_pop s m x = m x" using header_in_page [OF s(1)] by (auto simp: f)
qed

lemma slab_push_ok:
  assumes "slab_ok m c r (s, fl)" "geometry r" "p \<in> set (slab_objs r s)" "p \<notin> set fl"
  shows "slab_ok (slab_push s p m) c r (s, p # fl)" "slab_next (slab_push s p m) s = slab_next m s"
    "\<not> in_page s x \<Longrightarrow> slab_push s p m x = m x"
proof -
  have s: "page_aligned s" "s \<noteq> 0" "set fl \<subseteq> set (slab_objs r s)" using assms(1) by (simp_all add: slab_ok_def)
  note n = obj_not_header0 [OF assms(2) s(1) assms(3)]
  have f: "slab_push s p m = m(p := slab_freelist m s, s + 24 := p, s := hdr_word (slab_magic m s) (slab_free_count m s + 1))"
    using n by (simp add: slab_push_def Let_def slab_fields)
  have "slab_push s p m a = m a" if "a \<in> set fl" for a
    using obj_not_header0 [OF assms(2) s(1), of a] n that s(3) assms(4) by (auto simp: f)
  then have "slist (\<lambda>a. nullptr (slab_push s p m a)) h fl \<longleftrightarrow> slist (\<lambda>a. nullptr (m a)) h fl" for h
    by (intro slist_cong) simp
  moreover have "slab_magic (slab_push s p m) s = slab_magic m s" "slab_cache (slab_push s p m) s = slab_cache m s"
    "slab_freelist (slab_push s p m) s = p" "slab_free_count (slab_push s p m) s = slab_free_count m s + 1" "slab_push s p m p = slab_freelist m s"
    using n by (simp_all add: f slab_fields)
  ultimately show "slab_ok (slab_push s p m) c r (s, p # fl)"
    using assms obj_nonzero [OF assms(2) s(1,2) assms(3)] by (simp add: slab_ok_def)
  show "slab_next (slab_push s p m) s = slab_next m s" using n by (simp add: f slab_fields)
  show "\<not> in_page s x \<Longrightarrow> slab_push s p m x = m x"
    using header_in_page [OF s(1)] obj_in_page(1) [OF assms(2) s(1) assms(3), of 0] geometry_pos [OF assms(2)] by (auto simp: f)
qed

lemma slab_store_ok:
  assumes "slab_ok m c r (s, fl)" "geometry r" "p \<in> set (slab_objs r s)" "p \<notin> set fl" "k < unat (obj_size r)"
  shows "slab_ok (m(p + of_nat k := v)) c r (s, fl)" "slab_next (m(p + of_nat k := v)) s = slab_next m s"
proof -
  have s: "page_aligned s" "set fl \<subseteq> set (slab_objs r s)" using assms(1) by (simp_all add: slab_ok_def)
  note n = obj_not_header [OF assms(2) s(1) assms(3,5)]
  have "p + of_nat k \<notin> set fl"
    using objs_disjoint [OF assms(2) s(1) assms(2) s(1) _ assms(3) _ assms(5), of "p + of_nat k" 0] geometry_pos(1) [OF assms(2)] s(2) assms(4) by auto
  then have "slist (\<lambda>a. nullptr ((m(p + of_nat k := v)) a)) h fl \<longleftrightarrow> slist (\<lambda>a. nullptr (m a)) h fl" for h
    by (intro slist_cong) auto
  moreover have "slab_magic (m(p + of_nat k := v)) s = slab_magic m s" "slab_cache (m(p + of_nat k := v)) s = slab_cache m s"
    "slab_freelist (m(p + of_nat k := v)) s = slab_freelist m s" "slab_free_count (m(p + of_nat k := v)) s = slab_free_count m s"
    using n by (simp_all add: slab_fields)
  ultimately show "slab_ok (m(p + of_nat k := v)) c r (s, fl)" using assms(1) by (simp add: slab_ok_def)
  show "slab_next (m(p + of_nat k := v)) s = slab_next m s" using n by (simp add: slab_fields)
qed

lemma distinct_slab_objs:
  assumes "geometry r" "page_aligned s" shows "distinct (slab_objs r s)"
proof -
  have "inj_on (\<lambda>i. s + of_nat (32 + i * unat (obj_size r))) {0..<unat (objs_per_slab r)}"
  proof (rule inj_onI)
    fix i j assume i: "i \<in> {0..<unat (objs_per_slab r)}" and j: "j \<in> {0..<unat (objs_per_slab r)}"
      and e: "s + of_nat (32 + i * unat (obj_size r)) = s + of_nat (32 + j * unat (obj_size r))"
    have "32 + i * unat (obj_size r) < 4096" "32 + j * unat (obj_size r) < 4096"
      using i j obj_off [OF assms(1), of _ 0] geometry_pos(1) [OF assms(1)] by auto
    from slot_eq [OF assms(2,2) this] e have "32 + i * unat (obj_size r) = 32 + j * unat (obj_size r)" by blast
    then show "i = j" using geometry_pos(1) [OF assms(1)] by simp
  qed
  then show ?thesis by (simp add: slab_objs_def distinct_map)
qed

lemma grow_loop_ok:
  assumes "geometry r" "page_aligned s" "s \<noteq> 0" "i \<le> unat (objs_per_slab r)"
    "slist (\<lambda>a. nullptr (m a)) (nullptr (slab_freelist m s)) (drop i (slab_objs r s))"
  shows "slist (\<lambda>a. nullptr (grow_loop s (obj_size r) i m a)) (nullptr (slab_freelist (grow_loop s (obj_size r) i m) s)) (slab_objs r s)
    \<and> (\<forall>x. x \<in> {s, s + 8, s + 16} \<or> \<not> in_page s x \<longrightarrow> grow_loop s (obj_size r) i m x = m x)"
  using assms(4,5)
proof (induction i arbitrary: m)
  case (Suc i)
  define obj where "obj = s + of_nat (32 + i * unat (obj_size r))"
  let ?m = "m(obj := slab_freelist m s, s + 24 := obj)"
  have g: "grow_loop s (obj_size r) (Suc i) m = grow_loop s (obj_size r) i ?m"
    by (simp add: Let_def obj_def add.assoc)
  have o: "obj \<in> set (slab_objs r s)" using Suc.prems(1) by (auto simp: slab_objs_def obj_def)
  have d: "drop i (slab_objs r s) = obj # drop (Suc i) (slab_objs r s)"
    using Suc.prems(1) Cons_nth_drop_Suc [of i "slab_objs r s"] by (simp add: slab_objs_def obj_def)
  note n = obj_not_header0 [OF assms(1,2) o]
  have "distinct (drop i (slab_objs r s))" using distinct_slab_objs [OF assms(1,2)] by (rule distinct_drop)
  then have "obj \<notin> set (drop (Suc i) (slab_objs r s))" using d by simp
  moreover have "s + 24 \<notin> set (drop (Suc i) (slab_objs r s))"
    using obj_not_header0(4) [OF assms(1,2)] by (auto dest: in_set_dropD)
  ultimately have "slist (\<lambda>a. nullptr (?m a)) h (drop (Suc i) (slab_objs r s)) \<longleftrightarrow> slist (\<lambda>a. nullptr (m a)) h (drop (Suc i) (slab_objs r s))" for h
    by (intro slist_cong) auto
  then have "slist (\<lambda>a. nullptr (?m a)) (nullptr (slab_freelist ?m s)) (drop i (slab_objs r s))"
    using Suc.prems(2) n obj_nonzero [OF assms(1-3) o] by (simp add: d slab_freelist_def)
  note IH = Suc.IH [OF Suc_leD [OF Suc.prems(1)] this]
  have "?m x = m x" if "x \<in> {s, s + 8, s + 16} \<or> \<not> in_page s x" for x
    using that n header_in_page(4) [OF assms(2)] obj_in_page(1) [OF assms(1,2) o, of 0] geometry_pos(1) [OF assms(1)] by auto
  with IH show ?case unfolding g by metis
qed simp

lemma find_slab_spec:
  assumes "slist (\<lambda>s. nullptr (slab_next m s)) (nullptr h) (map fst sl)" "\<And>x. x \<in> set sl \<Longrightarrow> slab_ok m c r x" "geometry r"
  shows "find_slab m h = Some (case filter (\<lambda>x. snd x \<noteq> []) sl of [] \<Rightarrow> 0 | x # _ \<Rightarrow> fst x)"
  using assms(1,2)
proof (induction sl arbitrary: h)
  case Nil
  then show ?case by (simp add: find_slab.simps)
next
  case (Cons x sl)
  obtain s fl where x: "x = (s, fl)" by (cases x)
  with Cons.prems have h: "h = s" "s \<noteq> 0" and ok: "slab_ok m c r (s, fl)" by auto
  then have "slab_free_count m s > 0 \<longleftrightarrow> fl \<noteq> []" using slab_free_list_length(2) [OF ok assms(3)]
    by (metis length_greater_0_conv unat_gt_0 word_neq_0_conv)
  with Cons x h show ?case by (simp add: find_slab.simps)
qed

lemma pages_apart: "page_aligned s \<Longrightarrow> page_aligned t \<Longrightarrow> s \<noteq> t \<Longrightarrow> in_page t x \<Longrightarrow> \<not> in_page s x"
  by (auto simp: in_page_def page_aligned_def mod_eq_0_iff_dvd word_unat_eq_iff elim!: dvdE)

lemma slab_ok_free_objs [simp]: "slab_ok m c (r\<lparr>free_objs := v\<rparr>) x = slab_ok m c r x" "geometry (r\<lparr>free_objs := v\<rparr>) = geometry r"
  "slab_objs (r\<lparr>free_objs := v\<rparr>) s = slab_objs r s" "cache_slabs (r\<lparr>free_objs := v\<rparr>) = cache_slabs r"
  by (simp_all add: slab_ok_def geometry_def slab_objs_def)

text \<open>A change inside the page \<open>t\<close> leaves the slabs on other pages and the links between them alone.\<close>

lemma slab_apart:
  assumes "slab_ok m c r x" "geometry r" "page_aligned t" "fst x \<noteq> t" "\<And>y. \<not> in_page t y \<Longrightarrow> m' y = m y"
  shows "slab_ok m' c r x \<and> slab_next m' (fst x) = slab_next m (fst x)"
proof (cases x)
  case (Pair s fl)
  with assms(1,4) have s: "slab_ok m c r (s, fl)" "page_aligned s" "t \<noteq> s" by (auto simp: slab_ok_def)
  have e: "m' y = m y" if "in_page s y" for y using assms(5) pages_apart [OF assms(3) s(2,3) that] .
  show ?thesis unfolding Pair fst_conv using slab_ok_frame(1) [OF s(1) assms(2) e] slab_ok_frame(2) [OF s(1) assms(2) e] by blast
qed

lemma cache_ok_frame:
  assumes "cache_ok m c r sl" "page_aligned t" "t \<notin> fst ` set sl" "\<And>x. \<not> in_page t x \<Longrightarrow> m' x = m x"
  shows "cache_ok m' c r sl"
proof -
  have g: "geometry r" and ok: "\<And>x. x \<in> set sl \<Longrightarrow> slab_ok m c r x" using assms(1) by (simp_all add: cache_ok_def)
  have f: "slab_ok m' c r x \<and> slab_next m' (fst x) = slab_next m (fst x)" if "x \<in> set sl" for x
    using that assms(3) by (intro slab_apart [OF ok [OF that] g assms(2)] assms(4)) auto
  then have "slist (\<lambda>s. nullptr (slab_next m' s)) h (map fst sl) \<longleftrightarrow> slist (\<lambda>s. nullptr (slab_next m s)) h (map fst sl)" for h
    by (intro slist_cong) auto
  with f assms(1) show ?thesis by (simp add: cache_ok_def)
qed

lemma cache_ok_replace:
  assumes "cache_ok m c r (xs @ (s, fl) # ys)" "slab_ok m' c r (s, fl')" "slab_next m' s = slab_next m s"
    "\<And>x. \<not> in_page s x \<Longrightarrow> m' x = m x" "v = free_objs r + of_nat (length fl') - of_nat (length fl)"
  shows "cache_ok m' c (r\<lparr>free_objs := v\<rparr>) (xs @ (s, fl') # ys)"
proof -
  let ?sl = "xs @ (s, fl) # ys"
  have g: "geometry r" and ok: "\<And>x. x \<in> set ?sl \<Longrightarrow> slab_ok m c r x"
    and l: "slist (\<lambda>s. nullptr (slab_next m s)) (nullptr (cache_slabs r)) (map fst ?sl)" using assms(1) unfolding cache_ok_def by blast+
  have d: "s \<notin> fst ` set xs \<union> fst ` set ys" using slist_distinct [OF l] by auto
  have p: "page_aligned s" using assms(2) by (simp add: slab_ok_def)
  have f: "slab_ok m' c r x \<and> slab_next m' (fst x) = slab_next m (fst x)" if "x \<in> set xs \<union> set ys" for x
    using that d by (intro slab_apart [OF _ g p] ok assms(4)) auto
  have "slist (\<lambda>s. nullptr (slab_next m' s)) h (map fst ?sl) \<longleftrightarrow> slist (\<lambda>s. nullptr (slab_next m s)) h (map fst ?sl)" for h
  proof (rule slist_cong)
    fix x assume "x \<in> set (map fst ?sl)"
    then consider "x = s" | y where "y \<in> set xs \<union> set ys" "x = fst y" by auto
    then show "nullptr (slab_next m' x) = nullptr (slab_next m x)" using f assms(3) by cases auto
  qed
  with l have "slist (\<lambda>s. nullptr (slab_next m' s)) (nullptr (cache_slabs r)) (map fst (xs @ (s, fl') # ys))" by simp
  moreover have "\<forall>x \<in> set (xs @ (s, fl') # ys). slab_ok m' c r x" using f assms(2) by auto
  ultimately show ?thesis using assms(1,5) g by (simp add: cache_ok_def)
qed

lemma pmm_abs_pages: "pmm_abs s ps \<Longrightarrow> p \<in> set ps \<Longrightarrow> p \<noteq> 0 \<and> page_aligned p"
  by (simp add: pmm_abs_def)

lemma pmm_abs_apart:
  assumes "pmm_abs s ps" "page_aligned t" "t \<notin> set ps" "\<And>x. \<not> in_page t x \<Longrightarrow> m' x = pmem s x"
  shows "pmm_abs (s\<lparr>pmem := m'\<rparr>) ps"
proof -
  have "m' p = pmem s p" if "p \<in> set ps" for p
    using assms(2,3,4) in_page_aligned [of t p] pmm_abs_pages [OF assms(1) that] that by metis
  then have "pmm_abs (s\<lparr>pmem := m'\<rparr>) ps \<longleftrightarrow> pmm_abs s ps" by (intro pmm_abs_cong) simp_all
  with assms(1) show ?thesis by simp
qed

lemma kmem_abs_replace:
  assumes "kmem_abs K C ps a" "c \<in> C" "a c = xs @ (s, fl) # ys" "slab_ok m' c (caches K c) (s, fl')"
    "slab_next m' s = slab_next (pmem (km K)) s" "\<And>x. \<not> in_page s x \<Longrightarrow> m' x = pmem (km K) x"
    "v = free_objs (caches K c) + of_nat (length fl') - of_nat (length fl)"
  shows "kmem_abs (K\<lparr>km := (km K)\<lparr>pmem := m'\<rparr>, caches := (caches K)(c := (caches K c)\<lparr>free_objs := v\<rparr>)\<rparr>) C ps (a(c := xs @ (s, fl') # ys))"
proof -
  have k: "pmm_abs (km K) ps" "\<And>d. d \<in> C \<Longrightarrow> cache_ok (pmem (km K)) d (caches K d) (a d)"
    "\<And>d. d \<in> C \<Longrightarrow> fst ` set (a d) \<inter> set ps = {}" "\<And>d e. d \<in> C \<Longrightarrow> e \<in> C \<Longrightarrow> d \<noteq> e \<Longrightarrow> fst ` set (a d) \<inter> fst ` set (a e) = {}"
    using assms(1) by (simp_all add: kmem_abs_def)
  have p: "page_aligned s" using assms(4) by (simp add: slab_ok_def)
  have "s \<notin> set ps" using k(3) [OF assms(2)] assms(3) by auto
  then have "pmm_abs ((km K)\<lparr>pmem := m'\<rparr>) ps" by (intro pmm_abs_apart [OF k(1) p] assms(6))
  moreover have "cache_ok m' c ((caches K c)\<lparr>free_objs := v\<rparr>) (xs @ (s, fl') # ys)"
    using k(2) [OF assms(2)] by (intro cache_ok_replace [OF _ assms(4,5,6,7)]) (simp add: assms(3))
  moreover have "cache_ok m' d (caches K d) (a d)" if "d \<in> C" "d \<noteq> c" for d
  proof -
    have "s \<notin> fst ` set (a d)" using k(4) [OF that(1) assms(2) that(2)] assms(3) by auto
    then show ?thesis by (intro cache_ok_frame [OF k(2) [OF that(1)] p] assms(6))
  qed
  moreover have "fst ` set (xs @ (s, fl') # ys) = fst ` set (a c)" by (simp add: assms(3))
  ultimately show ?thesis using k(3,4) assms(2) unfolding kmem_abs_def by (auto simp: fun_upd_apply split: if_splits)
qed

lemma find_slab_abs:
  assumes "kmem_abs K C ps a" "c \<in> C"
  shows "find_slab (pmem (km K)) (cache_slabs (caches K c)) = Some (case filter (\<lambda>x. snd x \<noteq> []) (a c) of [] \<Rightarrow> 0 | x # _ \<Rightarrow> fst x)"
  using assms find_slab_spec [of "pmem (km K)" "cache_slabs (caches K c)" "a c" c "caches K c"]
  by (auto simp: kmem_abs_def cache_ok_def)

text \<open>Taking an object from a slab that has one.\<close>

lemma alloc_from:
  assumes "kmem_abs K C ps a" "c \<in> C" "a c = xs @ (s, p # fl) # ys"
  shows "slab_freelist (pmem (km K)) s = p" "p \<noteq> 0" "p \<in> set (slab_objs (caches K c) s) - set fl"
    "kmem_abs (K\<lparr>km := (km K)\<lparr>pmem := slab_pop s (pmem (km K))\<rparr>, caches := (caches K)(c := (caches K c)\<lparr>free_objs := free_objs (caches K c) - 1\<rparr>)\<rparr>)
       C ps (a(c := xs @ (s, fl) # ys))"
proof -
  have ok: "slab_ok (pmem (km K)) c (caches K c) (s, p # fl)" and g: "geometry (caches K c)"
    using assms by (auto simp: kmem_abs_def cache_ok_def)
  show p: "slab_freelist (pmem (km K)) s = p" by (rule slab_pop_ok(1) [OF ok g])
  have "distinct (p # fl)" by (rule slab_ok_distinct [OF ok])
  then show "p \<in> set (slab_objs (caches K c) s) - set fl" using ok by (simp add: slab_ok_def)
  then show "p \<noteq> 0" using ok obj_nonzero [OF g, of s p] by (simp add: slab_ok_def)
  show "kmem_abs (K\<lparr>km := (km K)\<lparr>pmem := slab_pop s (pmem (km K))\<rparr>, caches := (caches K)(c := (caches K c)\<lparr>free_objs := free_objs (caches K c) - 1\<rparr>)\<rparr>)
       C ps (a(c := xs @ (s, fl) # ys))"
    by (rule kmem_abs_replace [OF assms slab_pop_ok(2,3) [OF ok g] slab_pop_ok(4) [OF ok g]]) simp_all
qed

text \<open>A new slab.\<close>

lemma grow_cache_ok:
  assumes "kmem_abs K C (s # ps) a" "c \<in> C" "grow_cache c K = (t, K')"
  shows "t = s" "kmem_abs K' C ps (a(c := (s, slab_objs (caches K c) s) # a c))" "obj_size (caches K' d) = obj_size (caches K d)"
    "objs_per_slab (caches K' d) = objs_per_slab (caches K d)" "size_base K' = size_base K"
proof -
  have k: "pmm_abs (km K) (s # ps)" "\<And>d. d \<in> C \<Longrightarrow> cache_ok (pmem (km K)) d (caches K d) (a d)"
    "\<And>d. d \<in> C \<Longrightarrow> fst ` set (a d) \<inter> set (s # ps) = {}" "\<And>d e. d \<in> C \<Longrightarrow> e \<in> C \<Longrightarrow> d \<noteq> e \<Longrightarrow> fst ` set (a d) \<inter> fst ` set (a e) = {}"
    using assms(1) by (simp_all add: kmem_abs_def)
  obtain pm where pm: "pmm_alloc (km K) = (s, pm)" "pmm_abs pm ps" "pmem pm = zero_page (pmem (km K)) s"
    by (rule pmm_alloc_Cons [OF k(1)])
  have s: "s \<noteq> 0" "page_aligned s" using pmm_abs_pages [OF k(1), of s] by simp_all
  have sps: "s \<notin> set ps" using pages.abs_pages [OF k(1)] by simp
  let ?r = "caches K c"
  define m1 where "m1 = (pmem pm)(s := hdr_word SLAB_MAGIC (ucast (objs_per_slab ?r)), s + 16 := c, s + 8 := cache_slabs ?r, s + 24 := 0)"
  define mm where "mm = grow_loop s (obj_size ?r) (unat (objs_per_slab ?r)) m1"
  let ?r' = "?r\<lparr>cache_slabs := s, total_objs := total_objs ?r + objs_per_slab ?r, free_objs := free_objs ?r + objs_per_slab ?r\<rparr>"
  have K': "t = s" "K' = K\<lparr>km := pm\<lparr>pmem := mm\<rparr>, caches := (caches K)(c := ?r')\<rparr>"
    using assms(3) pm(1) s by (auto simp: grow_cache_def Let_def m1_def mm_def)
  show "t = s" by (fact K'(1))
  show "obj_size (caches K' d) = obj_size (caches K d)" "objs_per_slab (caches K' d) = objs_per_slab (caches K d)" "size_base K' = size_base K"
    by (simp_all add: K'(2))
  have g: "geometry ?r" using k(2) [OF assms(2)] by (simp add: cache_ok_def)
  have "slist (\<lambda>a. nullptr (m1 a)) (nullptr (slab_freelist m1 s)) (drop (unat (objs_per_slab ?r)) (slab_objs ?r s))"
    by (simp add: slab_objs_def m1_def slab_freelist_def)
  note G = grow_loop_ok [OF g s(2,1) order_refl this, folded mm_def]
  note L = G [THEN conjunct1]
  have F: "mm x = m1 x" if "x \<in> {s, s + 8, s + 16} \<or> \<not> in_page s x" for x using G that by blast
  have fr: "mm x = pmem (km K) x" if "\<not> in_page s x" for x
    using F [of x] that header_in_page [OF s(2)] zero_page_frame [OF s(2) that] pm(3) by (auto simp: m1_def)
  have n: "unat (objs_per_slab ?r) \<le> 508"
  proof -
    have "unat (objs_per_slab ?r) * 8 \<le> unat (objs_per_slab ?r) * unat (obj_size ?r)" using g by (intro mult_le_mono2) (simp add: geometry_def)
    then show ?thesis using g by (simp only: geometry_def) linarith
  qed
  then have "ucast (objs_per_slab ?r) = (of_nat (length (slab_objs ?r s)) :: u32)"
    by (simp add: slab_objs_def word_unat_eq_iff unat_of_nat unsigned_ucast_eq take_bit_eq_mod)
  then have ok: "slab_ok mm c ?r (s, slab_objs ?r s)"
    using L s F [of s] F [of "s + 16"] by (simp add: slab_ok_def slab_magic_def slab_cache_def slab_free_count_def m1_def)
  have nx: "slab_next mm s = cache_slabs ?r" using F [of "s + 8"] by (simp add: slab_next_def m1_def)
  have rest: "cache_ok mm d (caches K d) (a d)" if "d \<in> C" for d
    using k(3) [OF that] by (intro cache_ok_frame [OF k(2) [OF that] s(2)] fr) auto
  have "cache_ok mm c ?r' ((s, slab_objs ?r s) # a c)"
    using rest [OF assms(2)] ok nx g s
    by (simp add: cache_ok_def geometry_def slab_ok_def slab_objs_def algebra_simps)
  moreover have "pmm_abs (pm\<lparr>pmem := mm\<rparr>) ps"
    using F header_in_page [OF s(2)] by (intro pmm_abs_apart [OF pm(2) s(2) sps]) (auto simp: m1_def)
  ultimately show "kmem_abs K' C ps (a(c := (s, slab_objs ?r s) # a c))"
    using rest k(3,4) assms(2) sps unfolding K'(2) kmem_abs_def by (auto simp: fun_upd_apply split: if_splits)
qed

lemma slab_objs_cong: "obj_size r = obj_size r' \<Longrightarrow> objs_per_slab r = objs_per_slab r' \<Longrightarrow> slab_objs r s = slab_objs r' s"
  by (simp add: slab_objs_def)

lemma used_cong: "obj_size r = obj_size r' \<Longrightarrow> objs_per_slab r = objs_per_slab r' \<Longrightarrow> used r sl = used r' sl"
  by (simp add: used_def slab_objs_def)

lemma used_simps [simp]: "used r [] = {}" "used r (x # sl) = (set (slab_objs r (fst x)) - set (snd x)) \<union> used r sl"
  "used r (xs @ ys) = used r xs \<union> used r ys"
  by (auto simp: used_def)

lemma usedE:
  assumes "p \<in> used r sl"
  obtains s fl where "(s, fl) \<in> set sl" "p \<in> set (slab_objs r s)" "p \<notin> set fl"
  using assms by (auto simp: used_def)

lemma in_use_iff: "(c, p) \<in> in_use K C a \<longleftrightarrow> c \<in> C \<and> p \<in> used (caches K c) (a c)"
  by (simp add: in_use_def)

lemma in_use_cong:
  assumes "\<And>c. c \<in> C \<Longrightarrow> obj_size (caches K' c) = obj_size (caches K c) \<and> objs_per_slab (caches K' c) = objs_per_slab (caches K c)"
  shows "in_use K' C a = in_use K C a"
proof -
  have "used (caches K' c) (a c) = used (caches K c) (a c)" if "c \<in> C" for c using assms [OF that] by (intro used_cong) simp_all
  then show ?thesis by (auto simp: in_use_def)
qed

lemma in_use_upd:
  assumes "c \<in> C" shows "in_use K C (a(c := sl)) = {(d, q) \<in> in_use K C a. d \<noteq> c} \<union> Pair c ` used (caches K c) sl"
  using assms by (auto simp: in_use_def split: if_splits)

lemma kmem_slab:
  assumes "kmem_abs K C ps a" "c \<in> C" "(s, fl) \<in> set (a c)"
  shows "slab_ok (pmem (km K)) c (caches K c) (s, fl)" "geometry (caches K c)" "page_aligned s" "distinct (map fst (a c))"
proof -
  have k: "cache_ok (pmem (km K)) c (caches K c) (a c)" using assms(1,2) by (simp add: kmem_abs_def)
  then show ok: "slab_ok (pmem (km K)) c (caches K c) (s, fl)" using assms(3) unfolding cache_ok_def by blast
  show "geometry (caches K c)" using k by (simp add: cache_ok_def)
  show "page_aligned s" using ok by (simp add: slab_ok_def)
  show "distinct (map fst (a c))" using k unfolding cache_ok_def by (blast dest: slist_distinct)
qed

lemma kmem_obj_page:
  assumes "kmem_abs K C ps a" "c \<in> C" "(s, fl) \<in> set (a c)" "p \<in> set (slab_objs (caches K c) s)"
  shows "slab_of p = s"
  using obj_in_page(2) [OF kmem_slab(2,3) [OF assms(1-3)] assms(4), of 0] geometry_pos(1) [OF kmem_slab(2) [OF assms(1-3)]] by simp

lemma in_use_pop:
  assumes "c \<in> C" "a c = xs @ (s, p # fl) # ys" "p \<in> set (slab_objs (caches K c) s) - set fl"
  shows "in_use K C (a(c := xs @ (s, fl) # ys)) = insert (c, p) (in_use K C a)"
  using assms unfolding in_use_upd [OF assms(1)] by (auto simp: in_use_iff)

lemma in_use_fresh:
  assumes "kmem_abs K C ps a" "c \<in> C" "a c = xs @ (s, p # fl) # ys"
  shows "(c, p) \<notin> in_use K C a"
proof
  assume "(c, p) \<in> in_use K C a"
  then obtain t gl where t: "(t, gl) \<in> set (a c)" "p \<in> set (slab_objs (caches K c) t)" "p \<notin> set gl"
    by (auto simp: in_use_iff elim: usedE)
  have s: "(s, p # fl) \<in> set (a c)" using assms(3) by simp
  have "p \<in> set (slab_objs (caches K c) s)" using alloc_from(3) [OF assms] by simp
  then have "t = s" using kmem_obj_page [OF assms(1,2) t(1,2)] kmem_obj_page [OF assms(1,2) s] by simp
  then have "gl = p # fl" using t(1) s kmem_slab(4) [OF assms(1,2) s] eq_key_imp_eq_value by metis
  with t(3) show False by simp
qed

lemma kmem_cache_alloc_ok:
  assumes "kmem_abs K C ps a" "c \<in> C"
  obtains (none) "kmem_cache_alloc c K = Some (0, K)" "ps = []" "exhausted ps (a c)"
  | (some) p K' ps' a' where "kmem_cache_alloc c K = Some (p, K')" "p \<noteq> 0" "kmem_abs K' C ps' a'" "in_use K' C a' = insert (c, p) (in_use K C a)"
      "(c, p) \<notin> in_use K C a" "\<And>d. obj_size (caches K' d) = obj_size (caches K d)" "\<And>d. objs_per_slab (caches K' d) = objs_per_slab (caches K d)"
      "set ps' \<subseteq> set ps" "\<not> exhausted ps (a c)"
proof -
  have take: "\<exists>p K' a'. kmem_cache_alloc c K = Some (p, K') \<and> p \<noteq> 0 \<and> kmem_abs K' C qs a' \<and> in_use K' C a' = insert (c, p) (in_use K1 C b)
      \<and> (c, p) \<notin> in_use K1 C b \<and> (\<forall>d. obj_size (caches K' d) = obj_size (caches K1 d) \<and> objs_per_slab (caches K' d) = objs_per_slab (caches K1 d))"
    if b: "kmem_abs K1 C qs b" "b c = xs @ (s, p # fl) # ys" "s \<noteq> 0"
      and f: "find_slab (pmem (km K)) (cache_slabs (caches K c)) = Some s0" "(if s0 = 0 then grow_cache c K else (s0, K)) = (s, K1)"
    for K1 qs b xs s p fl ys s0
  proof -
    let ?K = "K1\<lparr>km := (km K1)\<lparr>pmem := slab_pop s (pmem (km K1))\<rparr>, caches := (caches K1)(c := (caches K1 c)\<lparr>free_objs := free_objs (caches K1 c) - 1\<rparr>)\<rparr>"
    note A = alloc_from [OF b(1) assms(2) b(2)]
    have "kmem_cache_alloc c K = Some (p, ?K)" using f A(1,2) b(3) by (simp add: kmem_cache_alloc_def slab_pop_def Let_def)
    moreover have "in_use ?K C (b(c := xs @ (s, fl) # ys)) = in_use K1 C (b(c := xs @ (s, fl) # ys))" by (rule in_use_cong) simp
    then have "in_use ?K C (b(c := xs @ (s, fl) # ys)) = insert (c, p) (in_use K1 C b)"
      using in_use_pop [of c C b xs s p fl ys K1] assms(2) b(2) A(3) by simp
    ultimately show ?thesis using A(2,4) in_use_fresh [OF b(1) assms(2) b(2)]
      by (intro exI [of _ p] exI [of _ ?K] exI [of _ "b(c := xs @ (s, fl) # ys)"]) simp
  qed
  show thesis
  proof (cases "filter (\<lambda>x. snd x \<noteq> []) (a c)")
    case (Cons x r)
    then obtain xs ys where "a c = xs @ x # ys" "snd x \<noteq> []" unfolding filter_eq_Cons_iff by blast
    then obtain s p fl where x: "x = (s, p # fl)" and ac: "a c = xs @ (s, p # fl) # ys" by (cases x, cases "snd x") auto
    then have s: "s \<noteq> 0" using kmem_slab(1) [OF assms, of s "p # fl"] by (simp add: slab_ok_def)
    have f: "find_slab (pmem (km K)) (cache_slabs (caches K c)) = Some s" using find_slab_abs [OF assms] Cons x by simp
    have e: "(if s = 0 then grow_cache c K else (s, K)) = (s, K)" using s by simp
    from take [OF assms(1) ac s f e] obtain q K' a' where "kmem_cache_alloc c K = Some (q, K')" "q \<noteq> 0" "kmem_abs K' C ps a'"
      "in_use K' C a' = insert (c, q) (in_use K C a)" "(c, q) \<notin> in_use K C a"
      "\<And>d. obj_size (caches K' d) = obj_size (caches K d)" "\<And>d. objs_per_slab (caches K' d) = objs_per_slab (caches K d)" by blast
    then show thesis by (rule some) (use ac in \<open>simp_all add: exhausted_def\<close>)
  next
    case Nil
    then have e: "\<forall>x \<in> set (a c). snd x = []" by (auto simp: filter_empty_conv)
    have f: "find_slab (pmem (km K)) (cache_slabs (caches K c)) = Some 0" using find_slab_abs [OF assms] Nil by simp
    show thesis
    proof (cases ps)
      case Nil
      have "pmm_alloc (km K) = (0, km K)" using assms(1) Nil by (intro pmm_alloc_Nil) (simp add: kmem_abs_def)
      then have "grow_cache c K = (0, K)" by (simp add: grow_cache_def)
      then have "kmem_cache_alloc c K = Some (0, K)" using f by (simp add: kmem_cache_alloc_def)
      then show thesis by (rule none) (use Nil e in \<open>simp_all add: exhausted_def\<close>)
    next
      case (Cons s qs)
      obtain t K1 where g: "grow_cache c K = (t, K1)" by fastforce
      note G = grow_cache_ok [OF assms(1) [unfolded Cons] assms(2) g]
      have k: "geometry (caches K c)" "s \<noteq> 0" using assms pmm_abs_pages [of "km K" ps s] Cons by (simp_all add: kmem_abs_def cache_ok_def)
      then obtain n where "unat (objs_per_slab (caches K c)) = Suc n" by (auto simp: geometry_def gr0_conv_Suc)
      then have "slab_objs (caches K c) s \<noteq> []" by (simp add: slab_objs_def)
      then obtain p fl where o: "slab_objs (caches K c) s = p # fl" by (cases "slab_objs (caches K c) s") auto
      let ?b = "a(c := (s, p # fl) # a c)"
      have b: "kmem_abs K1 C qs ?b" "?b c = [] @ (s, p # fl) # a c" using G(2) o by simp_all
      have u: "in_use K1 C ?b = in_use K C a"
      proof -
        have "in_use K1 C ?b = in_use K C ?b" using G(3,4) by (intro in_use_cong) simp
        also have "\<dots> = in_use K C a" using assms(2) o unfolding in_use_upd [OF assms(2)] by (auto simp: in_use_iff)
        finally show ?thesis .
      qed
      have e: "(if (0 :: u64) = 0 then grow_cache c K else (0, K)) = (s, K1)" using g G(1) by simp
      from take [OF b k(2) f e, unfolded u] obtain q K' a' where q: "kmem_cache_alloc c K = Some (q, K')" "q \<noteq> 0" "kmem_abs K' C qs a'"
        "in_use K' C a' = insert (c, q) (in_use K C a)" "(c, q) \<notin> in_use K C a"
        "\<And>d. obj_size (caches K' d) = obj_size (caches K1 d)" "\<And>d. objs_per_slab (caches K' d) = objs_per_slab (caches K1 d)" by blast
      show thesis by (rule some [OF q(1-5)]) (auto simp: q(6,7) G(3,4) Cons exhausted_def)
    qed
  qed
qed

lemma in_useE:
  assumes "kmem_abs K C ps a" "(c, p) \<in> in_use K C a"
  obtains xs s fl ys where "c \<in> C" "a c = xs @ (s, fl) # ys" "p \<in> set (slab_objs (caches K c) s)" "p \<notin> set fl"
    "slab_ok (pmem (km K)) c (caches K c) (s, fl)" "geometry (caches K c)" "page_aligned s" "slab_of p = s"
proof -
  from assms(2) obtain s fl where s: "c \<in> C" "(s, fl) \<in> set (a c)" "p \<in> set (slab_objs (caches K c) s)" "p \<notin> set fl"
    by (auto simp: in_use_iff elim: usedE)
  from split_list [OF s(2)] obtain xs ys where "a c = xs @ (s, fl) # ys" by blast
  then show thesis using s kmem_slab(1-3) [OF assms(1) s(1,2)] kmem_obj_page [OF assms(1) s(1-3)] by (intro that)
qed

lemma used_push:
  assumes "kmem_abs K C ps a" "c \<in> C" "a c = xs @ (s, fl) # ys" "p \<in> set (slab_objs (caches K c) s)"
  shows "used (caches K c) (xs @ (s, p # fl) # ys) = used (caches K c) (a c) - {p}"
proof -
  have "p \<notin> used (caches K c) zs" if z: "set zs \<subseteq> set (a c)" "s \<notin> fst ` set zs" for zs
  proof
    assume "p \<in> used (caches K c) zs"
    then obtain t gl where t: "(t, gl) \<in> set zs" "p \<in> set (slab_objs (caches K c) t)" by (rule usedE)
    have "t = s" using kmem_obj_page [OF assms(1,2), of t gl p] kmem_obj_page [OF assms(1,2), of s fl p] t z(1) assms(3,4) by auto
    with t(1) z(2) show False by force
  qed
  moreover have "s \<notin> fst ` set xs" "s \<notin> fst ` set ys" using kmem_slab(4) [OF assms(1,2), of s fl] assms(3) by auto
  ultimately have "p \<notin> used (caches K c) xs" "p \<notin> used (caches K c) ys" using assms(3) by auto
  then show ?thesis unfolding assms(3) by auto
qed

lemma kmem_free_ok:
  assumes "kmem_abs K C ps a" "(c, p) \<in> in_use K C a"
  shows "kmem_cache_free c p K = kfree p K" "\<exists>a'. kmem_abs (kfree p K) C ps a' \<and> in_use (kfree p K) C a' = in_use K C a - {(c, p)}"
    "obj_size (caches (kfree p K) d) = obj_size (caches K d)" "objs_per_slab (caches (kfree p K) d) = objs_per_slab (caches K d)"
proof -
  obtain xs s fl ys where s: "c \<in> C" "a c = xs @ (s, fl) # ys" "p \<in> set (slab_objs (caches K c) s)" "p \<notin> set fl"
    "slab_ok (pmem (km K)) c (caches K c) (s, fl)" "geometry (caches K c)" "page_aligned s" "slab_of p = s"
    by (rule in_useE [OF assms])
  let ?m = "slab_push s p (pmem (km K))"
  let ?K = "K\<lparr>km := (km K)\<lparr>pmem := ?m\<rparr>, caches := (caches K)(c := (caches K c)\<lparr>free_objs := free_objs (caches K c) + 1\<rparr>)\<rparr>"
  note P = slab_push_ok [OF s(5,6,3,4)]
  have "slab_cache ?m s = c" using P(1) by (simp add: slab_ok_def)
  then have "slab_free s p K = ?K" by (simp add: slab_free_def slab_push_def Let_def)
  moreover have "p \<noteq> 0" "slab_magic (pmem (km K)) s = SLAB_MAGIC" "slab_cache (pmem (km K)) s = c"
    using s(5) obj_nonzero [OF s(6,7) _ s(3)] by (simp_all add: slab_ok_def)
  ultimately have K: "kfree p K = ?K" "kmem_cache_free c p K = ?K" using s(8) by (simp_all add: kfree_def kmem_cache_free_def)
  then show "kmem_cache_free c p K = kfree p K" by simp
  show "obj_size (caches (kfree p K) d) = obj_size (caches K d)" "objs_per_slab (caches (kfree p K) d) = objs_per_slab (caches K d)"
    by (simp_all add: K(1))
  have "kmem_abs ?K C ps (a(c := xs @ (s, p # fl) # ys))"
    by (rule kmem_abs_replace [OF assms(1) s(1,2) P(1,2,3)]) simp_all
  moreover have "in_use ?K C (a(c := xs @ (s, p # fl) # ys)) = in_use K C (a(c := xs @ (s, p # fl) # ys))" by (rule in_use_cong) simp
  then have "in_use ?K C (a(c := xs @ (s, p # fl) # ys)) = in_use K C a - {(c, p)}"
    using s(1) unfolding in_use_upd [OF s(1)] used_push [OF assms(1) s(1-3)] by (auto simp: in_use_iff)
  ultimately show "\<exists>a'. kmem_abs (kfree p K) C ps a' \<and> in_use (kfree p K) C a' = in_use K C a - {(c, p)}" unfolding K(1) by blast
qed

lemma kmem_store_ok:
  assumes "kmem_abs K C ps a" "(c, p) \<in> in_use K C a" "k < unat (obj_size (caches K c))"
  shows "kmem_abs (kmem_store (p + of_nat k) v K) C ps a"
proof -
  obtain xs s fl ys where s: "c \<in> C" "a c = xs @ (s, fl) # ys" "p \<in> set (slab_objs (caches K c) s)" "p \<notin> set fl"
    "slab_ok (pmem (km K)) c (caches K c) (s, fl)" "geometry (caches K c)" "page_aligned s" "slab_of p = s"
    by (rule in_useE [OF assms(1,2)])
  let ?m = "(pmem (km K))(p + of_nat k := v)"
  have "kmem_abs (K\<lparr>km := (km K)\<lparr>pmem := ?m\<rparr>, caches := (caches K)(c := (caches K c)\<lparr>free_objs := free_objs (caches K c)\<rparr>)\<rparr>) C ps (a(c := xs @ (s, fl) # ys))"
  proof (rule kmem_abs_replace [OF assms(1) s(1,2) slab_store_ok [OF s(5,6,3,4) assms(3)]])
    show "\<not> in_page s x \<Longrightarrow> ?m x = pmem (km K) x" for x using obj_in_page(1) [OF s(6,7,3) assms(3)] by auto
  qed simp
  moreover have "a(c := xs @ (s, fl) # ys) = a" using s(2) by auto
  ultimately show ?thesis by (simp add: kmem_store_def pmm_store_def)
qed

lemma kmem_run_abs:
  assumes "kmem_run C K0 K L" "kmem_abs K0 C ps0 a0" "in_use K0 C a0 = {}"
  shows "(\<exists>ps a. kmem_abs K C ps a \<and> in_use K C a = L) \<and> (\<forall>c. obj_size (caches K c) = obj_size (caches K0 c) \<and> objs_per_slab (caches K c) = objs_per_slab (caches K0 c))"
  using assms
proof (induction rule: kmem_run.induct)
  case start
  then show ?case by blast
next
  case (alloc K L c p K')
  then obtain ps a where k: "kmem_abs K C ps a" "in_use K C a = L" by blast
  from k(1) alloc.hyps(2) show ?case
  proof (cases rule: kmem_cache_alloc_ok)
    case none
    with alloc k show ?thesis by auto
  next
    case (some q K'' ps' a')
    with alloc k show ?thesis by (intro conjI exI [of _ ps'] exI [of _ a']) auto
  qed
next
  case (free K L c p)
  then obtain ps a where k: "kmem_abs K C ps a" "in_use K C a = L" by blast
  then have i: "(c, p) \<in> in_use K C a" using free.hyps(2) by simp
  obtain a' where "kmem_abs (kfree p K) C ps a'" "in_use (kfree p K) C a' = L - {(c, p)}" using kmem_free_ok(2) [OF k(1) i] k(2) by blast
  then show ?case using kmem_free_ok(1,3,4) [OF k(1) i] free.IH [OF free.prems] by auto
next
  case (cache_free K L c p)
  then obtain ps a where k: "kmem_abs K C ps a" "in_use K C a = L" by blast
  then have i: "(c, p) \<in> in_use K C a" using cache_free.hyps(2) by simp
  obtain a' where "kmem_abs (kfree p K) C ps a'" "in_use (kfree p K) C a' = L - {(c, p)}" using kmem_free_ok(2) [OF k(1) i] k(2) by blast
  then show ?case using kmem_free_ok(1,3,4) [OF k(1) i] cache_free.IH [OF cache_free.prems] by auto
next
  case (store K L c p k v)
  then obtain ps a where k: "kmem_abs K C ps a" "in_use K C a = L" by blast
  have "kmem_abs (kmem_store (p + of_nat k) v K) C ps a" using kmem_store_ok [OF k(1)] k(2) store.hyps by blast
  moreover have "in_use (kmem_store (p + of_nat k) v K) C a = L" using k(2) in_use_cong [of C "kmem_store (p + of_nat k) v K" K a]
    by (simp add: kmem_store_def)
  ultimately show ?case using store by (auto simp: kmem_store_def)
qed

lemma kmem_cache_init_simps [simp]:
  "km (kmem_cache_init c nm sz K) = km K" "size_base (kmem_cache_init c nm sz K) = size_base K"
  "caches (kmem_cache_init c nm sz K) = (caches K)(c := \<lparr>cache_name = nm, obj_size = round_obj_size sz,
     objs_per_slab = objs_per_slab_for (round_obj_size sz), cache_slabs = 0, total_objs = 0, free_objs = 0\<rparr>)"
  by (simp_all add: kmem_cache_init_def kmem_register_def Let_def)

lemma cache_ok_init:
  assumes "cache_slabs r = 0" "total_objs r = 0" "free_objs r = 0" "geometry r" shows "cache_ok m c r []"
  using assms by (simp add: cache_ok_def)

lemma kmem_abs_fresh:
  assumes "pmm_abs (km K) ps" "\<And>c. c \<in> C \<Longrightarrow> cache_ok (pmem (km K)) c (caches K c) []"
  shows "kmem_abs K C ps (\<lambda>_. [])" "in_use K C (\<lambda>_. []) = {}"
  using assms by (auto simp: kmem_abs_def in_use_def)

lemma size_cache_eq:
  assumes "i < 8" "j < 8" shows "size_cache b i = size_cache b j \<longleftrightarrow> i = j"
proof -
  have "unat (64 * of_nat k :: u64) = 64 * k" if "k < 8" for k using that by (simp add: unat_word_ariths unat_of_nat)
  from this [OF assms(1)] this [OF assms(2)] have "(64 * of_nat i :: u64) = 64 * of_nat j \<longleftrightarrow> i = j" by (auto simp: word_unat_eq_iff)
  then show ?thesis by (simp add: size_cache_def)
qed

lemma below_8: "i < 8 \<longleftrightarrow> i \<in> {0, 1, 2, 3, 4, 5, 6, 7 :: nat}"
  by auto

lemma size_class_rounds:
  assumes "i < 8"
  shows "round_obj_size (snd (size_caches ! i)) = snd (size_caches ! i)"
    "unat (objs_per_slab_for (snd (size_caches ! i))) = 4064 div unat (snd (size_caches ! i))"
    "8 \<le> unat (snd (size_caches ! i)) \<and> unat (snd (size_caches ! i)) mod 8 = 0 \<and> unat (snd (size_caches ! i)) \<le> 4064"
  using assms unfolding below_8 by (auto simp: size_caches_def round_obj_size_def objs_per_slab_for_def consts_def)

lemma fold_init:
  fixes b defines "f \<equiv> \<lambda>i. kmem_cache_init (size_cache b i) (fst (size_caches ! i)) (snd (size_caches ! i))"
  assumes "set ns \<subseteq> {..<8}" "i < 8"
  shows "caches (fold f ns K) (size_cache b i) = (if i \<in> set ns then boot_cache i else caches K (size_cache b i))
    \<and> km (fold f ns K) = km K \<and> size_base (fold f ns K) = size_base K"
  using assms(2)
proof (induction ns arbitrary: K)
  case (Cons n ns)
  then have "n < 8" by simp
  with Cons assms(3) show ?case by (auto simp: f_def size_cache_eq size_class_rounds boot_cache_def)
qed simp

lemma kmem_init_simps:
  "i < 8 \<Longrightarrow> caches (kmem_init K) (size_cache (size_base K) i) = boot_cache i"
  "km (kmem_init K) = km K" "size_base (kmem_init K) = size_base K"
proof -
  have n: "length size_caches = 8" by (simp add: size_caches_def)
  have l: "set [0..<length size_caches] \<subseteq> {..<8}" unfolding n by auto
  have m: "i \<in> set [0..<length size_caches]" if "i < 8" for i using that unfolding n atLeastLessThan_upt [symmetric] by simp
  show "caches (kmem_init K) (size_cache (size_base K) i) = boot_cache i" if "i < 8"
    using fold_init [OF l that, of "size_base K" K, THEN conjunct1] unfolding if_P [OF m [OF that]] kmem_init_def .
  show "km (kmem_init K) = km K" "size_base (kmem_init K) = size_base K"
    using fold_init [OF l zero_less_numeral, of "size_base K" K] unfolding kmem_init_def by blast+
qed

lemma boot_geometry: "i < 8 \<Longrightarrow> geometry (boot_cache i)"
  using size_class_rounds [of i] by (auto simp: geometry_def boot_cache_def div_greater_zero_iff)

lemma kmem_init_ok:
  assumes "pmm_abs (km K) ps"
  shows "kmem_abs (kmem_init K) (size_cache (size_base K) ` {..<8}) ps (\<lambda>_. [])" "in_use (kmem_init K) (size_cache (size_base K) ` {..<8}) (\<lambda>_. []) = {}"
proof -
  have "cache_ok (pmem (km (kmem_init K))) c (caches (kmem_init K) c) []" if "c \<in> size_cache (size_base K) ` {..<8}" for c
  proof -
    from that obtain i where i: "i < 8" "c = size_cache (size_base K) i" by auto
    show ?thesis unfolding i(2) kmem_init_simps(1) [OF i(1)] using boot_geometry [OF i(1)] by (intro cache_ok_init) (simp_all add: boot_cache_def)
  qed
  from kmem_abs_fresh [OF _ this] assms
  show "kmem_abs (kmem_init K) (size_cache (size_base K) ` {..<8}) ps (\<lambda>_. [])" "in_use (kmem_init K) (size_cache (size_base K) ` {..<8}) (\<lambda>_. []) = {}"
    by (simp_all add: kmem_init_simps)
qed

lemma size_class_spec:
  "size_class n sc k = Some i \<Longrightarrow> k \<le> i \<and> i < k + length sc \<and> n \<le> snd (sc ! (i - k)) \<and> (\<forall>j < i - k. snd (sc ! j) < n)"
  "size_class n sc k = None \<Longrightarrow> \<forall>x \<in> set sc. snd x < n"
proof (induction sc arbitrary: k)
  case (Cons x sc)
  {
    case 1
    obtain nm sz where x: "x = (nm, sz)" by (cases x)
    show ?case
    proof (cases "n \<le> sz")
      case True
      with 1 x show ?thesis by auto
    next
      case False
      with 1 x have H: "Suc k \<le> i" "i < Suc k + length sc" "n \<le> snd (sc ! (i - Suc k))" "\<forall>j < i - Suc k. snd (sc ! j) < n"
        using Cons.IH(1) [of "Suc k"] by auto
      then have "i - k = Suc (i - Suc k)" by linarith
      with H False x show ?thesis by (auto simp: nth_Cons split: nat.splits)
    qed
  next
    case 2
    with Cons.IH(2) [of "Suc k"] show ?case by (cases x) (auto split: if_splits)
  }
qed simp_all

lemma best_class_unique: "best_class n i \<Longrightarrow> best_class n j \<Longrightarrow> i = j"
  unfolding best_class_def by (metis linorder_neqE_nat not_less)

lemma best_class_small:
  assumes "best_class n i"
  shows "\<not> 2048 < n"
proof -
  have "i \<in> {0, 1, 2, 3, 4, 5, 6, 7}" using assms by (auto simp: best_class_def)
  then have "snd (size_caches ! i) \<le> 2048" by (auto simp: size_caches_def)
  then show ?thesis using assms by (auto simp: best_class_def)
qed

subsection \<open>Properties\<close>

text \<open>
  C7. Over any sequence of allocations, releases of objects in use and stores into objects in use, no byte
  belongs to two objects in use. An allocation always returns (it neither loops nor goes through NULL); the
  object it gives is not in use, and it gives NULL, changing nothing, only when no page is free.
\<close>
theorem kmem_objects_apart:
  assumes "kmem_run C K0 K L" "kmem_abs K0 C ps0 a0" "in_use K0 C a0 = {}"
  shows "(\<forall>c p d q k l. (c, p) \<in> L \<and> (d, q) \<in> L \<and> k < unat (obj_size (caches K c)) \<and> l < unat (obj_size (caches K d))
      \<and> p + of_nat k = q + of_nat l \<longrightarrow> c = d \<and> p = q \<and> k = l)
    \<and> (\<forall>c \<in> C. \<exists>p K'. kmem_cache_alloc c K = Some (p, K') \<and> (if p = 0 then K' = K \<and> pmm_abs (km K) [] else (c, p) \<notin> L))"
proof -
  obtain ps a where k: "kmem_abs K C ps a" "in_use K C a = L" using kmem_run_abs [OF assms] by blast
  have "c = d \<and> p = q \<and> k = l" if L: "(c, p) \<in> L" "(d, q) \<in> L"
    and o: "k < unat (obj_size (caches K c))" "l < unat (obj_size (caches K d))" "p + of_nat k = q + of_nat l" for c p d q k l
  proof -
    obtain xs s fl ys where s: "c \<in> C" "a c = xs @ (s, fl) # ys" "p \<in> set (slab_objs (caches K c) s)" "geometry (caches K c)" "page_aligned s"
      using L(1) k(2) by (auto intro: in_useE [OF k(1), of c p])
    obtain us t gl vs where t: "d \<in> C" "a d = us @ (t, gl) # vs" "q \<in> set (slab_objs (caches K d) t)" "geometry (caches K d)" "page_aligned t"
      using L(2) k(2) by (auto intro: in_useE [OF k(1), of d q])
    have cd: "c = d" if "s = t"
    proof (rule ccontr)
      assume "c \<noteq> d"
      then have "fst ` set (a c) \<inter> fst ` set (a d) = {}" using k(1) s(1) t(1) by (simp add: kmem_abs_def)
      then show False using s(2) t(2) that by auto
    qed
    have "p = q \<and> k = l \<and> s = t" using cd by (intro objs_disjoint [OF s(4,5) t(4,5) _ s(3) t(3) o]) simp
    then show ?thesis using cd by blast
  qed
  moreover have "\<exists>p K'. kmem_cache_alloc c K = Some (p, K') \<and> (if p = 0 then K' = K \<and> pmm_abs (km K) [] else (c, p) \<notin> L)" if "c \<in> C" for c
    using k(1) that
  proof (cases rule: kmem_cache_alloc_ok)
    case none
    with k(1) show ?thesis by (simp add: kmem_abs_def)
  next
    case (some p K' ps' a')
    with k(2) show ?thesis by simp
  qed
  ultimately show ?thesis by blast
qed

theorem kmem_objects_apart_witness:
  "\<exists>K p. p \<noteq> 0 \<and> kmem_run (size_cache 0x40000 ` {..<8}) (kmem_init sample_kmem) K {(size_cache 0x40000 3, p)}
    \<and> (\<forall>K'. kmem_cache_alloc (size_cache 0x40000 3) K \<noteq> Some (p, K'))"
proof -
  let ?C = "size_cache 0x40000 ` {..<8}" let ?c = "size_cache 0x40000 3"
  have ps: "pmm_abs (km sample_kmem) [0x1000]" by (simp add: sample_kmem_def abs_1000)
  have I: "kmem_abs (kmem_init sample_kmem) ?C [0x1000] (\<lambda>_. [])" "in_use (kmem_init sample_kmem) ?C (\<lambda>_. []) = {}"
    using kmem_init_ok [OF ps] by (simp_all add: sample_kmem_def)
  have c: "?c \<in> ?C" by simp
  from I(1) c obtain p K where K: "kmem_cache_alloc ?c (kmem_init sample_kmem) = Some (p, K)" "p \<noteq> 0"
    by (cases rule: kmem_cache_alloc_ok) simp_all
  then have r: "kmem_run ?C (kmem_init sample_kmem) K {(?c, p)}" using kmem_run.alloc [OF kmem_run.start c K(1)] by simp
  from kmem_objects_apart [OF r I] c
  obtain q K' where "kmem_cache_alloc ?c K = Some (q, K')" "if q = 0 then K' = K \<and> pmm_abs (km K) [] else (?c, q) \<notin> {(?c, p)}" by blast
  with r K(2) show ?thesis by (intro exI [of _ K] exI [of _ p]) (auto split: if_splits)
qed

text \<open>
  C38. \<open>kmalloc\<close> always returns. It gives NULL, changing nothing, exactly for the sizes 0 and above 2048 and when
  the smallest size class that fits has no free object and no page is left; otherwise it gives an object of that class
  that was not in use, and all others stay as they are.
\<close>
theorem kmalloc_fits:
  assumes "kmem_abs K C ps a" "size_cache (size_base K) ` {..<8} \<subseteq> C"
  shows "\<exists>p K'. kmalloc n K = Some (p, K')
    \<and> (p = 0 \<longleftrightarrow> n = 0 \<or> 2048 < n \<or> (\<exists>i. best_class n i \<and> exhausted ps (a (size_cache (size_base K) i))))
    \<and> (if p = 0 then K' = K
       else \<exists>i. best_class n i \<and> (size_cache (size_base K) i, p) \<notin> in_use K C a
         \<and> (\<exists>ps' a'. kmem_abs K' C ps' a' \<and> in_use K' C a' = insert (size_cache (size_base K) i, p) (in_use K C a)))"
proof (cases "n = 0")
  case True
  then show ?thesis by (simp add: kmalloc_def)
next
  case False
  show ?thesis
  proof (cases "size_class n size_caches 0")
    case None
    from size_class_spec(2) [OF None] have "2048 < n" by (simp add: size_caches_def)
    with False None show ?thesis by (simp add: kmalloc_def)
  next
    case (Some i)
    have i: "best_class n i" using size_class_spec(1) [OF Some] by (simp add: best_class_def size_caches_def)
    then have c: "size_cache (size_base K) i \<in> C" using assms(2) by (auto simp: best_class_def)
    have small: "\<not> 2048 < n" by (rule best_class_small [OF i])
    have e: "kmalloc n K = kmem_cache_alloc (size_cache (size_base K) i) K" using False Some by (simp add: kmalloc_def)
    from assms(1) c show ?thesis
    proof (cases rule: kmem_cache_alloc_ok)
      case none
      with e i show ?thesis by auto
    next
      case (some p K' ps' a')
      have "\<not> exhausted ps (a (size_cache (size_base K) j))" if "best_class n j" for j
        using some(9) best_class_unique [OF that i] by simp
      moreover have "\<exists>ps' a'. kmem_abs K' C ps' a' \<and> in_use K' C a' = insert (size_cache (size_base K) i, p) (in_use K C a)"
        using some(3,4) by blast
      ultimately show ?thesis using some(1,2,5) e i False small by (intro exI [of _ p] exI [of _ K']) auto
    qed
  qed
qed

text \<open>After the start, with one free page, a request is served.\<close>

theorem kmalloc_fits_witness:
  "\<exists>p K'. kmalloc 100 (kmem_init sample_kmem) = Some (p, K') \<and> p \<noteq> 0"
proof -
  have ps: "pmm_abs (km sample_kmem) [0x1000]" by (simp add: sample_kmem_def abs_1000)
  have b: "size_base (kmem_init sample_kmem) = size_base sample_kmem" by (rule kmem_init_simps(3))
  from kmalloc_fits [OF kmem_init_ok(1) [OF ps], of 100, unfolded b] show ?thesis by (auto simp: exhausted_def)
qed

end
