(* ===== verification/Buf.thy ===== *)
theory Buf
  imports Kappara_Prelude "HOL-Library.Monad_Syntax"
begin

text \<open>
  The block buffer cache \<open>uts/os/io/buf.c\<close>, the block-device switch
  \<open>uts/os/io/bdevsw.c\<close>, and the two in-memory drivers \<open>uts/os/fs/ramdisk.c\<close> and
  \<open>uts/os/io/bram.c\<close>. Buffer headers are the slots of a pool, linked by the C pointer
  fields (LRU list and hash chains). A result \<open>None\<close> of an operation means that the calling
  thread does not return from this attempt: it sleeps on the buffer's wait queue (or a chain
  walk does not end). The buffer's \<open>b_addr\<close> always aliases \<open>b_data\<close> in this code and
  \<open>b_iodone\<close> is never installed, so neither is a field of the model.
\<close>

section \<open>Definitions\<close>

subsection \<open>Device numbers\<close>

definition MAJOR :: "u32 \<Rightarrow> u32" where
  "MAJOR d = drop_bit 24 d"

definition MINOR :: "u32 \<Rightarrow> u32" where
  "MINOR d = d AND 0x00ffffff"

definition MKDEV :: "u32 \<Rightarrow> u32 \<Rightarrow> u32" where
  "MKDEV m n = push_bit 24 m OR (n AND 0x00ffffff)"

subsection \<open>Buffers\<close>

definition BUF_BLOCK_SIZE :: u32 where [consts_def]: "BUF_BLOCK_SIZE = 512"
definition BUF_POOL_SIZE :: nat where [consts_def]: "BUF_POOL_SIZE = 64"
definition BUF_HASH_BUCKETS :: u64 where [consts_def]: "BUF_HASH_BUCKETS = 16"
definition B_READ :: u32 where [consts_def]: "B_READ = 0x0001"
definition B_WRITE :: u32 where [consts_def]: "B_WRITE = 0x0002"
definition B_DONE :: u32 where [consts_def]: "B_DONE = 0x0004"
definition B_ERROR :: u32 where [consts_def]: "B_ERROR = 0x0008"
definition B_BUSY :: u32 where [consts_def]: "B_BUSY = 0x0010"
definition B_DELWRI :: u32 where [consts_def]: "B_DELWRI = 0x0020"
definition B_VALID :: u32 where [consts_def]: "B_VALID = 0x0040"

record buf =
  b_dev :: u32
  b_blkno :: u64
  b_bcount :: u32
  b_resid :: u32
  b_flags :: u32
  b_error :: int
  b_data :: bytes
  lru_prev :: "nat ptr"
  lru_next :: "nat ptr"
  hash_next :: "nat ptr"

text \<open>
  A driver's \<open>d_strategy(minor, bp)\<close> reads and writes the buffer it is given and the device
  state \<open>'d\<close>.
\<close>

record 'd bdev_entry =
  bdev_name :: string
  d_strategy :: "(u32 \<Rightarrow> buf \<Rightarrow> 'd \<Rightarrow> buf \<times> 'd) option"
  block_size :: u32

record 'd bcache =
  bufs :: "nat \<Rightarrow> buf"
  buf_hash :: "nat \<Rightarrow> nat ptr"
  lru_head :: "nat ptr"
  lru_tail :: "nat ptr"
  bdev_table :: "u32 \<Rightarrow> 'd bdev_entry option"
  devs :: 'd

text \<open>Writing through a \<open>struct buf *\<close>.\<close>

definition upd_buf :: "nat \<Rightarrow> (buf \<Rightarrow> buf) \<Rightarrow> 'd bcache \<Rightarrow> 'd bcache" where
  "upd_buf i f c = c\<lparr>bufs := (bufs c)(i := f (bufs c i))\<rparr>"

definition set_flags :: "u32 \<Rightarrow> buf \<Rightarrow> buf" where
  "set_flags m b = b\<lparr>b_flags := b_flags b OR m\<rparr>"

definition clr_flags :: "u32 \<Rightarrow> buf \<Rightarrow> buf" where
  "clr_flags m b = b\<lparr>b_flags := b_flags b AND NOT m\<rparr>"

subsection \<open>The block-device switch\<close>

definition BDEV_MAX :: u32 where [consts_def]: "BDEV_MAX = 16"

definition bdev_register :: "u32 \<Rightarrow> 'd bdev_entry option \<Rightarrow> (u32 \<Rightarrow> 'd bdev_entry option) \<Rightarrow>
    int \<times> (u32 \<Rightarrow> 'd bdev_entry option)" where
  "bdev_register major e tbl =
     (if major = 0 \<or> major \<ge> BDEV_MAX then (-1, tbl)
      else if e = None then (-1, tbl)
      else if tbl major \<noteq> None then (-1, tbl)
      else (0, tbl(major := e)))"

definition bdev_lookup :: "u32 \<Rightarrow> (u32 \<Rightarrow> 'd bdev_entry option) \<Rightarrow> 'd bdev_entry option" where
  "bdev_lookup major tbl = (if major = 0 \<or> major \<ge> BDEV_MAX then None else tbl major)"

text \<open>\<open>bdev_for_each\<close>: the callback sees every registered major in order until it stops.\<close>

fun bdev_each_from :: "(u32 \<Rightarrow> 'd bdev_entry \<Rightarrow> 'a \<Rightarrow> int \<times> 'a) \<Rightarrow> u32 list \<Rightarrow>
    (u32 \<Rightarrow> 'd bdev_entry option) \<Rightarrow> 'a \<Rightarrow> int \<times> 'a" where
  "bdev_each_from cb [] tbl arg = (0, arg)"
| "bdev_each_from cb (mj # ms) tbl arg =
     (case tbl mj of
        None \<Rightarrow> bdev_each_from cb ms tbl arg
      | Some e \<Rightarrow> (case cb mj e arg of (r, arg') \<Rightarrow>
          if r \<noteq> 0 then (r, arg') else bdev_each_from cb ms tbl arg'))"

definition bdev_for_each :: "(u32 \<Rightarrow> 'd bdev_entry \<Rightarrow> 'a \<Rightarrow> int \<times> 'a) \<Rightarrow>
    (u32 \<Rightarrow> 'd bdev_entry option) \<Rightarrow> 'a \<Rightarrow> int \<times> 'a" where
  "bdev_for_each cb tbl arg = bdev_each_from cb (map of_nat [1..<unat BDEV_MAX]) tbl arg"

subsection \<open>LRU list and hash chains\<close>

definition buf_hash_idx :: "u32 \<Rightarrow> u64 \<Rightarrow> nat" where
  "buf_hash_idx dev blkno = unat (((ucast dev * 31) XOR blkno) AND (BUF_HASH_BUCKETS - 1))"

definition lru_unlink :: "nat \<Rightarrow> 'd bcache \<Rightarrow> 'd bcache" where
  "lru_unlink bp c =
     (let c1 = (case lru_prev (bufs c bp) of
                  Some p \<Rightarrow> upd_buf p (lru_next_update (\<lambda>_. lru_next (bufs c bp))) c
                | None \<Rightarrow> c\<lparr>lru_head := lru_next (bufs c bp)\<rparr>);
          c2 = (case lru_next (bufs c1 bp) of
                  Some n \<Rightarrow> upd_buf n (lru_prev_update (\<lambda>_. lru_prev (bufs c1 bp))) c1
                | None \<Rightarrow> c1\<lparr>lru_tail := lru_prev (bufs c1 bp)\<rparr>)
      in upd_buf bp (\<lambda>b. b\<lparr>lru_prev := None, lru_next := None\<rparr>) c2)"

definition lru_insert_tail :: "nat \<Rightarrow> 'd bcache \<Rightarrow> 'd bcache" where
  "lru_insert_tail bp c =
     (let c1 = upd_buf bp (\<lambda>b. b\<lparr>lru_prev := lru_tail c, lru_next := None\<rparr>) c;
          c2 = (case lru_tail c1 of
                  Some t \<Rightarrow> upd_buf t (lru_next_update (\<lambda>_. Some bp)) c1
                | None \<Rightarrow> c1\<lparr>lru_head := Some bp\<rparr>)
      in c2\<lparr>lru_tail := Some bp\<rparr>)"

definition hash_insert :: "nat \<Rightarrow> 'd bcache \<Rightarrow> 'd bcache" where
  "hash_insert bp c =
     (let h = buf_hash_idx (b_dev (bufs c bp)) (b_blkno (bufs c bp));
          c1 = upd_buf bp (hash_next_update (\<lambda>_. buf_hash c h)) c
      in c1\<lparr>buf_hash := (buf_hash c1)(h := Some bp)\<rparr>)"

text \<open>
  \<open>hash_remove\<close> walks a \<open>struct buf **link\<close>: a link is a bucket or the
  \<open>hash_next\<close> field of a buffer.
\<close>

datatype hlink = Bucket nat | NextOf nat

fun get_link :: "hlink \<Rightarrow> 'd bcache \<Rightarrow> nat ptr" where
  "get_link (Bucket h) c = buf_hash c h"
| "get_link (NextOf i) c = hash_next (bufs c i)"

fun set_link :: "hlink \<Rightarrow> nat ptr \<Rightarrow> 'd bcache \<Rightarrow> 'd bcache" where
  "set_link (Bucket h) v c = c\<lparr>buf_hash := (buf_hash c)(h := v)\<rparr>"
| "set_link (NextOf i) v c = upd_buf i (hash_next_update (\<lambda>_. v)) c"

partial_function (option) find_link :: "nat \<Rightarrow> 'd bcache \<Rightarrow> hlink \<Rightarrow> hlink option" where
  [code]: "find_link bp c link =
     (case get_link link c of
        None \<Rightarrow> Some link
      | Some i \<Rightarrow> if i = bp then Some link else find_link bp c (NextOf i))"

definition hash_remove :: "nat \<Rightarrow> 'd bcache \<Rightarrow> 'd bcache option" where
  "hash_remove bp c =
     do { link \<leftarrow> find_link bp c (Bucket (buf_hash_idx (b_dev (bufs c bp)) (b_blkno (bufs c bp))));
          let c1 = (if get_link link c = Some bp then set_link link (hash_next (bufs c bp)) c else c);
          Some (upd_buf bp (hash_next_update (\<lambda>_. None)) c1) }"

partial_function (option) lookup_from :: "u32 \<Rightarrow> u64 \<Rightarrow> 'd bcache \<Rightarrow> nat ptr \<Rightarrow> nat ptr option" where
  [code]: "lookup_from dev blkno c p =
     (case p of
        None \<Rightarrow> Some None
      | Some i \<Rightarrow> if b_dev (bufs c i) = dev \<and> b_blkno (bufs c i) = blkno then Some (Some i)
                  else lookup_from dev blkno c (hash_next (bufs c i)))"

definition hash_lookup :: "u32 \<Rightarrow> u64 \<Rightarrow> 'd bcache \<Rightarrow> nat ptr option" where
  "hash_lookup dev blkno c = lookup_from dev blkno c (buf_hash c (buf_hash_idx dev blkno))"

subsection \<open>Release, I/O and completion\<close>

definition brelse :: "nat ptr \<Rightarrow> 'd bcache \<Rightarrow> 'd bcache" where
  "brelse bp c =
     (case bp of None \<Rightarrow> c | Some i \<Rightarrow> lru_insert_tail i (upd_buf i (clr_flags B_BUSY) c))"

definition biodone :: "buf \<Rightarrow> buf" where
  "biodone b = set_flags B_DONE b"

definition biowait :: "nat ptr \<Rightarrow> 'd bcache \<Rightarrow> int option" where
  "biowait bp c =
     (case bp of
        None \<Rightarrow> Some (-1)
      | Some i \<Rightarrow> if flag (b_flags (bufs c i)) B_DONE
                  then Some (if flag (b_flags (bufs c i)) B_ERROR then -1 else 0)
                  else None)"

definition strategy_and_wait :: "nat \<Rightarrow> 'd bcache \<Rightarrow> (int \<times> 'd bcache) option" where
  "strategy_and_wait bp c =
     (case Option.bind (bdev_lookup (MAJOR (b_dev (bufs c bp))) (bdev_table c)) d_strategy of
        None \<Rightarrow> Some (-1, upd_buf bp (\<lambda>b. (set_flags (B_ERROR OR B_DONE) b)\<lparr>b_error := -1\<rparr>) c)
      | Some strategy \<Rightarrow>
          (let c1 = upd_buf bp (\<lambda>b. (clr_flags (B_DONE OR B_ERROR) b)\<lparr>b_resid := 0\<rparr>) c;
               (b, d) = strategy (MINOR (b_dev (bufs c1 bp))) (bufs c1 bp) (devs c1);
               c2 = c1\<lparr>bufs := (bufs c1)(bp := b), devs := d\<rparr>
           in do { _ \<leftarrow> biowait (Some bp) c2;
                   Some (if flag (b_flags (bufs c2 bp)) B_ERROR then -1 else 0, c2) }))"

definition bwrite :: "nat ptr \<Rightarrow> 'd bcache \<Rightarrow> (int \<times> 'd bcache) option" where
  "bwrite bp c =
     (case bp of
        None \<Rightarrow> Some (-1, c)
      | Some i \<Rightarrow>
          do { (rc, c1) \<leftarrow> strategy_and_wait i
                 (upd_buf i (\<lambda>b. set_flags B_WRITE (b\<lparr>b_bcount := BUF_BLOCK_SIZE\<rparr>)) c);
               let c2 = upd_buf i (clr_flags B_WRITE) c1;
               Some (if rc < 0 then (-1, brelse bp c2)
                     else (0, brelse bp (upd_buf i (\<lambda>b. clr_flags B_DELWRI (set_flags B_VALID b)) c2))) })"

definition evict_one :: "'d bcache \<Rightarrow> (nat ptr \<times> 'd bcache) option" where
  "evict_one c =
     (case lru_head c of
        None \<Rightarrow> Some (None, c)
      | Some bp \<Rightarrow>
          do { c1 \<leftarrow> (let c0 = lru_unlink bp c in
                 if flag (b_flags (bufs c0 bp)) B_DELWRI
                 then map_option snd (bwrite (Some bp) c0) else Some c0);
               c2 \<leftarrow> (if b_dev (bufs c1 bp) \<noteq> -1 then hash_remove bp c1 else Some c1);
               Some (Some bp, upd_buf bp (\<lambda>b. b\<lparr>b_flags := B_BUSY\<rparr>) c2) })"

definition getblk :: "u32 \<Rightarrow> u64 \<Rightarrow> 'd bcache \<Rightarrow> (nat ptr \<times> 'd bcache) option" where
  "getblk dev blkno c =
     do { hit \<leftarrow> hash_lookup dev blkno c;
          (case hit of
             Some bp \<Rightarrow>
               if flag (b_flags (bufs c bp)) B_BUSY then None
               else Some (Some bp, upd_buf bp (set_flags B_BUSY) (lru_unlink bp c))
           | None \<Rightarrow>
               do { (v, c1) \<leftarrow> evict_one c;
                    (case v of
                       None \<Rightarrow> Some (None, c1)
                     | Some bp \<Rightarrow> Some (Some bp, hash_insert bp
                         (upd_buf bp (\<lambda>b. b\<lparr>b_dev := dev, b_blkno := blkno,
                            b_bcount := BUF_BLOCK_SIZE, b_flags := B_BUSY, b_error := 0\<rparr>) c1))) }) }"

definition bread :: "u32 \<Rightarrow> u64 \<Rightarrow> 'd bcache \<Rightarrow> (nat ptr \<times> 'd bcache) option" where
  "bread dev blkno c =
     do { (r, c1) \<leftarrow> getblk dev blkno c;
          (case r of
             None \<Rightarrow> Some (None, c1)
           | Some bp \<Rightarrow>
               if flag (b_flags (bufs c1 bp)) B_VALID then Some (Some bp, c1)
               else do { (rc, c2) \<leftarrow> strategy_and_wait bp
                           (upd_buf bp (\<lambda>b. set_flags B_READ (b\<lparr>b_bcount := BUF_BLOCK_SIZE\<rparr>)) c1);
                         Some (if rc < 0 then (None, brelse (Some bp) c2)
                               else (Some bp, upd_buf bp (\<lambda>b. clr_flags B_READ (set_flags B_VALID b)) c2)) }) }"

definition bdwrite :: "nat ptr \<Rightarrow> 'd bcache \<Rightarrow> 'd bcache" where
  "bdwrite bp c =
     (case bp of None \<Rightarrow> c | Some i \<Rightarrow> brelse bp (upd_buf i (set_flags (B_DELWRI OR B_VALID)) c))"

definition bawrite :: "nat ptr \<Rightarrow> 'd bcache \<Rightarrow> 'd bcache" where
  "bawrite bp c = bdwrite bp c"

text \<open>The counts \<open>buf_stats\<close> prints: busy, valid and dirty slots.\<close>

definition buf_stats :: "'d bcache \<Rightarrow> nat \<times> nat \<times> nat" where
  "buf_stats c =
     (let n = (\<lambda>m. length (filter (\<lambda>i. flag (b_flags (bufs c i)) m) [0..<BUF_POOL_SIZE]))
      in (n B_BUSY, n B_VALID, n B_DELWRI))"

text \<open>
  \<open>buf_init\<close>: slot \<open>i\<close> receives the 512-byte block \<open>kmalloc\<close> returned for it; the
  loop breaks at the first NULL.
\<close>

fun buf_init_from :: "(nat \<Rightarrow> bytes option) \<Rightarrow> nat list \<Rightarrow> 'd bcache \<Rightarrow> 'd bcache" where
  "buf_init_from kmallocs [] c = c"
| "buf_init_from kmallocs (i # is) c =
     (case kmallocs i of
        None \<Rightarrow> c
      | Some mem \<Rightarrow> buf_init_from kmallocs is (lru_insert_tail i
          (upd_buf i (\<lambda>b. b\<lparr>b_data := mem, b_dev := -1, b_blkno := 0, b_bcount := BUF_BLOCK_SIZE,
             b_flags := 0, b_error := 0\<rparr>) c)))"

definition buf_init :: "(nat \<Rightarrow> bytes option) \<Rightarrow> 'd bcache \<Rightarrow> 'd bcache" where
  "buf_init kmallocs c = buf_init_from kmallocs [0..<BUF_POOL_SIZE] c"

text \<open>
  The abstraction: the LRU list and the hash chains as lists of slots, the key of a slot, and
  the cache invariant for a pool of \<open>n\<close> initialised slots with idle slots \<open>ls\<close> in LRU order.
\<close>

definition busy :: "'d bcache \<Rightarrow> nat \<Rightarrow> bool" where
  "busy c i \<longleftrightarrow> flag (b_flags (bufs c i)) B_BUSY"

definition bkey :: "'d bcache \<Rightarrow> nat \<Rightarrow> u32 \<times> u64" where
  "bkey c i = (b_dev (bufs c i), b_blkno (bufs c i))"

definition hashed :: "'d bcache \<Rightarrow> nat \<Rightarrow> bool" where
  "hashed c i \<longleftrightarrow> b_dev (bufs c i) \<noteq> -1"

definition nxl :: "'d bcache \<Rightarrow> nat \<Rightarrow> nat ptr" where "nxl c i = lru_next (bufs c i)"
definition pvl :: "'d bcache \<Rightarrow> nat \<Rightarrow> nat ptr" where "pvl c i = lru_prev (bufs c i)"
definition hnl :: "'d bcache \<Rightarrow> nat \<Rightarrow> nat ptr" where "hnl c i = hash_next (bufs c i)"

definition LRU :: "'d bcache \<Rightarrow> nat list \<Rightarrow> bool" where
  "LRU c ls \<longleftrightarrow> dlist (nxl c) (pvl c) (lru_head c) (lru_tail c) ls"

definition HASH :: "'d bcache \<Rightarrow> nat \<Rightarrow> nat list \<Rightarrow> bool" where
  "HASH c h ch \<longleftrightarrow> slist (hnl c) (buf_hash c h) ch"

definition hidx :: "'d bcache \<Rightarrow> nat \<Rightarrow> nat" where
  "hidx c i = buf_hash_idx (b_dev (bufs c i)) (b_blkno (bufs c i))"

definition hash_over :: "nat set \<Rightarrow> 'd bcache \<Rightarrow> bool" where
  "hash_over S c \<longleftrightarrow> (\<forall>h. \<exists>ch. HASH c h ch \<and> set ch = {i \<in> S. hidx c i = h})"

definition hash_ok :: "nat \<Rightarrow> 'd bcache \<Rightarrow> bool" where
  "hash_ok n c \<longleftrightarrow> hash_over {i. i < n \<and> hashed c i} c"

definition uniq :: "nat \<Rightarrow> 'd bcache \<Rightarrow> bool" where
  "uniq n c \<longleftrightarrow> (\<forall>i < n. \<forall>j < n. hashed c i \<longrightarrow> bkey c i = bkey c j \<longrightarrow> i = j)"

definition bc_inv :: "nat \<Rightarrow> nat list \<Rightarrow> 'd bcache \<Rightarrow> bool" where
  "bc_inv n ls c \<longleftrightarrow> LRU c ls \<and> set ls = {i. i < n \<and> \<not> busy c i} \<and> hash_ok n c \<and> uniq n c"

text \<open>
  What the cache expects of the registered drivers: a table of entries, the capacity of each
  device, its contents as seen by block number, and the drivers' own state invariant.
\<close>

record 'd switch =
  sw_table :: "u32 \<Rightarrow> 'd bdev_entry option"
  sw_ok :: "'d \<Rightarrow> bool"
  sw_cap :: "u32 \<Rightarrow> nat"
  sw_content :: "'d \<Rightarrow> u32 \<Rightarrow> u64 \<Rightarrow> bytes"

definition on_disk :: "'d switch \<Rightarrow> u32 \<Rightarrow> u64 \<Rightarrow> bool" where
  "on_disk sw dev blk \<longleftrightarrow> dev \<noteq> -1 \<and> unat blk < sw_cap sw dev"

definition slot_clean :: "'d switch \<Rightarrow> buf \<Rightarrow> bool" where
  "slot_clean sw b \<longleftrightarrow> \<not> flag (b_flags b) B_DELWRI \<and> \<not> flag (b_flags b) B_WRITE
     \<and> length (b_data b) = 512 \<and> (on_disk sw (b_dev b) (b_blkno b) \<longrightarrow> \<not> flag (b_flags b) B_READ)"

definition slot_coherent :: "'d switch \<Rightarrow> 'd \<Rightarrow> buf \<Rightarrow> bool" where
  "slot_coherent sw d b \<longleftrightarrow> (flag (b_flags b) B_VALID \<and> on_disk sw (b_dev b) (b_blkno b) \<longrightarrow>
     b_data b = sw_content sw d (b_dev b) (b_blkno b))"

text \<open>The cache with the slots \<open>H\<close> checked out and every other slot clean and coherent.\<close>

definition disk_st :: "'d switch \<Rightarrow> nat \<Rightarrow> nat set \<Rightarrow> 'd bcache \<Rightarrow> bool" where
  "disk_st sw n H c \<longleftrightarrow> (\<exists>ls. bc_inv n ls c) \<and> H = {i. i < n \<and> busy c i}
     \<and> bdev_table c = sw_table sw \<and> sw_ok sw (devs c)
     \<and> (\<forall>i < n. slot_clean sw (bufs c i)) \<and> (\<forall>i < n. i \<notin> H \<longrightarrow> slot_coherent sw (devs c) (bufs c i))"

text \<open>Operations that only rewrite hash links.\<close>

definition only_hash :: "'d bcache \<Rightarrow> 'd bcache \<Rightarrow> bool" where
  "only_hash c c' \<longleftrightarrow> (\<exists>hs hn. c' = c\<lparr>buf_hash := hs, bufs := (\<lambda>i. (bufs c i)\<lparr>hash_next := hn i\<rparr>)\<rparr>)"

text \<open>What a buffer holds, apart from its links and transfer status.\<close>

definition meta :: "buf \<Rightarrow> u32 \<times> u64 \<times> u32 \<times> bytes" where
  "meta b = (b_dev b, b_blkno b, b_flags b, b_data b)"

text \<open>The buffer after a successful \<open>bwrite\<close>, before it is released.\<close>

definition written :: "buf \<Rightarrow> buf" where
  "written b = clr_flags B_DELWRI (set_flags B_VALID (clr_flags B_WRITE
     (biodone ((clr_flags (B_DONE OR B_ERROR) (set_flags B_WRITE (b\<lparr>b_bcount := BUF_BLOCK_SIZE\<rparr>)))
        \<lparr>b_resid := 0\<rparr>))))"

section \<open>Lemmas\<close>

lemma upd_buf_simps [simp]:
  "bufs (upd_buf i f c) = (bufs c)(i := f (bufs c i))"
  "buf_hash (upd_buf i f c) = buf_hash c" "lru_head (upd_buf i f c) = lru_head c"
  "lru_tail (upd_buf i f c) = lru_tail c" "bdev_table (upd_buf i f c) = bdev_table c"
  "devs (upd_buf i f c) = devs c"
  by (simp_all add: upd_buf_def)

lemma flag_ops_simps [simp]:
  "b_dev (set_flags m b) = b_dev b" "b_dev (clr_flags m b) = b_dev b"
  "b_blkno (set_flags m b) = b_blkno b" "b_blkno (clr_flags m b) = b_blkno b"
  "b_bcount (set_flags m b) = b_bcount b" "b_bcount (clr_flags m b) = b_bcount b"
  "b_data (set_flags m b) = b_data b" "b_data (clr_flags m b) = b_data b"
  "lru_prev (set_flags m b) = lru_prev b" "lru_prev (clr_flags m b) = lru_prev b"
  "lru_next (set_flags m b) = lru_next b" "lru_next (clr_flags m b) = lru_next b"
  "hash_next (set_flags m b) = hash_next b" "hash_next (clr_flags m b) = hash_next b"
  "b_flags (set_flags m b) = b_flags b OR m" "b_flags (clr_flags m b) = b_flags b AND NOT m"
  by (simp_all add: set_flags_def clr_flags_def)

text \<open>The flag bits are pairwise disjoint, so tests and clears of different flags commute.\<close>

lemma b_flag_tests [simp]:
  "flag B_BUSY B_BUSY" "flag B_VALID B_VALID" "flag B_DELWRI B_DELWRI" "flag B_READ B_READ"
  "flag B_WRITE B_WRITE" "flag B_DONE B_DONE" "flag B_ERROR B_ERROR"
  "\<not> flag B_BUSY B_VALID" "\<not> flag B_BUSY B_DELWRI" "\<not> flag B_BUSY B_READ" "\<not> flag B_BUSY B_WRITE"
  "\<not> flag B_BUSY B_DONE" "\<not> flag B_BUSY B_ERROR"
  "\<not> flag B_VALID B_BUSY" "\<not> flag B_VALID B_DELWRI" "\<not> flag B_VALID B_READ" "\<not> flag B_VALID B_WRITE"
  "\<not> flag B_VALID B_DONE" "\<not> flag B_VALID B_ERROR"
  "\<not> flag B_READ B_BUSY" "\<not> flag B_READ B_VALID" "\<not> flag B_READ B_DELWRI" "\<not> flag B_READ B_WRITE"
  "\<not> flag B_READ B_DONE" "\<not> flag B_READ B_ERROR"
  "\<not> flag B_WRITE B_BUSY" "\<not> flag B_WRITE B_VALID" "\<not> flag B_WRITE B_DELWRI" "\<not> flag B_WRITE B_READ"
  "\<not> flag B_WRITE B_DONE" "\<not> flag B_WRITE B_ERROR"
  "\<not> flag B_DONE B_BUSY" "\<not> flag B_DONE B_VALID" "\<not> flag B_DONE B_DELWRI" "\<not> flag B_DONE B_READ"
  "\<not> flag B_DONE B_WRITE" "\<not> flag B_DONE B_ERROR"
  "\<not> flag B_ERROR B_BUSY" "\<not> flag B_ERROR B_VALID" "\<not> flag B_ERROR B_DELWRI" "\<not> flag B_ERROR B_READ"
  "\<not> flag B_ERROR B_WRITE" "\<not> flag B_ERROR B_DONE"
  "\<not> flag B_DELWRI B_BUSY" "\<not> flag B_DELWRI B_VALID" "\<not> flag B_DELWRI B_READ" "\<not> flag B_DELWRI B_WRITE"
  "\<not> flag B_DELWRI B_DONE" "\<not> flag B_DELWRI B_ERROR"
  by (simp_all add: flag_def consts_def)

lemma b_flag_masks [simp]:
  "B_BUSY AND NOT B_BUSY = 0" "B_READ AND NOT B_READ = 0" "B_WRITE AND NOT B_WRITE = 0"
  "B_DELWRI AND NOT B_DELWRI = 0"
  "B_VALID AND NOT B_BUSY = B_VALID" "B_DELWRI AND NOT B_BUSY = B_DELWRI" "B_READ AND NOT B_BUSY = B_READ"
  "B_WRITE AND NOT B_BUSY = B_WRITE" "B_ERROR AND NOT B_BUSY = B_ERROR" "B_DONE AND NOT B_BUSY = B_DONE"
  "B_BUSY AND NOT B_READ = B_BUSY" "B_VALID AND NOT B_READ = B_VALID" "B_DELWRI AND NOT B_READ = B_DELWRI"
  "B_WRITE AND NOT B_READ = B_WRITE"
  "B_BUSY AND NOT B_WRITE = B_BUSY" "B_VALID AND NOT B_WRITE = B_VALID" "B_DELWRI AND NOT B_WRITE = B_DELWRI"
  "B_READ AND NOT B_WRITE = B_READ"
  "B_BUSY AND NOT B_DELWRI = B_BUSY" "B_VALID AND NOT B_DELWRI = B_VALID" "B_READ AND NOT B_DELWRI = B_READ"
  "B_WRITE AND NOT B_DELWRI = B_WRITE"
  "B_BUSY AND (NOT B_DONE AND NOT B_ERROR) = B_BUSY" "B_VALID AND (NOT B_DONE AND NOT B_ERROR) = B_VALID"
  "B_READ AND (NOT B_DONE AND NOT B_ERROR) = B_READ" "B_WRITE AND (NOT B_DONE AND NOT B_ERROR) = B_WRITE"
  "B_DELWRI AND (NOT B_DONE AND NOT B_ERROR) = B_DELWRI"
  "B_ERROR AND (NOT B_DONE AND NOT B_ERROR) = 0" "B_DONE AND (NOT B_DONE AND NOT B_ERROR) = 0"
  by (simp_all add: consts_def)

subsection \<open>LRU operations\<close>

lemma lru_unlink_fields [simp]:
  "b_dev (bufs (lru_unlink x c) i) = b_dev (bufs c i)"
  "b_blkno (bufs (lru_unlink x c) i) = b_blkno (bufs c i)"
  "b_flags (bufs (lru_unlink x c) i) = b_flags (bufs c i)"
  "b_data (bufs (lru_unlink x c) i) = b_data (bufs c i)"
  "hash_next (bufs (lru_unlink x c) i) = hash_next (bufs c i)"
  "buf_hash (lru_unlink x c) = buf_hash c"
  "bdev_table (lru_unlink x c) = bdev_table c" "devs (lru_unlink x c) = devs c"
  by (simp_all add: lru_unlink_def Let_def split: option.splits)

lemma lru_insert_tail_fields [simp]:
  "b_dev (bufs (lru_insert_tail x c) i) = b_dev (bufs c i)"
  "b_blkno (bufs (lru_insert_tail x c) i) = b_blkno (bufs c i)"
  "b_flags (bufs (lru_insert_tail x c) i) = b_flags (bufs c i)"
  "b_data (bufs (lru_insert_tail x c) i) = b_data (bufs c i)"
  "hash_next (bufs (lru_insert_tail x c) i) = hash_next (bufs c i)"
  "buf_hash (lru_insert_tail x c) = buf_hash c"
  "bdev_table (lru_insert_tail x c) = bdev_table c" "devs (lru_insert_tail x c) = devs c"
  by (simp_all add: lru_insert_tail_def Let_def split: option.splits)

lemma lru_unlink_links:
  assumes "pvl c x \<noteq> Some x" "nxl c x \<noteq> Some x"
  shows "nxl (lru_unlink x c) = (skip_link (nxl c) (pvl c x) (nxl c x))(x := None)"
    "pvl (lru_unlink x c) = (skip_link (pvl c) (nxl c x) (pvl c x))(x := None)"
    "lru_head (lru_unlink x c) = (if pvl c x = None then nxl c x else lru_head c)"
    "lru_tail (lru_unlink x c) = (if nxl c x = None then pvl c x else lru_tail c)"
  using assms
  by (auto simp: lru_unlink_def nxl_def pvl_def skip_link_def fun_eq_iff Let_def split: option.splits)

lemma LRU_unlink:
  assumes "LRU c (as @ x # bs)"
  shows "LRU (lru_unlink x c) (as @ bs)"
proof -
  from assms have d: "dlist (nxl c) (pvl c) (lru_head c) (lru_tail c) (as @ x # bs)"
    by (simp add: LRU_def)
  from dlist_distinct [OF d] have "x \<notin> set as" "x \<notin> set bs" by auto
  then have "pvl c x \<noteq> Some x" "nxl c x \<noteq> Some x"
    using dlist_prev [OF d] dlist_next [OF d] by (auto split: list.splits dest: last_in_set)
  from lru_unlink_links [OF this] dlist_unlink [OF d] show ?thesis by (simp add: LRU_def)
qed

lemma LRU_unlink_head: "LRU c (x # bs) \<Longrightarrow> LRU (lru_unlink x c) bs"
  using LRU_unlink [of c "[]" x bs] by simp

lemma LRU_insert_tail:
  assumes "LRU c ls" "x \<notin> set ls"
  shows "LRU (lru_insert_tail x c) (ls @ [x])"
proof -
  have t: "lru_tail c \<noteq> Some x" using assms dlist_tail_Some [of _ _ _ x ls] by (fastforce simp: LRU_def)
  have "nxl (lru_insert_tail x c)
      = (case lru_tail c of None \<Rightarrow> (nxl c)(x := None) | Some l \<Rightarrow> (nxl c)(x := None, l := Some x))"
    "pvl (lru_insert_tail x c) = (pvl c)(x := lru_tail c)"
    "lru_head (lru_insert_tail x c) = (case lru_tail c of None \<Rightarrow> Some x | Some _ \<Rightarrow> lru_head c)"
    "lru_tail (lru_insert_tail x c) = Some x"
    using t by (auto simp: lru_insert_tail_def nxl_def pvl_def fun_eq_iff Let_def split: option.splits)
  with dlist_snoc [of "nxl c" "pvl c" "lru_head c" "lru_tail c" ls x] assms show ?thesis
    by (simp add: LRU_def)
qed

lemma LRU_upd:
  "(\<And>b. lru_next (f b) = lru_next b) \<Longrightarrow> (\<And>b. lru_prev (f b) = lru_prev b) \<Longrightarrow>
    LRU (upd_buf x f c) ls \<longleftrightarrow> LRU c ls"
  unfolding LRU_def upd_buf_simps by (rule dlist_cong) (simp_all add: nxl_def pvl_def)

subsection \<open>Hash operations\<close>

lemma lookup_from_find:
  "slist (hnl c) p ch \<Longrightarrow> lookup_from dev blk c p = Some (find (\<lambda>i. bkey c i = (dev, blk)) ch)"
proof (induction ch arbitrary: p)
  case Nil
  then show ?case by (simp add: lookup_from.simps)
next
  case (Cons i ch)
  then show ?case by (simp add: lookup_from.simps [of _ _ _ "Some i"] bkey_def hnl_def)
qed

lemma find_link_found:
  "slist (hnl c) (get_link link c) (as @ x # bs) \<Longrightarrow> x \<notin> set as \<Longrightarrow>
    find_link x c link = Some (if as = [] then link else NextOf (last as))"
proof (induction as arbitrary: link)
  case Nil
  then show ?case by (simp add: find_link.simps)
next
  case (Cons a as)
  then show ?case by (simp add: find_link.simps [of _ _ link] hnl_def)
qed

lemma only_hashD:
  assumes "only_hash c c'"
  shows "b_dev (bufs c' i) = b_dev (bufs c i)" "b_blkno (bufs c' i) = b_blkno (bufs c i)"
    "b_flags (bufs c' i) = b_flags (bufs c i)" "b_data (bufs c' i) = b_data (bufs c i)"
    "LRU c' ls \<longleftrightarrow> LRU c ls" "bdev_table c' = bdev_table c" "devs c' = devs c"
  using assms by (auto simp: only_hash_def LRU_def nxl_def [abs_def] pvl_def [abs_def])

lemma only_hash_intro:
  assumes "\<And>i. (bufs c' i)\<lparr>hash_next := None\<rparr> = (bufs c i)\<lparr>hash_next := None\<rparr>"
    "lru_head c' = lru_head c" "lru_tail c' = lru_tail c" "bdev_table c' = bdev_table c"
    "devs c' = devs c"
  shows "only_hash c c'"
proof -
  have "bufs c' i = (bufs c i)\<lparr>hash_next := hash_next (bufs c' i)\<rparr>" for i
    using assms(1) [of i] by (metis (no_types, lifting) buf.surjective buf.update_convs(10))
  then have "bufs c' = (\<lambda>i. (bufs c i)\<lparr>hash_next := hash_next (bufs c' i)\<rparr>)" by blast
  with assms(2-) show ?thesis
    unfolding only_hash_def
    by (intro exI [of _ "buf_hash c'"] exI [of _ "\<lambda>i. hash_next (bufs c' i)"]) simp
qed

lemma hash_over_upd:
  assumes "x \<notin> S" shows "hash_over S (upd_buf x f c) \<longleftrightarrow> hash_over S c"
proof -
  have "HASH (upd_buf x f c) h ch \<longleftrightarrow> HASH c h ch" if "set ch \<subseteq> S" for h ch
    unfolding HASH_def upd_buf_simps using that assms by (intro slist_cong) (auto simp: hnl_def)
  moreover have "{i \<in> S. hidx (upd_buf x f c) i = h} = {i \<in> S. hidx c i = h}" for h
    using assms by (auto simp: hidx_def)
  ultimately show ?thesis unfolding hash_over_def by (metis (no_types, lifting) mem_Collect_eq subsetI)
qed

lemma hash_over_cong:
  assumes "\<And>i. hash_next (bufs c' i) = hash_next (bufs c i)" "buf_hash c' = buf_hash c"
    "\<And>i. b_dev (bufs c' i) = b_dev (bufs c i)" "\<And>i. b_blkno (bufs c' i) = b_blkno (bufs c i)"
  shows "hash_over S c' \<longleftrightarrow> hash_over S c"
proof -
  have "hnl c' = hnl c" using assms by (auto simp: hnl_def)
  with assms show ?thesis by (simp add: hash_over_def HASH_def hidx_def)
qed

lemma hash_insert_over:
  assumes "hash_over S c" "x \<notin> S"
  shows "hash_over (insert x S) (hash_insert x c) \<and> only_hash c (hash_insert x c)"
proof
  let ?c = "hash_insert x c"
  have hn: "hnl ?c = (hnl c)(x := buf_hash c (hidx c x))"
    and bh: "buf_hash ?c = (buf_hash c)(hidx c x := Some x)"
    and hi: "hidx ?c = hidx c"
    by (auto simp: hash_insert_def hnl_def hidx_def Let_def fun_eq_iff)
  show "hash_over (insert x S) ?c" unfolding hash_over_def
  proof
    fix h
    from assms(1) obtain ch where ch: "HASH c h ch" "set ch = {i \<in> S. hidx c i = h}"
      unfolding hash_over_def by blast
    then have "x \<notin> set ch" using assms(2) by simp
    then have "HASH ?c h (if h = hidx c x then x # ch else ch)"
      using ch(1) by (auto simp: HASH_def hn bh slist_upd)
    moreover have "set (if h = hidx c x then x # ch else ch) = {i \<in> insert x S. hidx ?c i = h}"
      using ch(2) by (auto simp: hi)
    ultimately show "\<exists>ch. HASH ?c h ch \<and> set ch = {i \<in> insert x S. hidx ?c i = h}" by blast
  qed
  show "only_hash c ?c"
    by (rule only_hash_intro) (simp_all add: hash_insert_def Let_def)
qed

lemma hash_remove_links:
  assumes "HASH c (hidx c x) (as @ x # bs)"
  obtains c' where "hash_remove x c = Some c'" "only_hash c c'"
    "hnl c' = (skip_link (hnl c) (if as = [] then None else Some (last as)) (hnl c x))(x := None)"
    "buf_hash c' = (if as = [] then (buf_hash c)(hidx c x := hnl c x) else buf_hash c)"
proof -
  let ?l = "if as = [] then Bucket (hidx c x) else NextOf (last as)"
  let ?c' = "upd_buf x (hash_next_update (\<lambda>_. None)) (set_link ?l (hash_next (bufs c x)) c)"
  from assms have sl: "slist (hnl c) (get_link (Bucket (hidx c x)) c) (as @ x # bs)" by (simp add: HASH_def)
  from slist_distinct [OF sl] have x: "x \<notin> set as" "x \<notin> set bs" by auto
  from find_link_found [OF sl x(1)] have fl: "find_link x c (Bucket (hidx c x)) = Some ?l" by simp
  have gl: "get_link ?l c = Some x"
    using sl by (cases as rule: rev_cases) (auto simp: slist_append hnl_def)
  have "hash_remove x c = Some ?c'"
    using fl gl by (simp add: hash_remove_def hidx_def [symmetric])
  moreover have "only_hash c ?c'" by (rule only_hash_intro) auto
  moreover have "hnl ?c' = (skip_link (hnl c) (if as = [] then None else Some (last as)) (hnl c x))(x := None)"
    by (auto simp: hnl_def skip_link_def fun_eq_iff)
  moreover have "buf_hash ?c' = (if as = [] then (buf_hash c)(hidx c x := hnl c x) else buf_hash c)"
    by (auto simp: hnl_def)
  ultimately show thesis using that by blast
qed

lemma hash_remove_over:
  assumes "hash_over S c" "x \<in> S"
  obtains c' where "hash_remove x c = Some c'" "only_hash c c'" "hash_over (S - {x}) c'"
proof -
  from assms obtain cx where cx: "HASH c (hidx c x) cx" "set cx = {i \<in> S. hidx c i = hidx c x}"
    unfolding hash_over_def by blast
  with assms(2) obtain as bs where ab: "cx = as @ x # bs" by (metis (mono_tags, lifting) mem_Collect_eq split_list)
  let ?p = "if as = [] then None else Some (last as)"
  from hash_remove_links cx(1) ab obtain c' where c': "hash_remove x c = Some c'" "only_hash c c'"
    "hnl c' = (skip_link (hnl c) ?p (hnl c x))(x := None)"
    "buf_hash c' = (if as = [] then (buf_hash c)(hidx c x := hnl c x) else buf_hash c)" by metis
  have hi: "hidx c' = hidx c" using only_hashD [OF c'(2)] by (simp add: hidx_def fun_eq_iff)
  have "\<exists>ch. HASH c' h ch \<and> set ch = {i \<in> S - {x}. hidx c' i = h}" for h
  proof (cases "h = hidx c x")
    case True
    from cx(1) ab have "HASH c' h (as @ bs)"
      using slist_unlink [of "hnl c" "buf_hash c h" as x bs ?p] True
      by (auto simp: HASH_def c'(3,4))
    moreover have "set (as @ bs) = {i \<in> S - {x}. hidx c' i = h}"
      using cx slist_distinct [of "hnl c" _ cx] ab True by (auto simp: HASH_def hi)
    ultimately show ?thesis by blast
  next
    case False
    from assms(1) obtain ch where ch: "HASH c h ch" "set ch = {i \<in> S. hidx c i = h}"
      unfolding hash_over_def by blast
    have "x \<notin> set ch" using ch(2) False by auto
    moreover have "last as \<notin> set ch" if "as \<noteq> []"
      using cx(2) ch(2) ab that False last_in_set [OF that] by auto
    ultimately have "HASH c' h ch" using ch(1) False
      by (auto simp: HASH_def c'(3,4) skip_link_def slist_upd)
    with ch(2) False show ?thesis by (intro exI [of _ ch]) (auto simp: hi)
  qed
  with c' that show thesis unfolding hash_over_def by blast
qed

subsection \<open>Acquiring a buffer\<close>

lemma meta_eqD:
  "meta b = meta b' \<Longrightarrow> b_dev b = b_dev b' \<and> b_blkno b = b_blkno b' \<and> b_flags b = b_flags b'
    \<and> b_data b = b_data b'"
  by (simp add: meta_def)

lemma meta_views:
  "bkey c i = (fst (meta (bufs c i)), fst (snd (meta (bufs c i))))"
  "busy c i \<longleftrightarrow> flag (fst (snd (snd (meta (bufs c i))))) B_BUSY"
  "hashed c i \<longleftrightarrow> fst (meta (bufs c i)) \<noteq> -1"
  by (simp_all add: meta_def bkey_def busy_def hashed_def)

lemma bc_inv_chain:
  assumes "bc_inv n ls c"
  obtains ch where "HASH c h ch" "set ch = {j. j < n \<and> hashed c j \<and> hidx c j = h}"
proof -
  from assms have "\<exists>ch. HASH c h ch \<and> set ch = {j \<in> {i. i < n \<and> hashed c i}. hidx c j = h}"
    unfolding bc_inv_def hash_ok_def hash_over_def by blast
  with that show thesis by auto
qed

lemma hash_lookup_hit:
  assumes "bc_inv n ls c" "i < n" "bkey c i = (dev, blk)" "dev \<noteq> -1"
  shows "hash_lookup dev blk c = Some (Some i)"
proof -
  obtain ch where ch: "HASH c (hidx c i) ch"
    "set ch = {j. j < n \<and> hashed c j \<and> hidx c j = hidx c i}"
    by (rule bc_inv_chain [OF assms(1)])
  have h: "buf_hash_idx dev blk = hidx c i" "hashed c i"
    using assms(3,4) by (auto simp: hidx_def bkey_def hashed_def)
  have "find (\<lambda>j. bkey c j = (dev, blk)) ch = Some i"
  proof -
    have u: "j = i" if "j \<in> set ch" "bkey c j = (dev, blk)" for j
      using that ch(2) assms unfolding bc_inv_def uniq_def by auto
    have "i \<in> set ch" using ch(2) h assms(2) by simp
    then have "find (\<lambda>j. bkey c j = (dev, blk)) ch \<noteq> None"
      using assms(3) by (auto simp: find_None_iff)
    then obtain j where "find (\<lambda>j. bkey c j = (dev, blk)) ch = Some j" by auto
    moreover from this have "j \<in> set ch" "bkey c j = (dev, blk)"
      by (auto simp: find_Some_iff)
    ultimately show ?thesis using u by simp
  qed
  with lookup_from_find [of c "buf_hash c (hidx c i)" ch dev blk] ch(1) h show ?thesis
    by (simp add: hash_lookup_def HASH_def)
qed

lemma hash_lookup_miss:
  assumes "bc_inv n ls c" "\<And>i. i < n \<Longrightarrow> bkey c i \<noteq> (dev, blk)"
  shows "hash_lookup dev blk c = Some None"
proof -
  let ?h = "buf_hash_idx dev blk"
  obtain ch where ch: "HASH c ?h ch"
    "set ch = {j. j < n \<and> hashed c j \<and> hidx c j = ?h}"
    by (rule bc_inv_chain [OF assms(1)])
  then have "find (\<lambda>j. bkey c j = (dev, blk)) ch = None"
    using assms(2) by (auto simp: find_None_iff)
  with lookup_from_find [of c "buf_hash c ?h" ch dev blk] ch(1) show ?thesis
    by (simp add: hash_lookup_def HASH_def)
qed

lemma getblk_busy:
  assumes "bc_inv n ls c" "i < n" "bkey c i = (dev, blk)" "dev \<noteq> -1" "busy c i"
  shows "getblk dev blk c = None"
  using hash_lookup_hit [OF assms(1-4)] assms(5) by (simp add: getblk_def busy_def)

lemma LRU_distinct: "LRU c ls \<Longrightarrow> distinct ls"
  unfolding LRU_def by (rule dlist_distinct)

lemma bc_inv_take:
  assumes "bc_inv n (as @ i # bs) c"
  shows "bc_inv n (as @ bs) (upd_buf i (set_flags B_BUSY) (lru_unlink i c))"
proof -
  let ?c = "upd_buf i (set_flags B_BUSY) (lru_unlink i c)"
  have L: "LRU c (as @ i # bs)" and st: "set (as @ i # bs) = {i. i < n \<and> \<not> busy c i}"
    and h: "hash_ok n c" and u: "uniq n c"
    using assms unfolding bc_inv_def by simp_all
  have b: "busy ?c j \<longleftrightarrow> j = i \<or> busy c j" for j by (simp add: busy_def)
  have "LRU (lru_unlink i c) (as @ bs)" using L by (rule LRU_unlink)
  then have "LRU ?c (as @ bs)" by (simp add: LRU_upd)
  moreover have "set (as @ bs) = {j. j < n \<and> \<not> busy ?c j}"
  proof -
    have "set (as @ bs) = set (as @ i # bs) - {i}" using LRU_distinct [OF L] by auto
    then show ?thesis unfolding st b by blast
  qed
  moreover have "hash_over S ?c \<longleftrightarrow> hash_over S c" for S
    by (rule hash_over_cong) simp_all
  moreover have "hashed ?c = hashed c" "bkey ?c = bkey c"
    by (simp_all add: hashed_def bkey_def fun_eq_iff)
  ultimately show ?thesis using h u by (simp add: bc_inv_def hash_ok_def uniq_def)
qed

lemma getblk_hit:
  assumes "bc_inv n ls c" "i < n" "bkey c i = (dev, blk)" "dev \<noteq> -1" "\<not> busy c i"
  obtains c' as bs where "getblk dev blk c = Some (Some i, c')" "ls = as @ i # bs" "bc_inv n (as @ bs) c'"
    "\<forall>j. meta (bufs c' j) = (if j = i then meta (set_flags B_BUSY (bufs c i)) else meta (bufs c j))"
    "devs c' = devs c" "bdev_table c' = bdev_table c"
proof -
  from assms have "i \<in> set ls" by (simp add: bc_inv_def)
  then obtain as bs where "ls = as @ i # bs" by (meson split_list)
  moreover have "getblk dev blk c = Some (Some i, upd_buf i (set_flags B_BUSY) (lru_unlink i c))"
    using hash_lookup_hit [OF assms(1-4)] assms(5) by (simp add: getblk_def busy_def)
  ultimately show thesis using that bc_inv_take [of n as i bs c] assms(1)
    by (auto simp: meta_def)
qed

lemma getblk_exhausted:
  assumes "bc_inv n [] c" "\<And>i. i < n \<Longrightarrow> bkey c i \<noteq> (dev, blk)"
  shows "getblk dev blk c = Some (None, c)"
  using hash_lookup_miss [OF assms] assms(1)
  by (simp add: getblk_def evict_one_def bc_inv_def LRU_def)

text \<open>Evicting a clean victim: it leaves the LRU list and its old hash chain.\<close>

lemma evict_clean:
  assumes "bc_inv n (v # vs) c" "\<not> flag (b_flags (bufs c v)) B_DELWRI"
  obtains c' where "evict_one c = Some (Some v, c')" "LRU c' vs"
    "hash_over ({i. i < n \<and> hashed c i} - {v}) c'" "b_flags (bufs c' v) = B_BUSY"
    "\<forall>j. j \<noteq> v \<longrightarrow> meta (bufs c' j) = meta (bufs c j)" "b_data (bufs c' v) = b_data (bufs c v)"
    "devs c' = devs c" "bdev_table c' = bdev_table c"
proof -
  let ?S = "{i. i < n \<and> hashed c i}"
  from assms have L: "LRU c (v # vs)" "v < n" and H: "hash_over ?S c"
    by (auto simp: bc_inv_def hash_ok_def)
  let ?c0 = "lru_unlink v c"
  have L0: "LRU ?c0 vs" using L(1) by (rule LRU_unlink_head)
  have H0: "hash_over ?S ?c0" using H by (subst hash_over_cong [of _ c]) auto
  have head: "lru_head c = Some v" using L(1) by (auto simp: LRU_def dest: dlist_head)
  obtain c1 where c1: "(if b_dev (bufs ?c0 v) \<noteq> -1 then hash_remove v ?c0 else Some ?c0) = Some c1"
    "only_hash ?c0 c1" "hash_over (?S - {v}) c1"
  proof (cases "hashed c v")
    case True
    then have "v \<in> ?S" using L by simp
    from hash_remove_over [OF H0 this] True that show thesis by (auto simp: hashed_def)
  next
    case False
    then have "?S - {v} = ?S" by auto
    moreover have "only_hash ?c0 ?c0" by (rule only_hash_intro) auto
    ultimately show thesis using False H0 that by (auto simp: hashed_def)
  qed
  let ?c' = "upd_buf v (\<lambda>b. b\<lparr>b_flags := B_BUSY\<rparr>) c1"
  have "evict_one c = Some (Some v, ?c')"
    using head assms(2) c1(1) by (simp add: evict_one_def Let_def)
  moreover have "LRU ?c' vs" using L0 only_hashD [OF c1(2)] by (simp add: LRU_upd)
  moreover have "hash_over (?S - {v}) ?c'" using c1(3) by (simp add: hash_over_upd)
  ultimately show thesis using that only_hashD [OF c1(2)] by (simp add: meta_def)
qed

lemma getblk_miss:
  assumes "bc_inv n (v # vs) c" "\<And>i. i < n \<Longrightarrow> bkey c i \<noteq> (dev, blk)" "dev \<noteq> -1"
    "\<not> flag (b_flags (bufs c v)) B_DELWRI"
  obtains c' where "getblk dev blk c = Some (Some v, c')" "bc_inv n vs c'"
    "\<forall>j. meta (bufs c' j) = (if j = v then (dev, blk, B_BUSY, b_data (bufs c v)) else meta (bufs c j))"
    "devs c' = devs c" "bdev_table c' = bdev_table c"
proof -
  obtain c1 where c1: "evict_one c = Some (Some v, c1)" "LRU c1 vs"
    "hash_over ({i. i < n \<and> hashed c i} - {v}) c1" "b_flags (bufs c1 v) = B_BUSY"
    "\<forall>j. j \<noteq> v \<longrightarrow> meta (bufs c1 j) = meta (bufs c j)" "b_data (bufs c1 v) = b_data (bufs c v)"
    "devs c1 = devs c" "bdev_table c1 = bdev_table c" by (rule evict_clean [OF assms(1,4)])
  let ?c2 = "upd_buf v (\<lambda>b. b\<lparr>b_dev := dev, b_blkno := blk, b_bcount := BUF_BLOCK_SIZE,
    b_flags := B_BUSY, b_error := 0\<rparr>) c1"
  let ?c' = "hash_insert v ?c2"
  have H2: "hash_over ({i. i < n \<and> hashed c i} - {v}) ?c2" using c1(3) by (subst hash_over_upd) auto
  have v: "v < n" and d: "distinct (v # vs)"
    and st: "set (v # vs) = {i. i < n \<and> \<not> busy c i}" and u: "uniq n c"
    using assms(1) LRU_distinct [of c "v # vs"] unfolding bc_inv_def by auto
  from hash_insert_over [OF H2, of v] have H': "hash_over (insert v ({i. i < n \<and> hashed c i} - {v})) ?c'"
    and oh: "only_hash ?c2 ?c'" by auto
  have mt: "meta (bufs ?c' j) = (if j = v then (dev, blk, B_BUSY, b_data (bufs c v)) else meta (bufs c j))" for j
    using c1(5) c1(6) only_hashD [OF oh] by (auto simp: meta_def)
  have g: "getblk dev blk c = Some (Some v, ?c')"
    using hash_lookup_miss [OF assms(1,2)] c1(1) by (simp add: getblk_def)
  have key: "bkey ?c' j = (if j = v then (dev, blk) else bkey c j)"
    and bz: "busy ?c' j \<longleftrightarrow> j = v \<or> busy c j" and hs: "hashed ?c' j \<longleftrightarrow> j = v \<or> hashed c j" for j
    using assms(3) by (simp_all add: meta_views mt)
  have "bc_inv n vs ?c'" unfolding bc_inv_def
  proof (intro conjI)
    show "LRU ?c' vs" using c1(2) only_hashD [OF oh] by (simp add: LRU_upd)
    show "set vs = {i. i < n \<and> \<not> busy ?c' i}" using st d by (auto simp: bz)
    have "insert v ({i. i < n \<and> hashed c i} - {v}) = {i. i < n \<and> hashed ?c' i}" using v by (auto simp: hs)
    with H' show "hash_ok n ?c'" by (simp add: hash_ok_def)
    have "(dev, blk) \<noteq> bkey c i" "bkey c i \<noteq> (dev, blk)" if "i < n" for i
      using assms(2) [OF that] by auto
    with u show "uniq n ?c'" unfolding uniq_def key hs by (metis (full_types))
  qed
  moreover have "devs ?c' = devs c" "bdev_table ?c' = bdev_table c"
    using only_hashD [OF oh] c1 by simp_all
  ultimately show thesis using that g mt by blast
qed

subsection \<open>Releasing a buffer\<close>

lemma bc_inv_meta_upd:
  assumes "bc_inv n ls c" "\<And>b. lru_next (f b) = lru_next b" "\<And>b. lru_prev (f b) = lru_prev b"
    "\<And>b. hash_next (f b) = hash_next b" "\<And>b. b_dev (f b) = b_dev b" "\<And>b. b_blkno (f b) = b_blkno b"
    "\<And>b. flag (b_flags (f b)) B_BUSY = flag (b_flags b) B_BUSY"
  shows "bc_inv n ls (upd_buf i f c)"
proof -
  have "hash_over S (upd_buf i f c) \<longleftrightarrow> hash_over S c" for S
    using assms by (intro hash_over_cong) simp_all
  moreover have "hashed (upd_buf i f c) = hashed c" "bkey (upd_buf i f c) = bkey c" "busy (upd_buf i f c) = busy c"
    using assms by (simp_all add: hashed_def bkey_def busy_def fun_eq_iff)
  moreover have "LRU (upd_buf i f c) ls" using assms by (simp add: LRU_upd bc_inv_def)
  ultimately show ?thesis using assms(1) by (simp add: bc_inv_def hash_ok_def uniq_def)
qed

lemma bc_inv_devs [simp]: "bc_inv n ls (c\<lparr>devs := d\<rparr>) \<longleftrightarrow> bc_inv n ls c"
  by (simp add: bc_inv_def LRU_def HASH_def hash_ok_def hash_over_def uniq_def nxl_def [abs_def]
      pvl_def [abs_def] hnl_def [abs_def] busy_def bkey_def hashed_def hidx_def)

lemma brelse_inv:
  assumes "bc_inv n ls c" "i < n" "busy c i"
  shows "bc_inv n (ls @ [i]) (brelse (Some i) c)"
proof -
  let ?c1 = "upd_buf i (clr_flags B_BUSY) c" and ?c = "brelse (Some i) c"
  have L: "LRU c ls" and st: "set ls = {i. i < n \<and> \<not> busy c i}" and h: "hash_ok n c" and u: "uniq n c"
    using assms(1) unfolding bc_inv_def by simp_all
  have i: "i \<notin> set ls" using st assms(3) by simp
  have "LRU ?c1 ls" using L by (simp add: LRU_upd)
  then have "LRU ?c (ls @ [i])" using i by (simp add: brelse_def LRU_insert_tail)
  moreover have "set (ls @ [i]) = {j. j < n \<and> \<not> busy ?c j}"
    using st assms(2) by (auto simp: brelse_def busy_def)
  moreover have "hash_over S ?c \<longleftrightarrow> hash_over S c" for S
    by (rule hash_over_cong) (simp_all add: brelse_def)
  moreover have "hashed ?c = hashed c" "bkey ?c = bkey c"
    by (simp_all add: hashed_def bkey_def brelse_def fun_eq_iff)
  ultimately show ?thesis using h u by (simp add: bc_inv_def hash_ok_def uniq_def)
qed

lemma brelse_meta:
  "meta (bufs (brelse (Some i) c) j) = (if j = i then meta (clr_flags B_BUSY (bufs c i)) else meta (bufs c j))"
  "devs (brelse (Some i) c) = devs c" "bdev_table (brelse (Some i) c) = bdev_table c"
  by (simp_all add: brelse_def meta_def)

lemma slot_meta:
  assumes "meta b = meta b'"
  shows "slot_clean sw b \<longleftrightarrow> slot_clean sw b'" "slot_coherent sw d b \<longleftrightarrow> slot_coherent sw d b'"
  using assms by (simp_all add: slot_clean_def slot_coherent_def meta_def)

lemma slot_busy_flag [simp]:
  "slot_clean sw (set_flags B_BUSY b) \<longleftrightarrow> slot_clean sw b"
  "slot_clean sw (clr_flags B_BUSY b) \<longleftrightarrow> slot_clean sw b"
  "slot_coherent sw d (set_flags B_BUSY b) \<longleftrightarrow> slot_coherent sw d b"
  "slot_coherent sw d (clr_flags B_BUSY b) \<longleftrightarrow> slot_coherent sw d b"
  by (simp_all add: slot_clean_def slot_coherent_def)

lemma brelse_slot:
  "slot_clean sw (bufs (brelse (Some i) c) j) \<longleftrightarrow> slot_clean sw (bufs c j)"
  "slot_coherent sw d (bufs (brelse (Some i) c) j) \<longleftrightarrow> slot_coherent sw d (bufs c j)"
  by (simp_all add: brelse_def slot_clean_def slot_coherent_def)

lemma disk_st_brelse:
  assumes "disk_st sw n H c" "i \<in> H" "slot_coherent sw (devs c) (bufs c i)"
  shows "disk_st sw n (H - {i}) (brelse (Some i) c)"
proof -
  let ?c = "brelse (Some i) c"
  from assms obtain ls where ls: "bc_inv n ls c" "i < n" "busy c i" and H: "H = {i. i < n \<and> busy c i}"
    and sl: "\<And>j. j < n \<Longrightarrow> slot_clean sw (bufs c j)"
      "\<And>j. j < n \<Longrightarrow> j \<notin> H \<Longrightarrow> slot_coherent sw (devs c) (bufs c j)"
    unfolding disk_st_def by auto
  have "H - {i} = {j. j < n \<and> busy ?c j}"
    unfolding H by (auto simp: meta_views brelse_meta) (auto simp: meta_def)
  moreover have "\<forall>j < n. slot_clean sw (bufs ?c j)" using sl(1) by (simp add: brelse_slot)
  moreover have "\<forall>j < n. j \<notin> H - {i} \<longrightarrow> slot_coherent sw (devs c) (bufs ?c j)"
    using sl(2) assms(3) by (auto simp: brelse_slot)
  ultimately show ?thesis using brelse_inv [OF ls] assms(1) unfolding disk_st_def brelse_meta by blast
qed

lemma disk_st_step:
  assumes "disk_st sw n H c" "bc_inv n ls c'" "i < n" "i \<notin> H"
    "\<forall>j. meta (bufs c' j) = (if j = i then m else meta (bufs c j))"
    "devs c' = devs c" "bdev_table c' = bdev_table c" "busy c' i" "slot_clean sw (bufs c' i)"
  shows "disk_st sw n (insert i H) c'"
proof -
  have m: "meta (bufs c' j) = meta (bufs c j)" if "j \<noteq> i" for j using assms(5) that by simp
  have H: "H = {i. i < n \<and> busy c i}" using assms(1) by (simp add: disk_st_def)
  have "busy c' j \<longleftrightarrow> j = i \<or> busy c j" for j
    using assms(8) m [of j] by (cases "j = i") (simp_all add: meta_views)
  then have "insert i H = {j. j < n \<and> busy c' j}" using assms(3) unfolding H by auto
  moreover have "\<forall>j < n. slot_clean sw (bufs c' j)"
  proof (intro allI impI)
    fix j assume "j < n"
    then show "slot_clean sw (bufs c' j)"
      using assms(1,9) slot_meta(1) [OF m [of j], of sw] unfolding disk_st_def by (cases "j = i") auto
  qed
  moreover have "\<forall>j < n. j \<notin> insert i H \<longrightarrow> slot_coherent sw (devs c) (bufs c' j)"
  proof (intro allI impI)
    fix j assume "j < n" "j \<notin> insert i H"
    then show "slot_coherent sw (devs c) (bufs c' j)"
      using assms(1) slot_meta(2) [OF m [of j], of sw "devs c"] unfolding disk_st_def by auto
  qed
  moreover have "\<exists>ls. bc_inv n ls c'" using assms(2) by blast
  ultimately show ?thesis using assms(1) unfolding disk_st_def assms(6,7) by simp
qed

lemma disk_st_getblk:
  assumes "disk_st sw n H c" "H \<noteq> {..<n}" "dev \<noteq> -1" "\<forall>i \<in> H. bkey c i \<noteq> (dev, blk)"
  obtains i c' where "getblk dev blk c = Some (Some i, c')" "i < n" "i \<notin> H"
    "disk_st sw n (insert i H) c'" "bkey c' i = (dev, blk)" "slot_coherent sw (devs c) (bufs c' i)"
    "devs c' = devs c" "\<forall>j. j \<noteq> i \<longrightarrow> meta (bufs c' j) = meta (bufs c j)"
proof -
  from assms(1) obtain ls where inv: "bc_inv n ls c" and H: "H = {i. i < n \<and> busy c i}"
    and sl: "\<And>j. j < n \<Longrightarrow> slot_clean sw (bufs c j)"
      "\<And>j. j < n \<Longrightarrow> j \<notin> H \<Longrightarrow> slot_coherent sw (devs c) (bufs c j)"
    unfolding disk_st_def by auto
  show thesis
  proof (cases "\<exists>i < n. bkey c i = (dev, blk)")
    case True
    then obtain i where i: "i < n" "bkey c i = (dev, blk)" by blast
    with assms(4) H have ni: "i \<notin> H" "\<not> busy c i" by auto
    obtain c' as bs where g: "getblk dev blk c = Some (Some i, c')" "ls = as @ i # bs"
      "bc_inv n (as @ bs) c'"
      "\<forall>j. meta (bufs c' j) = (if j = i then meta (set_flags B_BUSY (bufs c i)) else meta (bufs c j))"
      "devs c' = devs c" "bdev_table c' = bdev_table c"
      by (rule getblk_hit [OF inv i assms(3) ni(2)])
    have mi: "meta (bufs c' i) = meta (set_flags B_BUSY (bufs c i))" using g(4) by simp
    have b: "busy c' i" and k: "bkey c' i = (dev, blk)"
      using i(2) by (simp_all add: meta_views mi) (simp_all add: meta_def bkey_def)
    have cl: "slot_clean sw (bufs c' i)" and co: "slot_coherent sw (devs c) (bufs c' i)"
      using sl(1) [OF i(1)] sl(2) [OF i(1) ni(1)] by (simp_all add: slot_meta [OF mi])
    have fr: "\<forall>j. j \<noteq> i \<longrightarrow> meta (bufs c' j) = meta (bufs c j)" using g(4) by auto
    show thesis
      by (rule that [OF g(1) i(1) ni(1) disk_st_step [OF assms(1) g(3) i(1) ni(1) g(4,5,6) b cl] k co g(5) fr])
  next
    case False
    then have nk: "\<And>i. i < n \<Longrightarrow> bkey c i \<noteq> (dev, blk)" by auto
    have st: "set ls = {i. i < n \<and> \<not> busy c i}" using inv by (simp add: bc_inv_def)
    have "H \<subseteq> {..<n}" unfolding H by blast
    with assms(2) obtain w where "w < n" "w \<notin> H" by blast
    then have "w \<in> set ls" unfolding st H by simp
    then obtain v vs where v1: "ls = v # vs" by (cases ls) simp_all
    then have "v \<in> {i. i < n \<and> \<not> busy c i}" unfolding st [symmetric] by simp
    then have v: "ls = v # vs" "v < n" "\<not> busy c v" "v \<notin> H" using v1 unfolding H by simp_all
    have "\<not> flag (b_flags (bufs c v)) B_DELWRI" using sl(1) [OF v(2)] by (simp add: slot_clean_def)
    from inv [unfolded v(1)] nk assms(3) this obtain c' where g: "getblk dev blk c = Some (Some v, c')"
      "bc_inv n vs c'"
      "\<forall>j. meta (bufs c' j) = (if j = v then (dev, blk, B_BUSY, b_data (bufs c v)) else meta (bufs c j))"
      "devs c' = devs c" "bdev_table c' = bdev_table c" by (rule getblk_miss)
    have mi: "meta (bufs c' v) = (dev, blk, B_BUSY, b_data (bufs c v))" using g(3) by simp
    have b: "busy c' v" and k: "bkey c' v = (dev, blk)" by (simp_all add: meta_views mi)
    have cl: "slot_clean sw (bufs c' v)" and co: "slot_coherent sw (devs c) (bufs c' v)"
      using mi sl(1) [OF v(2)] by (simp_all add: slot_clean_def slot_coherent_def meta_def)
    have fr: "\<forall>j. j \<noteq> v \<longrightarrow> meta (bufs c' j) = meta (bufs c j)" using g(3) by auto
    show thesis
      by (rule that [OF g(1) v(2,4) disk_st_step [OF assms(1) g(2) v(2,4) g(3-5) b cl] k co g(4) fr])
  qed
qed

lemma disk_st_upd:
  assumes "disk_st sw n H c" "i \<in> H"
    "\<And>b. lru_next (f b) = lru_next b" "\<And>b. lru_prev (f b) = lru_prev b"
    "\<And>b. hash_next (f b) = hash_next b" "\<And>b. b_dev (f b) = b_dev b" "\<And>b. b_blkno (f b) = b_blkno b"
    "\<And>b. flag (b_flags (f b)) B_BUSY = flag (b_flags b) B_BUSY" "slot_clean sw (f (bufs c i))"
  shows "disk_st sw n H (upd_buf i f c)"
proof -
  from assms(1) obtain ls where "bc_inv n ls c" unfolding disk_st_def by blast
  then have "bc_inv n ls (upd_buf i f c)" by (rule bc_inv_meta_upd) (fact assms)+
  moreover have "busy (upd_buf i f c) = busy c" using assms(8) by (simp add: busy_def fun_eq_iff)
  moreover have "\<forall>j < n. slot_clean sw (bufs (upd_buf i f c) j)"
    using assms(1,9) unfolding disk_st_def by simp
  moreover have "\<forall>j < n. j \<notin> H \<longrightarrow> slot_coherent sw (devs c) (bufs (upd_buf i f c) j)"
    using assms(1,2) unfolding disk_st_def by auto
  ultimately show ?thesis using assms(1) unfolding disk_st_def upd_buf_simps by auto
qed

lemma devs_same: "c\<lparr>bufs := f, devs := devs c\<rparr> = c\<lparr>bufs := f\<rparr>"
  by (cases c) simp

lemma upd_buf_devs: "upd_buf i f (c\<lparr>devs := d\<rparr>) = (upd_buf i f c)\<lparr>devs := d\<rparr>"
  by (cases c) (simp add: upd_buf_def)

lemma upd_buf_comp: "upd_buf i f (upd_buf i g c) = upd_buf i (\<lambda>b. f (g b)) c"
  by (simp add: upd_buf_def)

lemma written_fields [simp]:
  "b_dev (written b) = b_dev b" "b_blkno (written b) = b_blkno b" "b_data (written b) = b_data b"
  "lru_next (written b) = lru_next b" "lru_prev (written b) = lru_prev b" "hash_next (written b) = hash_next b"
  "flag (b_flags (written b)) B_BUSY \<longleftrightarrow> flag (b_flags b) B_BUSY" "flag (b_flags (written b)) B_VALID"
  "\<not> flag (b_flags (written b)) B_DELWRI" "\<not> flag (b_flags (written b)) B_WRITE"
  "flag (b_flags (written b)) B_READ \<longleftrightarrow> flag (b_flags b) B_READ"
  by (simp_all add: written_def biodone_def)

lemma LRU_devs: "LRU (c\<lparr>devs := d\<rparr>) ls \<longleftrightarrow> LRU c ls"
  by (simp add: LRU_def nxl_def [abs_def] pvl_def [abs_def])

lemma disk_st_uniq:
  assumes "disk_st sw n H c" "i < n" "j < n" "b_dev (bufs c i) \<noteq> -1"
    "b_dev (bufs c j) = b_dev (bufs c i)" "b_blkno (bufs c j) = b_blkno (bufs c i)"
  shows "j = i"
proof -
  from assms(1) have "uniq n c" unfolding disk_st_def bc_inv_def by blast
  with assms(2-) show ?thesis unfolding uniq_def hashed_def bkey_def by metis
qed

section \<open>The driver contract and the cache's guarantees over it\<close>

text \<open>
  What \<open>buf.c\<close> relies on from \<open>bdevsw[major].d_strategy\<close>: a request for an existing
  block completes before the strategy routine returns, a read delivers the block, a write
  replaces that block and no other.
\<close>

locale block_switch =
  fixes sw :: "'d switch"
  assumes serve_read: "on_disk sw (b_dev b) (b_blkno b) \<Longrightarrow> sw_ok sw d \<Longrightarrow> b_bcount b = BUF_BLOCK_SIZE \<Longrightarrow>
      flag (b_flags b) B_READ \<Longrightarrow> length (b_data b) = 512 \<Longrightarrow>
      \<exists>st. Option.bind (bdev_lookup (MAJOR (b_dev b)) (sw_table sw)) d_strategy = Some st
        \<and> st (MINOR (b_dev b)) b d
            = (biodone (b\<lparr>b_data := sw_content sw d (b_dev b) (b_blkno b), b_resid := 0\<rparr>), d)"
    and serve_write: "on_disk sw (b_dev b) (b_blkno b) \<Longrightarrow> sw_ok sw d \<Longrightarrow> b_bcount b = BUF_BLOCK_SIZE \<Longrightarrow>
      \<not> flag (b_flags b) B_READ \<Longrightarrow> length (b_data b) = 512 \<Longrightarrow>
      \<exists>st d'. Option.bind (bdev_lookup (MAJOR (b_dev b)) (sw_table sw)) d_strategy = Some st
        \<and> st (MINOR (b_dev b)) b d = (biodone (b\<lparr>b_resid := 0\<rparr>), d') \<and> sw_ok sw d'
        \<and> (\<forall>dev blk. on_disk sw dev blk \<longrightarrow> sw_content sw d' dev blk =
             (if dev = b_dev b \<and> blk = b_blkno b then b_data b else sw_content sw d dev blk))"
    and content_length: "on_disk sw dev blk \<Longrightarrow> sw_ok sw d \<Longrightarrow> length (sw_content sw d dev blk) = 512"
begin

lemma io_read:
  assumes "bdev_table c = sw_table sw" "sw_ok sw (devs c)" "b_bcount (bufs c i) = BUF_BLOCK_SIZE"
    "on_disk sw (b_dev (bufs c i)) (b_blkno (bufs c i))"
    "flag (b_flags (bufs c i)) B_READ" "length (b_data (bufs c i)) = 512"
  shows "strategy_and_wait i c = Some (0, upd_buf i (\<lambda>b. biodone ((clr_flags (B_DONE OR B_ERROR) b)
    \<lparr>b_data := sw_content sw (devs c) (b_dev b) (b_blkno b), b_resid := 0\<rparr>)) c)"
proof -
  let ?b = "(clr_flags (B_DONE OR B_ERROR) (bufs c i))\<lparr>b_resid := 0\<rparr>"
  obtain st where st: "Option.bind (bdev_lookup (MAJOR (b_dev ?b)) (sw_table sw)) d_strategy = Some st"
    "st (MINOR (b_dev ?b)) ?b (devs c)
       = (biodone (?b\<lparr>b_data := sw_content sw (devs c) (b_dev ?b) (b_blkno ?b), b_resid := 0\<rparr>), devs c)"
    using serve_read [of ?b "devs c"] assms(2-) by auto
  then show ?thesis using assms(1)
    by (simp add: strategy_and_wait_def Let_def biowait_def biodone_def upd_buf_def devs_same)
qed

lemma io_write:
  assumes "bdev_table c = sw_table sw" "sw_ok sw (devs c)" "b_bcount (bufs c i) = BUF_BLOCK_SIZE"
    "on_disk sw (b_dev (bufs c i)) (b_blkno (bufs c i))"
    "\<not> flag (b_flags (bufs c i)) B_READ" "length (b_data (bufs c i)) = 512"
  obtains d' where "strategy_and_wait i c
      = Some (0, upd_buf i (\<lambda>b. biodone ((clr_flags (B_DONE OR B_ERROR) b)\<lparr>b_resid := 0\<rparr>)) (c\<lparr>devs := d'\<rparr>))"
    "sw_ok sw d'" "\<forall>dev blk. on_disk sw dev blk \<longrightarrow> sw_content sw d' dev blk =
       (if dev = b_dev (bufs c i) \<and> blk = b_blkno (bufs c i) then b_data (bufs c i)
        else sw_content sw (devs c) dev blk)"
proof -
  let ?b = "(clr_flags (B_DONE OR B_ERROR) (bufs c i))\<lparr>b_resid := 0\<rparr>"
  obtain st d' where st: "Option.bind (bdev_lookup (MAJOR (b_dev ?b)) (sw_table sw)) d_strategy = Some st"
    "st (MINOR (b_dev ?b)) ?b (devs c) = (biodone (?b\<lparr>b_resid := 0\<rparr>), d')" "sw_ok sw d'"
    "\<forall>dev blk. on_disk sw dev blk \<longrightarrow> sw_content sw d' dev blk =
       (if dev = b_dev ?b \<and> blk = b_blkno ?b then b_data ?b else sw_content sw (devs c) dev blk)"
    using serve_write [of ?b "devs c"] assms(2-) by auto
  then show thesis using assms(1) that [of d']
    by (simp add: strategy_and_wait_def Let_def biowait_def biodone_def upd_buf_def)
qed

lemma bread_ok:
  assumes "disk_st sw n H c" "H \<noteq> {..<n}" "on_disk sw dev blk" "\<forall>i \<in> H. bkey c i \<noteq> (dev, blk)"
  obtains i c' where "bread dev blk c = Some (Some i, c')" "i < n" "i \<notin> H"
    "disk_st sw n (insert i H) c'" "bkey c' i = (dev, blk)"
    "b_data (bufs c' i) = sw_content sw (devs c) dev blk" "slot_coherent sw (devs c) (bufs c' i)"
    "devs c' = devs c"
proof -
  have dev: "dev \<noteq> -1" using assms(3) by (simp add: on_disk_def)
  obtain i c1 where g: "getblk dev blk c = Some (Some i, c1)" "i < n" "i \<notin> H"
    "disk_st sw n (insert i H) c1" "bkey c1 i = (dev, blk)" "slot_coherent sw (devs c) (bufs c1 i)"
    "devs c1 = devs c" "\<forall>j. j \<noteq> i \<longrightarrow> meta (bufs c1 j) = meta (bufs c j)"
    by (rule disk_st_getblk [OF assms(1,2) dev assms(4)])
  have k: "b_dev (bufs c1 i) = dev" "b_blkno (bufs c1 i) = blk" using g(5) by (simp_all add: bkey_def)
  have cl: "slot_clean sw (bufs c1 i)" and tb: "bdev_table c1 = sw_table sw" "sw_ok sw (devs c1)"
    using g(2,4) unfolding disk_st_def by auto
  show thesis
  proof (cases "flag (b_flags (bufs c1 i)) B_VALID")
    case True
    then have "bread dev blk c = Some (Some i, c1)" using g(1) by (simp add: bread_def)
    moreover have "b_data (bufs c1 i) = sw_content sw (devs c) dev blk"
      using g(6) True assms(3) by (simp add: slot_coherent_def k)
    ultimately show thesis using that g by blast
  next
    case False
    let ?f = "\<lambda>b. set_flags B_READ (b\<lparr>b_bcount := BUF_BLOCK_SIZE\<rparr>)"
    let ?g = "\<lambda>b. biodone ((clr_flags (B_DONE OR B_ERROR) b)
      \<lparr>b_data := sw_content sw (devs c) (b_dev b) (b_blkno b), b_resid := 0\<rparr>)"
    let ?h = "\<lambda>b. clr_flags B_READ (set_flags B_VALID b)"
    let ?c' = "upd_buf i (\<lambda>b. ?h (?g (?f b))) c1"
    have "strategy_and_wait i (upd_buf i ?f c1) = Some (0, upd_buf i ?g (upd_buf i ?f c1))"
      using io_read [of "upd_buf i ?f c1" i] tb cl assms(3) g(7) by (simp add: k slot_clean_def)
    moreover have "upd_buf i ?h (upd_buf i ?g (upd_buf i ?f c1)) = ?c'" by (simp add: upd_buf_def)
    ultimately have "bread dev blk c = Some (Some i, ?c')" using g(1) False by (simp add: bread_def)
    moreover have "disk_st sw n (insert i H) ?c'"
      using cl assms(3) content_length [of dev blk "devs c"] tb g(7) k
      by (intro disk_st_upd [OF g(4)]) (simp_all add: biodone_def slot_clean_def)
    ultimately show thesis using that [of i ?c'] g(2,3,7) k
      by (simp add: bkey_def biodone_def slot_coherent_def)
  qed
qed

lemma bwrite_effect:
  assumes "bdev_table c = sw_table sw" "sw_ok sw (devs c)" "bkey c i = (dev, blk)" "on_disk sw dev blk"
    "\<not> flag (b_flags (bufs c i)) B_READ" "length (b_data (bufs c i)) = 512"
  obtains d' where "bwrite (Some i) c = Some (0, brelse (Some i) ((upd_buf i written c)\<lparr>devs := d'\<rparr>))"
    "sw_ok sw d'" "\<forall>dev' blk'. on_disk sw dev' blk' \<longrightarrow> sw_content sw d' dev' blk' =
       (if dev' = dev \<and> blk' = blk then b_data (bufs c i) else sw_content sw (devs c) dev' blk')"
proof -
  let ?f = "\<lambda>b. set_flags B_WRITE (b\<lparr>b_bcount := BUF_BLOCK_SIZE\<rparr>)"
  let ?g = "\<lambda>b. biodone ((clr_flags (B_DONE OR B_ERROR) b)\<lparr>b_resid := 0\<rparr>)"
  have k: "b_dev (bufs c i) = dev" "b_blkno (bufs c i) = blk" using assms(3) by (simp_all add: bkey_def)
  have pre: "bdev_table (upd_buf i ?f c) = sw_table sw" "sw_ok sw (devs (upd_buf i ?f c))"
    "b_bcount (bufs (upd_buf i ?f c) i) = BUF_BLOCK_SIZE"
    "on_disk sw (b_dev (bufs (upd_buf i ?f c) i)) (b_blkno (bufs (upd_buf i ?f c) i))"
    "\<not> flag (b_flags (bufs (upd_buf i ?f c) i)) B_READ" "length (b_data (bufs (upd_buf i ?f c) i)) = 512"
    using assms by (simp_all add: k)
  obtain d' where io: "strategy_and_wait i (upd_buf i ?f c)
      = Some (0, upd_buf i ?g ((upd_buf i ?f c)\<lparr>devs := d'\<rparr>))" and d': "sw_ok sw d'"
    and ct: "\<forall>dev' blk'. on_disk sw dev' blk' \<longrightarrow> sw_content sw d' dev' blk' =
       (if dev' = b_dev (bufs (upd_buf i ?f c) i) \<and> blk' = b_blkno (bufs (upd_buf i ?f c) i)
        then b_data (bufs (upd_buf i ?f c) i) else sw_content sw (devs (upd_buf i ?f c)) dev' blk')"
    by (rule io_write [OF pre])
  have "bwrite (Some i) c = Some (0, brelse (Some i) ((upd_buf i written c)\<lparr>devs := d'\<rparr>))"
    by (simp add: bwrite_def io upd_buf_devs upd_buf_comp written_def [abs_def])
  with that d' ct show thesis by (simp add: k)
qed

lemma bwrite_ok:
  assumes "disk_st sw n H c" "i \<in> H" "bkey c i = (dev, blk)" "on_disk sw dev blk"
  obtains c' where "bwrite (Some i) c = Some (0, c')" "disk_st sw n (H - {i}) c'"
    "\<forall>dev' blk'. on_disk sw dev' blk' \<longrightarrow> sw_content sw (devs c') dev' blk' =
       (if dev' = dev \<and> blk' = blk then b_data (bufs c i) else sw_content sw (devs c) dev' blk')"
proof -
  have k: "b_dev (bufs c i) = dev" "b_blkno (bufs c i) = blk" using assms(3) by (simp_all add: bkey_def)
  have i: "i < n" and cl: "slot_clean sw (bufs c i)" and tb: "bdev_table c = sw_table sw" "sw_ok sw (devs c)"
    using assms(1,2) unfolding disk_st_def by auto
  have nr: "\<not> flag (b_flags (bufs c i)) B_READ" "length (b_data (bufs c i)) = 512"
    using cl assms(4) by (simp_all add: slot_clean_def k)
  obtain d' where bw: "bwrite (Some i) c = Some (0, brelse (Some i) ((upd_buf i written c)\<lparr>devs := d'\<rparr>))"
    and d': "sw_ok sw d'" and ct: "\<forall>dev' blk'. on_disk sw dev' blk' \<longrightarrow> sw_content sw d' dev' blk' =
       (if dev' = dev \<and> blk' = blk then b_data (bufs c i) else sw_content sw (devs c) dev' blk')"
    by (rule bwrite_effect [OF tb assms(3,4) nr])
  let ?c1 = "upd_buf i written c" and ?c2 = "(upd_buf i written c)\<lparr>devs := d'\<rparr>"
  have st1: "disk_st sw n H ?c1"
    using cl assms(4) k by (intro disk_st_upd [OF assms(1,2)]) (simp_all add: slot_clean_def)
  have coh: "slot_coherent sw d' (bufs ?c1 j)" if "j < n" "j \<notin> H" for j
  proof -
    have "j \<noteq> i" using that assms(2) by blast
    then have "\<not> (b_dev (bufs c j) = dev \<and> b_blkno (bufs c j) = blk)"
      using disk_st_uniq [OF assms(1) i that(1)] k assms(4) by (auto simp: on_disk_def)
    moreover have "slot_coherent sw (devs c) (bufs c j)" using assms(1) that unfolding disk_st_def by blast
    ultimately show ?thesis using ct \<open>j \<noteq> i\<close> by (auto simp: slot_coherent_def)
  qed
  have "busy ?c2 = busy ?c1" by (simp add: busy_def fun_eq_iff)
  then have st2: "disk_st sw n H ?c2" using st1 d' coh unfolding disk_st_def by simp
  have "slot_coherent sw (devs ?c2) (bufs ?c2 i)"
    using ct assms(4) by (simp add: slot_coherent_def k)
  from disk_st_brelse [OF st2 assms(2) this] have "disk_st sw n (H - {i}) (brelse (Some i) ?c2)" .
  with bw show thesis using that ct by (simp add: brelse_meta)
qed

text \<open>
  Evicting a dirty victim: \<open>bwrite\<close> releases the buffer onto the LRU list before
  \<open>evict_one\<close> hands it out.
\<close>

lemma evict_dirty:
  assumes "bc_inv n (v # vs) c" "flag (b_flags (bufs c v)) B_DELWRI" "\<not> flag (b_flags (bufs c v)) B_READ"
    "length (b_data (bufs c v)) = 512" "bdev_table c = sw_table sw" "sw_ok sw (devs c)"
    "on_disk sw (b_dev (bufs c v)) (b_blkno (bufs c v))"
  obtains c' where "evict_one c = Some (Some v, c')" "LRU c' (vs @ [v])" "b_flags (bufs c' v) = B_BUSY"
proof -
  let ?S = "{i. i < n \<and> hashed c i}" and ?c0 = "lru_unlink v c"
  have L: "LRU c (v # vs)" "v < n" and H: "hash_over ?S c"
    using assms(1) unfolding bc_inv_def hash_ok_def by auto
  have L0: "LRU ?c0 vs" using L(1) by (rule LRU_unlink_head)
  have head: "lru_head c = Some v" using L(1) by (auto simp: LRU_def dest: dlist_head)
  have vv: "v \<notin> set vs" using LRU_distinct [OF L(1)] by simp
  have hv: "v \<in> ?S" using L(2) assms(7) by (simp add: hashed_def on_disk_def)
  obtain d' where bw: "bwrite (Some v) ?c0 = Some (0, brelse (Some v) ((upd_buf v written ?c0)\<lparr>devs := d'\<rparr>))"
    by (rule bwrite_effect [of ?c0 v "b_dev (bufs c v)" "b_blkno (bufs c v)"])
       (use assms in \<open>simp_all add: bkey_def\<close>)
  let ?c1 = "brelse (Some v) ((upd_buf v written ?c0)\<lparr>devs := d'\<rparr>)"
  have "LRU (upd_buf v (clr_flags B_BUSY) ((upd_buf v written ?c0)\<lparr>devs := d'\<rparr>)) vs"
    using L0 by (simp add: LRU_upd upd_buf_devs LRU_devs)
  then have L1: "LRU ?c1 (vs @ [v])" using vv by (simp add: brelse_def LRU_insert_tail)
  have "hash_over ?S ?c1 \<longleftrightarrow> hash_over ?S c"
    by (rule hash_over_cong) (simp_all add: brelse_def)
  then have "hash_over ?S ?c1" using H by simp
  from hash_remove_over [OF this hv] obtain c2 where c2: "hash_remove v ?c1 = Some c2" "only_hash ?c1 c2" by metis
  let ?c' = "upd_buf v (\<lambda>b. b\<lparr>b_flags := B_BUSY\<rparr>) c2"
  have "b_dev (bufs ?c1 v) \<noteq> -1" using assms(7) by (simp add: brelse_def on_disk_def)
  then have "evict_one c = Some (Some v, ?c')"
    using head assms(2) bw c2(1) by (simp add: evict_one_def Let_def)
  moreover have "LRU ?c' (vs @ [v])" using L1 only_hashD(5) [OF c2(2)] by (simp add: LRU_upd)
  ultimately show thesis using that by simp
qed

end

end
