(* ===== verification/Blockdev.thy ===== *)
theory Blockdev
  imports Buf
begin

text \<open>
  The in-memory block drivers (\<open>uts/os/fs/ramdisk.c\<close>, \<open>uts/os/io/bram.c\<close>), their
  registration in the block-device switch, and the two block adapters of
  \<open>uts/os/fs/kfs.c\<close> through which the file system reads and writes blocks. The drivers
  discharge the cache's driver contract; over it the adapters are shown to behave as an array
  of 512-byte blocks, whatever the cache evicts in between.
\<close>

section \<open>Definitions\<close>

definition BLK_SIZE :: u32 where [consts_def]: "BLK_SIZE = 512"
definition RAMDISK0_BLOCKS :: u32 where [consts_def]: "RAMDISK0_BLOCKS = 2048"
definition RAMDISK1_BLOCKS :: u32 where [consts_def]: "RAMDISK1_BLOCKS = 1024"
definition RAMDISK_MINOR_USRBIN :: u32 where [consts_def]: "RAMDISK_MINOR_USRBIN = 0"
definition RAMDISK_MINOR_HOME :: u32 where [consts_def]: "RAMDISK_MINOR_HOME = 1"
definition BRAM_BLOCKS :: u64 where [consts_def]: "BRAM_BLOCKS = 512"
definition BDEV_MAJ_RAM :: u32 where [consts_def]: "BDEV_MAJ_RAM = 1"
definition BDEV_MAJ_RAMDISK :: u32 where [consts_def]: "BDEV_MAJ_RAMDISK = 3"

record disks =
  ramdisk0_storage :: bytes
  ramdisk1_storage :: bytes
  bram_data :: bytes

text \<open>The error completion both drivers use.\<close>

definition io_error :: "buf \<Rightarrow> buf" where
  "io_error b = biodone ((set_flags B_ERROR b)\<lparr>b_error := -1, b_resid := b_bcount b\<rparr>)"

definition ramdisk_xfer :: "bytes \<Rightarrow> u32 \<Rightarrow> (bytes \<Rightarrow> disks \<Rightarrow> disks) \<Rightarrow> buf \<Rightarrow> disks \<Rightarrow> buf \<times> disks" where
  "ramdisk_xfer base cap store b d =
     (if b_blkno b \<ge> ucast cap \<or> b_bcount b \<noteq> BLK_SIZE then (io_error b, d)
      else let off = unat (b_blkno b * ucast BLK_SIZE) in
        if flag (b_flags b) B_READ
        then (biodone (b\<lparr>b_data := blit (b_data b) 0 (subbytes off (unat BLK_SIZE) base), b_resid := 0\<rparr>), d)
        else (biodone (b\<lparr>b_resid := 0\<rparr>), store (blit base off (subbytes 0 (unat BLK_SIZE) (b_data b))) d))"

definition ramdisk_strategy :: "u32 \<Rightarrow> buf \<Rightarrow> disks \<Rightarrow> buf \<times> disks" where
  "ramdisk_strategy minor b d =
     (if minor = RAMDISK_MINOR_USRBIN
      then ramdisk_xfer (ramdisk0_storage d) RAMDISK0_BLOCKS (\<lambda>s. ramdisk0_storage_update (\<lambda>_. s)) b d
      else if minor = RAMDISK_MINOR_HOME
      then ramdisk_xfer (ramdisk1_storage d) RAMDISK1_BLOCKS (\<lambda>s. ramdisk1_storage_update (\<lambda>_. s)) b d
      else (io_error b, d))"

definition bram_strategy :: "u32 \<Rightarrow> buf \<Rightarrow> disks \<Rightarrow> buf \<times> disks" where
  "bram_strategy minor b d =
     (if b_blkno b \<ge> BRAM_BLOCKS \<or> b_bcount b > BUF_BLOCK_SIZE then (io_error b, d)
      else let off = unat (b_blkno b) * unat BUF_BLOCK_SIZE; n = unat (b_bcount b) in
        if flag (b_flags b) B_READ
        then (biodone (b\<lparr>b_data := blit (b_data b) 0 (subbytes off n (bram_data d)), b_resid := 0\<rparr>), d)
        else (biodone (b\<lparr>b_resid := 0\<rparr>),
              d\<lparr>bram_data := blit (bram_data d) off (subbytes 0 n (b_data b))\<rparr>))"

definition ramdisk_entry :: "disks bdev_entry" where
  "ramdisk_entry = \<lparr>bdev_name = ''ramdisk'', d_strategy = Some ramdisk_strategy, block_size = BLK_SIZE\<rparr>"

definition bram_entry :: "disks bdev_entry" where
  "bram_entry = \<lparr>bdev_name = ''ram'', d_strategy = Some bram_strategy, block_size = BUF_BLOCK_SIZE\<rparr>"

text \<open>The block-device handles a file system carries.\<close>

record block_device =
  bd_name :: string
  bd_nblocks :: u32
  bd_dev :: u32

definition ramdisk_bd :: block_device where
  "ramdisk_bd = \<lparr>bd_name = ''ramdisk0'', bd_nblocks = RAMDISK0_BLOCKS,
     bd_dev = MKDEV BDEV_MAJ_RAMDISK RAMDISK_MINOR_USRBIN\<rparr>"

definition ramdisk_home_bd :: block_device where
  "ramdisk_home_bd = \<lparr>bd_name = ''ramdisk1'', bd_nblocks = RAMDISK1_BLOCKS,
     bd_dev = MKDEV BDEV_MAJ_RAMDISK RAMDISK_MINOR_HOME\<rparr>"

text \<open>
  The boot-time effects on the disks and the switch. The \<open>/dev\<close> nodes and the console lines
  of these routines are not part of this state.
\<close>

definition ramdisk_init :: "disks bcache \<Rightarrow> disks bcache" where
  "ramdisk_init c =
     c\<lparr>devs := (devs c)\<lparr>ramdisk0_storage := replicate (unat (RAMDISK0_BLOCKS * BLK_SIZE)) 0\<rparr>,
       bdev_table := snd (bdev_register BDEV_MAJ_RAMDISK (Some ramdisk_entry) (bdev_table c))\<rparr>"

definition ramdisk_home_init :: "disks bcache \<Rightarrow> disks bcache" where
  "ramdisk_home_init c =
     c\<lparr>devs := (devs c)\<lparr>ramdisk1_storage := replicate (unat (RAMDISK1_BLOCKS * BLK_SIZE)) 0\<rparr>\<rparr>"

definition bram_init :: "disks bcache \<Rightarrow> disks bcache" where
  "bram_init c = c\<lparr>bdev_table := snd (bdev_register BDEV_MAJ_RAM (Some bram_entry) (bdev_table c))\<rparr>"

text \<open>
  The block adapters of \<open>kfs.c\<close>. The outer \<open>option\<close> is the sleeping case of
  \<open>getblk\<close>; the inner result of a read is \<open>None\<close> for the return value -1.
\<close>

definition bd_read_block :: "block_device \<Rightarrow> u32 \<Rightarrow> 'd bcache \<Rightarrow> (bytes option \<times> 'd bcache) option" where
  "bd_read_block bd blkno c =
     do { (r, c1) \<leftarrow> bread (bd_dev bd) (ucast blkno) c;
          Some (case r of
                  None \<Rightarrow> (None, c1)
                | Some bp \<Rightarrow> (Some (subbytes 0 (unat BLK_SIZE) (b_data (bufs c1 bp))), brelse (Some bp) c1)) }"

definition bd_write_block :: "block_device \<Rightarrow> u32 \<Rightarrow> bytes \<Rightarrow> 'd bcache \<Rightarrow> (int \<times> 'd bcache) option" where
  "bd_write_block bd blkno inp c =
     do { (r, c1) \<leftarrow> getblk (bd_dev bd) (ucast blkno) c;
          (case r of
             None \<Rightarrow> Some (-1, c1)
           | Some bp \<Rightarrow> bwrite (Some bp)
               (upd_buf bp (\<lambda>b. set_flags B_VALID
                  (b\<lparr>b_data := blit (b_data b) 0 (subbytes 0 (unat BLK_SIZE) inp)\<rparr>)) c1)) }"

text \<open>The switch and disks after boot, as the cache's driver contract sees them.\<close>

definition boot_table :: "u32 \<Rightarrow> disks bdev_entry option" where
  "boot_table = (\<lambda>_. None)(BDEV_MAJ_RAMDISK := Some ramdisk_entry, BDEV_MAJ_RAM := Some bram_entry)"

definition disks_ok :: "disks \<Rightarrow> bool" where
  "disks_ok d \<longleftrightarrow> length (ramdisk0_storage d) = 2048 * 512 \<and> length (ramdisk1_storage d) = 1024 * 512
     \<and> length (bram_data d) = 512 * 512"

definition boot_cap :: "u32 \<Rightarrow> nat" where
  "boot_cap dev = (if dev = MKDEV BDEV_MAJ_RAMDISK RAMDISK_MINOR_USRBIN then 2048
     else if dev = MKDEV BDEV_MAJ_RAMDISK RAMDISK_MINOR_HOME then 1024
     else if dev = MKDEV BDEV_MAJ_RAM 0 then 512 else 0)"

definition boot_content :: "disks \<Rightarrow> u32 \<Rightarrow> u64 \<Rightarrow> bytes" where
  "boot_content d dev blk = subbytes (unat blk * 512) 512
     (if dev = MKDEV BDEV_MAJ_RAMDISK RAMDISK_MINOR_USRBIN then ramdisk0_storage d
      else if dev = MKDEV BDEV_MAJ_RAMDISK RAMDISK_MINOR_HOME then ramdisk1_storage d
      else bram_data d)"

definition boot_switch :: "disks switch" where
  "boot_switch = \<lparr>sw_table = boot_table, sw_ok = disks_ok, sw_cap = boot_cap, sw_content = boot_content\<rparr>"

text \<open>The order of initialisation in \<open>kmain\<close>.\<close>

definition boot_cache :: "(nat \<Rightarrow> bytes option) \<Rightarrow> disks bcache \<Rightarrow> disks bcache" where
  "boot_cache kmallocs c = bram_init (ramdisk_home_init (ramdisk_init (buf_init kmallocs c)))"

text \<open>The static storage before any initialisation: all zero.\<close>

definition bss_buf :: buf where
  "bss_buf = \<lparr>b_dev = 0, b_blkno = 0, b_bcount = 0, b_resid = 0, b_flags = 0, b_error = 0, b_data = [],
     lru_prev = None, lru_next = None, hash_next = None\<rparr>"

definition bss_cache :: "disks bcache" where
  "bss_cache = \<lparr>bufs = (\<lambda>_. bss_buf), buf_hash = (\<lambda>_. None), lru_head = None, lru_tail = None,
     bdev_table = (\<lambda>_. None),
     devs = \<lparr>ramdisk0_storage = replicate (2048 * 512) 0, ramdisk1_storage = replicate (1024 * 512) 0,
             bram_data = replicate (512 * 512) 0\<rparr>\<rparr>"

definition cold_cache :: "disks bcache \<Rightarrow> bool" where
  "cold_cache c \<longleftrightarrow> lru_head c = None \<and> lru_tail c = None \<and> buf_hash c = (\<lambda>_. None)
     \<and> bdev_table c = (\<lambda>_. None) \<and> length (bram_data (devs c)) = 512 * 512"

text \<open>A quiet cache (no slot checked out) over the image \<open>D\<close> of the device \<open>bd\<close>.\<close>

definition disk_image :: "disks bcache \<Rightarrow> block_device \<Rightarrow> (nat \<Rightarrow> bytes) \<Rightarrow> bool" where
  "disk_image c bd D \<longleftrightarrow> disk_st boot_switch BUF_POOL_SIZE {} c
     \<and> unat (bd_nblocks bd) \<le> boot_cap (bd_dev bd)
     \<and> (\<forall>b < unat (bd_nblocks bd). boot_content (devs c) (bd_dev bd) (of_nat b) = D b)"

text \<open>A sequence of block transfers, on the adapters and on an array of blocks.\<close>

datatype blkop = Rd u32 | Wr u32 bytes

fun run_blk :: "('h \<Rightarrow> u32 \<Rightarrow> 's \<Rightarrow> (bytes option \<times> 's) option) \<Rightarrow>
    ('h \<Rightarrow> u32 \<Rightarrow> bytes \<Rightarrow> 's \<Rightarrow> (int \<times> 's) option) \<Rightarrow> 'h \<Rightarrow> blkop list \<Rightarrow> 's \<Rightarrow> (bytes list \<times> 's) option" where
  "run_blk rd wr h [] s = Some ([], s)"
| "run_blk rd wr h (Rd b # ops) s =
     (case rd h b s of Some (Some x, s') \<Rightarrow> map_option (apfst ((#) x)) (run_blk rd wr h ops s') | _ \<Rightarrow> None)"
| "run_blk rd wr h (Wr b x # ops) s =
     (case wr h b x s of Some (rc, s') \<Rightarrow> if rc = 0 then run_blk rd wr h ops s' else None | None \<Rightarrow> None)"

fun run_array :: "blkop list \<Rightarrow> (nat \<Rightarrow> bytes) \<Rightarrow> bytes list \<times> (nat \<Rightarrow> bytes)" where
  "run_array [] D = ([], D)"
| "run_array (Rd b # ops) D = apfst ((#) (D (unat b))) (run_array ops D)"
| "run_array (Wr b x # ops) D = run_array ops (D(unat b := x))"

fun blkop_ok :: "nat \<Rightarrow> blkop \<Rightarrow> bool" where
  "blkop_ok n (Rd b) \<longleftrightarrow> unat b < n"
| "blkop_ok n (Wr b x) \<longleftrightarrow> unat b < n \<and> length x = 512"

text \<open>A one-slot cache over a device that fails its first request (state 0) and works afterwards.\<close>

definition flaky_strategy :: "u32 \<Rightarrow> buf \<Rightarrow> nat \<Rightarrow> buf \<times> nat" where
  "flaky_strategy minor b d =
     (if d = 0 then (io_error b, 1)
      else if flag (b_flags b) B_READ then (biodone (b\<lparr>b_data := replicate 512 0, b_resid := 0\<rparr>), d)
      else (biodone (b\<lparr>b_resid := 0\<rparr>), d + 1))"

definition flaky_cache :: "nat bcache" where
  "flaky_cache = \<lparr>bufs = (\<lambda>_. bss_buf\<lparr>b_dev := -1\<rparr>), buf_hash = (\<lambda>_. None), lru_head = Some 0, lru_tail = Some 0,
     bdev_table = (\<lambda>_. None)(4 := Some \<lparr>bdev_name = ''flaky'', d_strategy = Some flaky_strategy, block_size = 512\<rparr>),
     devs = 0\<rparr>"

definition dirty_cache :: "disks bcache" where
  "dirty_cache = bss_cache\<lparr>bufs := (\<lambda>_. bss_buf)(0 := bss_buf\<lparr>b_dev := 0x03000001, b_blkno := 1,
       b_flags := B_DELWRI OR B_VALID, b_data := replicate 512 7\<rparr>),
     buf_hash := (\<lambda>_. None)(buf_hash_idx 0x03000001 1 := Some 0),
     lru_head := Some 0, lru_tail := Some 0, bdev_table := boot_table\<rparr>"

section \<open>The drivers meet the cache's contract\<close>

lemma dev_numbers [simp]:
  "MKDEV BDEV_MAJ_RAMDISK RAMDISK_MINOR_USRBIN = 0x03000000"
  "MKDEV BDEV_MAJ_RAMDISK RAMDISK_MINOR_HOME = 0x03000001" "MKDEV BDEV_MAJ_RAM 0 = 0x01000000"
  "MKDEV 3 0 = 0x03000000" "MKDEV 3 1 = 0x03000001" "MKDEV 1 0 = 0x01000000"
  by (simp_all add: MKDEV_def consts_def)

lemma dev_split [simp]:
  "MAJOR 0x03000000 = 3" "MAJOR 0x03000001 = 3" "MAJOR 0x01000000 = 1"
  "MINOR 0x03000000 = 0" "MINOR 0x03000001 = 1" "MINOR 0x01000000 = 0"
  by (simp_all add: MAJOR_def MINOR_def)

lemma boot_lookup [simp]:
  "bdev_lookup 3 boot_table = Some ramdisk_entry" "bdev_lookup 1 boot_table = Some bram_entry"
  by (simp_all add: bdev_lookup_def boot_table_def consts_def word_le_nat_alt)

lemma entry_strategies [simp]:
  "d_strategy ramdisk_entry = Some ramdisk_strategy" "d_strategy bram_entry = Some bram_strategy"
  by (simp_all add: ramdisk_entry_def bram_entry_def)

lemma on_disk_cases:
  assumes "on_disk boot_switch dev blk"
  obtains "dev = 0x03000000" "unat blk < 2048" | "dev = 0x03000001" "unat blk < 1024"
    | "dev = 0x01000000" "unat blk < 512"
  using assms by (auto simp: on_disk_def boot_switch_def boot_cap_def split: if_splits)

text \<open>A whole-block transfer at an in-range block number.\<close>

lemma blk_offset: "unat (blk :: u64) < 2048 \<Longrightarrow> unat (blk * 512) = unat blk * 512"
  by (simp add: unat_word_ariths)

lemma ramdisk_xfer_ok:
  assumes "unat (b_blkno b) < unat cap" "unat cap \<le> 2048" "b_bcount b = BUF_BLOCK_SIZE"
  shows "ramdisk_xfer base cap store b d =
    (if flag (b_flags b) B_READ
     then (biodone (b\<lparr>b_data := blit (b_data b) 0 (subbytes (unat (b_blkno b) * 512) 512 base), b_resid := 0\<rparr>), d)
     else (biodone (b\<lparr>b_resid := 0\<rparr>), store (blit base (unat (b_blkno b) * 512) (subbytes 0 512 (b_data b))) d))"
proof -
  have "\<not> b_blkno b \<ge> ucast cap" using assms(1) by (simp add: word_le_nat_alt)
  with assms blk_offset [of "b_blkno b"] show ?thesis by (simp add: ramdisk_xfer_def consts_def)
qed

lemma bram_ok:
  assumes "unat (b_blkno b) < 512" "b_bcount b = BUF_BLOCK_SIZE"
  shows "bram_strategy mn b d =
    (if flag (b_flags b) B_READ
     then (biodone (b\<lparr>b_data := blit (b_data b) 0 (subbytes (unat (b_blkno b) * 512) 512 (bram_data d)), b_resid := 0\<rparr>), d)
     else (biodone (b\<lparr>b_resid := 0\<rparr>),
           d\<lparr>bram_data := blit (bram_data d) (unat (b_blkno b) * 512) (subbytes 0 512 (b_data b))\<rparr>))"
proof -
  have "\<not> b_blkno b \<ge> 512" using assms(1) by (simp add: word_le_nat_alt)
  with assms show ?thesis by (simp add: bram_strategy_def consts_def)
qed

lemma content_in_range:
  "on_disk boot_switch dev blk \<Longrightarrow> disks_ok d \<Longrightarrow> length (boot_content d dev blk) = 512"
  by (erule on_disk_cases) (simp_all add: boot_content_def disks_ok_def)

text \<open>Overwriting one block changes that block and no other.\<close>

lemma blit_block:
  assumes "i * 512 + 512 \<le> length base" "length x = 512"
  shows "subbytes (j * 512) 512 (blit base (i * 512) x) = (if j = i then x else subbytes (j * 512) 512 base)"
proof (cases "j = i")
  case True
  with assms subbytes_blit_same [of "i * 512" x base] show ?thesis by simp
next
  case False
  then have "j * 512 + 512 \<le> i * 512 \<or> i * 512 + 512 \<le> j * 512" by linarith
  with False assms subbytes_blit_other [of "i * 512" x base "j * 512" 512] show ?thesis by simp
qed

lemma boot_strategy:
  assumes "on_disk boot_switch (b_dev b) (b_blkno b)" "b_bcount b = BUF_BLOCK_SIZE"
    "disks_ok d" "length (b_data b) = 512"
  obtains st d' where
    "Option.bind (bdev_lookup (MAJOR (b_dev b)) boot_table) d_strategy = Some st"
    "st (MINOR (b_dev b)) b d = (if flag (b_flags b) B_READ
       then (biodone (b\<lparr>b_data := boot_content d (b_dev b) (b_blkno b), b_resid := 0\<rparr>), d)
       else (biodone (b\<lparr>b_resid := 0\<rparr>), d'))"
    "disks_ok d'" "\<forall>dev blk. on_disk boot_switch dev blk \<longrightarrow> boot_content d' dev blk =
       (if dev = b_dev b \<and> blk = b_blkno b then b_data b else boot_content d dev blk)"
  using assms(1)
proof (cases rule: on_disk_cases)
  case 1
  let ?d = "d\<lparr>ramdisk0_storage := blit (ramdisk0_storage d) (unat (b_blkno b) * 512) (b_data b)\<rparr>"
  have len: "unat (b_blkno b) * 512 + 512 \<le> length (ramdisk0_storage d)"
    using 1(2) assms(3) by (simp add: disks_ok_def)
  show thesis
  proof (rule that [of ramdisk_strategy ?d])
    show "ramdisk_strategy (MINOR (b_dev b)) b d = (if flag (b_flags b) B_READ
       then (biodone (b\<lparr>b_data := boot_content d (b_dev b) (b_blkno b), b_resid := 0\<rparr>), d)
       else (biodone (b\<lparr>b_resid := 0\<rparr>), ?d))"
      using 1 len assms(2-) by (simp add: ramdisk_strategy_def ramdisk_xfer_ok consts_def boot_content_def
          blit_all subbytes_all)
    show "\<forall>dev blk. on_disk boot_switch dev blk \<longrightarrow> boot_content ?d dev blk =
       (if dev = b_dev b \<and> blk = b_blkno b then b_data b else boot_content d dev blk)"
      using 1 len assms(4) by (simp add: boot_content_def blit_block word_unat_eq_iff)
  qed (use 1 len assms(3,4) in \<open>simp_all add: disks_ok_def\<close>)
next
  case 2
  let ?d = "d\<lparr>ramdisk1_storage := blit (ramdisk1_storage d) (unat (b_blkno b) * 512) (b_data b)\<rparr>"
  have len: "unat (b_blkno b) * 512 + 512 \<le> length (ramdisk1_storage d)"
    using 2(2) assms(3) by (simp add: disks_ok_def)
  show thesis
  proof (rule that [of ramdisk_strategy ?d])
    show "ramdisk_strategy (MINOR (b_dev b)) b d = (if flag (b_flags b) B_READ
       then (biodone (b\<lparr>b_data := boot_content d (b_dev b) (b_blkno b), b_resid := 0\<rparr>), d)
       else (biodone (b\<lparr>b_resid := 0\<rparr>), ?d))"
      using 2 len assms(2-) by (simp add: ramdisk_strategy_def ramdisk_xfer_ok consts_def boot_content_def
          blit_all subbytes_all)
    show "\<forall>dev blk. on_disk boot_switch dev blk \<longrightarrow> boot_content ?d dev blk =
       (if dev = b_dev b \<and> blk = b_blkno b then b_data b else boot_content d dev blk)"
      using 2 len assms(4) by (simp add: boot_content_def blit_block word_unat_eq_iff)
  qed (use 2 len assms(3,4) in \<open>simp_all add: disks_ok_def\<close>)
next
  case 3
  let ?d = "d\<lparr>bram_data := blit (bram_data d) (unat (b_blkno b) * 512) (b_data b)\<rparr>"
  have len: "unat (b_blkno b) * 512 + 512 \<le> length (bram_data d)"
    using 3(2) assms(3) by (simp add: disks_ok_def)
  show thesis
  proof (rule that [of bram_strategy ?d])
    show "bram_strategy (MINOR (b_dev b)) b d = (if flag (b_flags b) B_READ
       then (biodone (b\<lparr>b_data := boot_content d (b_dev b) (b_blkno b), b_resid := 0\<rparr>), d)
       else (biodone (b\<lparr>b_resid := 0\<rparr>), ?d))"
      using 3 len assms(2-) by (simp add: bram_ok boot_content_def blit_all subbytes_all)
    show "\<forall>dev blk. on_disk boot_switch dev blk \<longrightarrow> boot_content ?d dev blk =
       (if dev = b_dev b \<and> blk = b_blkno b then b_data b else boot_content d dev blk)"
      using 3 len assms(4)
      by (auto simp: boot_content_def blit_block word_unat_eq_iff elim!: on_disk_cases)
  qed (use 3 len assms(3,4) in \<open>simp_all add: disks_ok_def\<close>)
qed

interpretation bsw: block_switch boot_switch
proof unfold_locales
  fix b :: buf and d
  assume a: "on_disk boot_switch (b_dev b) (b_blkno b)" "sw_ok boot_switch d" "b_bcount b = BUF_BLOCK_SIZE"
    "length (b_data b) = 512"
  then have ok: "disks_ok d" by (simp add: boot_switch_def)
  obtain st d' where s: "Option.bind (bdev_lookup (MAJOR (b_dev b)) boot_table) d_strategy = Some st"
    "st (MINOR (b_dev b)) b d = (if flag (b_flags b) B_READ
       then (biodone (b\<lparr>b_data := boot_content d (b_dev b) (b_blkno b), b_resid := 0\<rparr>), d)
       else (biodone (b\<lparr>b_resid := 0\<rparr>), d'))"
    "disks_ok d'" "\<forall>dev blk. on_disk boot_switch dev blk \<longrightarrow> boot_content d' dev blk =
       (if dev = b_dev b \<and> blk = b_blkno b then b_data b else boot_content d dev blk)"
    by (rule boot_strategy [OF a(1,3) ok a(4)])
  show "\<exists>st. Option.bind (bdev_lookup (MAJOR (b_dev b)) (sw_table boot_switch)) d_strategy = Some st
      \<and> st (MINOR (b_dev b)) b d
        = (biodone (b\<lparr>b_data := sw_content boot_switch d (b_dev b) (b_blkno b), b_resid := 0\<rparr>), d)"
    if "flag (b_flags b) B_READ"
    using s(1,2) that by (simp add: boot_switch_def)
  show "\<exists>st d'. Option.bind (bdev_lookup (MAJOR (b_dev b)) (sw_table boot_switch)) d_strategy = Some st
      \<and> st (MINOR (b_dev b)) b d = (biodone (b\<lparr>b_resid := 0\<rparr>), d') \<and> sw_ok boot_switch d'
      \<and> (\<forall>dev blk. on_disk boot_switch dev blk \<longrightarrow> sw_content boot_switch d' dev blk =
           (if dev = b_dev b \<and> blk = b_blkno b then b_data b else sw_content boot_switch d dev blk))"
    if "\<not> flag (b_flags b) B_READ"
    using s that by (intro exI [of _ st] exI [of _ d']) (simp add: boot_switch_def)
next
  show "on_disk boot_switch dev blk \<Longrightarrow> sw_ok boot_switch d \<Longrightarrow> length (sw_content boot_switch d dev blk) = 512"
    for dev blk d by (simp add: boot_switch_def content_in_range [unfolded boot_switch_def])
qed

section \<open>Block transfers as an array\<close>

text \<open>
  The contract the file system relies on: the two adapters read and write an array of blocks.
\<close>

locale block_store =
  fixes rd :: "block_device \<Rightarrow> u32 \<Rightarrow> 's \<Rightarrow> (bytes option \<times> 's) option"
    and wr :: "block_device \<Rightarrow> u32 \<Rightarrow> bytes \<Rightarrow> 's \<Rightarrow> (int \<times> 's) option"
    and img :: "'s \<Rightarrow> block_device \<Rightarrow> (nat \<Rightarrow> bytes) \<Rightarrow> bool"
  assumes rd_img: "img s bd D \<Longrightarrow> unat b < unat (bd_nblocks bd) \<Longrightarrow>
      \<exists>s'. rd bd b s = Some (Some (D (unat b)), s') \<and> img s' bd D"
    and wr_img: "img s bd D \<Longrightarrow> unat b < unat (bd_nblocks bd) \<Longrightarrow> length x = 512 \<Longrightarrow>
      \<exists>s'. wr bd b x s = Some (0, s') \<and> img s' bd (D(unat b := x))"
    and img_length: "img s bd D \<Longrightarrow> k < unat (bd_nblocks bd) \<Longrightarrow> length (D k) = 512"
begin

lemma run_refines:
  "img s bd D \<Longrightarrow> list_all (blkop_ok (unat (bd_nblocks bd))) ops \<Longrightarrow>
    \<exists>s'. run_blk rd wr bd ops s = Some (fst (run_array ops D), s') \<and> img s' bd (snd (run_array ops D))"
proof (induction ops arbitrary: s D)
  case Nil
  then show ?case by simp
next
  case (Cons op ops)
  show ?case
  proof (cases op)
    case (Rd b)
    with Cons.prems obtain s1 where s1: "rd bd b s = Some (Some (D (unat b)), s1)" "img s1 bd D"
      using rd_img [of s bd D b] by auto
    with Cons.IH [OF s1(2)] Cons.prems(2) Rd show ?thesis by (auto simp: apfst_def map_prod_def split: prod.splits)
  next
    case (Wr b x)
    with Cons.prems obtain s1 where s1: "wr bd b x s = Some (0, s1)" "img s1 bd (D(unat b := x))"
      using wr_img [of s bd D b x] by auto
    obtain s' where "run_blk rd wr bd ops s1 = Some (fst (run_array ops (D(unat b := x))), s')"
      "img s' bd (snd (run_array ops (D(unat b := x))))"
      using Cons.IH [OF s1(2)] Cons.prems(2) by (metis (no_types) list.pred_inject(2))
    with s1(1) Wr show ?thesis by simp
  qed
qed

end

lemma image_on_disk:
  assumes "disk_image c bd D" "unat (b :: u32) < unat (bd_nblocks bd)"
  shows "on_disk boot_switch (bd_dev bd) (ucast b)" "boot_content (devs c) (bd_dev bd) (ucast b) = D (unat b)"
proof -
  have "unat b < boot_cap (bd_dev bd)" using assms by (simp add: disk_image_def)
  moreover from this have "bd_dev bd \<noteq> -1" by (auto simp: boot_cap_def split: if_splits)
  ultimately show "on_disk boot_switch (bd_dev bd) (ucast b)" by (simp add: on_disk_def boot_switch_def)
  have "(of_nat (unat b) :: u64) = ucast b" by (simp add: unsigned_ucast_eq)
  with assms show "boot_content (devs c) (bd_dev bd) (ucast b) = D (unat b)"
    unfolding disk_image_def by metis
qed

lemma pool_nonempty: "{} \<noteq> {..<BUF_POOL_SIZE}"
proof -
  have "0 \<in> {..<BUF_POOL_SIZE}" by (simp add: BUF_POOL_SIZE_def)
  then show ?thesis by blast
qed

lemma bd_read_image:
  assumes "disk_image c bd D" "unat b < unat (bd_nblocks bd)"
  obtains c' where "bd_read_block bd b c = Some (Some (D (unat b)), c')" "disk_image c' bd D"
proof -
  note od = image_on_disk [OF assms]
  have st: "disk_st boot_switch BUF_POOL_SIZE {} c" using assms(1) by (simp add: disk_image_def)
  obtain i c1 where r: "bread (bd_dev bd) (ucast b) c = Some (Some i, c1)" "i < BUF_POOL_SIZE" "i \<notin> {}"
    "disk_st boot_switch BUF_POOL_SIZE (insert i {}) c1" "bkey c1 i = (bd_dev bd, ucast b)"
    "b_data (bufs c1 i) = sw_content boot_switch (devs c) (bd_dev bd) (ucast b)"
    "slot_coherent boot_switch (devs c) (bufs c1 i)" "devs c1 = devs c"
    by (rule bsw.bread_ok [OF st pool_nonempty od(1)]) simp_all
  have x: "b_data (bufs c1 i) = D (unat b)" using r(6) od(2) by (simp add: boot_switch_def)
  have len: "length (D (unat b)) = 512"
    using content_in_range [OF od(1), of "devs c"] st od(2) by (simp add: disk_st_def boot_switch_def)
  have "disk_st boot_switch BUF_POOL_SIZE (insert i {} - {i}) (brelse (Some i) c1)"
    using r(7,8) by (intro disk_st_brelse [OF r(4)]) simp_all
  then have "disk_image (brelse (Some i) c1) bd D"
    using assms(1) r(8) by (simp add: disk_image_def brelse_meta)
  moreover have "bd_read_block bd b c = Some (Some (D (unat b)), brelse (Some i) c1)"
    using r(1) x len by (simp add: bd_read_block_def subbytes_all BLK_SIZE_def)
  ultimately show thesis using that by blast
qed

lemma bd_write_image:
  assumes "disk_image c bd D" "unat b < unat (bd_nblocks bd)" "length x = 512"
  obtains c' where "bd_write_block bd b x c = Some (0, c')" "disk_image c' bd (D(unat b := x))"
proof -
  note od = image_on_disk [OF assms(1,2)]
  let ?d = "bd_dev bd" and ?b = "ucast b :: u64"
  have dev: "?d \<noteq> -1" using od(1) by (simp add: on_disk_def)
  have st: "disk_st boot_switch BUF_POOL_SIZE {} c" using assms(1) by (simp add: disk_image_def)
  obtain i c1 where g: "getblk ?d ?b c = Some (Some i, c1)" "i < BUF_POOL_SIZE" "i \<notin> {}"
    "disk_st boot_switch BUF_POOL_SIZE (insert i {}) c1" "bkey c1 i = (?d, ?b)"
    "slot_coherent boot_switch (devs c) (bufs c1 i)" "devs c1 = devs c"
    "\<forall>j. j \<noteq> i \<longrightarrow> meta (bufs c1 j) = meta (bufs c j)"
    by (rule disk_st_getblk [OF st pool_nonempty dev]) simp_all
  let ?f = "\<lambda>bf. set_flags B_VALID (bf\<lparr>b_data := blit (b_data bf) 0 (subbytes 0 (unat BLK_SIZE) x)\<rparr>)"
  let ?c2 = "upd_buf i ?f c1"
  have cl: "slot_clean boot_switch (bufs c1 i)" using g(2,4) by (simp add: disk_st_def)
  have "length (b_data (bufs c1 i)) = 512" using cl by (simp add: slot_clean_def)
  then have data: "b_data (?f (bufs c1 i)) = x"
    using assms(3) by (simp add: BLK_SIZE_def subbytes_all blit_all)
  have st2: "disk_st boot_switch BUF_POOL_SIZE {i} ?c2"
    using cl data assms(3) by (intro disk_st_upd [OF g(4)]) (simp_all add: slot_clean_def)
  have k2: "bkey ?c2 i = (?d, ?b)" using g(5) by (simp add: bkey_def)
  obtain c' where w: "bwrite (Some i) ?c2 = Some (0, c')"
    "disk_st boot_switch BUF_POOL_SIZE ({i} - {i}) c'"
    "\<forall>dev blk. on_disk boot_switch dev blk \<longrightarrow> sw_content boot_switch (devs c') dev blk =
       (if dev = ?d \<and> blk = ?b then b_data (bufs ?c2 i) else sw_content boot_switch (devs ?c2) dev blk)"
    by (rule bsw.bwrite_ok [OF st2 _ k2 od(1)]) simp_all
  have "boot_content (devs c') ?d (of_nat k) = (D(unat b := x)) k" if "k < unat (bd_nblocks bd)" for k
  proof -
    let ?k = "of_nat k :: u32"
    have k: "unat ?k = k" using that unat_less32 [of "bd_nblocks bd"] by (simp add: unat_of_nat take_bit_nat_eq_self_iff)
    then have uk: "(of_nat k :: u64) = ucast ?k"
      using that unat_less32 [of "bd_nblocks bd"]
      by (simp add: word_unat_eq_iff unat_of_nat take_bit_nat_eq_self_iff)
    have "ucast ?k = ?b \<longleftrightarrow> k = unat b"
      unfolding word_unat_eq_iff [of "ucast ?k"] unat_ucast_32_64 k ..
    moreover have "on_disk boot_switch ?d (ucast ?k)" "boot_content (devs c) ?d (ucast ?k) = D k"
      using image_on_disk [OF assms(1), of ?k] k that by simp_all
    ultimately show ?thesis using w(3) data g(7) unfolding uk by (simp add: boot_switch_def)
  qed
  then have "disk_image c' bd (D(unat b := x))" using w(2) assms(1) by (simp add: disk_image_def)
  moreover have "bd_write_block bd b x c = Some (0, c')" using g(1) w(1) by (simp add: bd_write_block_def)
  ultimately show thesis using that by blast
qed

lemma image_length:
  assumes "disk_image c bd D" "b < unat (bd_nblocks bd)"
  shows "length (D b) = 512"
proof -
  have b: "unat (of_nat b :: u32) = b" using assms(2) unat_less32 [of "bd_nblocks bd"]
    by (simp add: unat_of_nat take_bit_nat_eq_self_iff)
  from image_on_disk [OF assms(1), of "of_nat b"] assms(2) content_in_range [of _ _ "devs c"] assms(1)
  show ?thesis by (simp add: b disk_image_def disk_st_def boot_switch_def) (metis b)
qed

interpretation blocks: block_store bd_read_block bd_write_block disk_image
proof unfold_locales
  show "disk_image s bd D \<Longrightarrow> unat b < unat (bd_nblocks bd) \<Longrightarrow>
      \<exists>s'. bd_read_block bd b s = Some (Some (D (unat b)), s') \<and> disk_image s' bd D" for s bd D b
    using bd_read_image by metis
  show "disk_image s bd D \<Longrightarrow> unat b < unat (bd_nblocks bd) \<Longrightarrow> length x = 512 \<Longrightarrow>
      \<exists>s'. bd_write_block bd b x s = Some (0, s') \<and> disk_image s' bd (D(unat b := x))" for s bd D b x
    using bd_write_image by metis
qed (rule image_length)

section \<open>The cache after boot\<close>

lemma LRU_upd_other:
  assumes "i \<notin> set ls" shows "LRU (upd_buf i f c) ls \<longleftrightarrow> LRU c ls"
  unfolding LRU_def upd_buf_simps using assms
  by (intro dlist_cong) (auto simp: nxl_def pvl_def)

lemma buf_init_from_ok:
  assumes "LRU c ls" "distinct (ls @ is)" "\<forall>i \<in> set is. \<exists>m. kmallocs i = Some m"
  shows "LRU (buf_init_from kmallocs is c) (ls @ is)
    \<and> (\<forall>i. meta (bufs (buf_init_from kmallocs is c) i) =
         (if i \<in> set is then (-1, 0, 0, the (kmallocs i)) else meta (bufs c i)))
    \<and> buf_hash (buf_init_from kmallocs is c) = buf_hash c
    \<and> bdev_table (buf_init_from kmallocs is c) = bdev_table c \<and> devs (buf_init_from kmallocs is c) = devs c"
  using assms
proof (induction "is" arbitrary: c ls)
  case Nil
  then show ?case by simp
next
  case (Cons i "is")
  then obtain mem where mem: "kmallocs i = Some mem" by auto
  let ?c = "upd_buf i (\<lambda>b. b\<lparr>b_data := mem, b_dev := -1, b_blkno := 0, b_bcount := BUF_BLOCK_SIZE,
             b_flags := 0, b_error := 0\<rparr>) c"
  have "LRU ?c ls" using Cons.prems by (simp add: LRU_upd_other)
  then have L: "LRU (lru_insert_tail i ?c) (ls @ [i])" using Cons.prems(2) by (intro LRU_insert_tail) auto
  have d: "distinct ((ls @ [i]) @ is)" and a: "\<forall>i \<in> set is. \<exists>m. kmallocs i = Some m"
    using Cons.prems by auto
  have m: "meta (bufs (lru_insert_tail i ?c) j) = (if j = i then (-1, 0, 0, mem) else meta (bufs c j))" for j
    by (simp add: meta_def)
  have e: "buf_init_from kmallocs (i # is) c = buf_init_from kmallocs is (lru_insert_tail i ?c)"
    using mem by simp
  from Cons.IH [OF L d a] d mem show ?case unfolding e m by auto
qed

lemma boot_state:
  assumes "cold_cache c" "\<forall>i < BUF_POOL_SIZE. \<exists>m. kmallocs i = Some m \<and> length m = 512"
  shows "disk_st boot_switch BUF_POOL_SIZE {} (boot_cache kmallocs c)"
    "devs (boot_cache kmallocs c) = (devs c)\<lparr>ramdisk0_storage := replicate (2048 * 512) 0,
       ramdisk1_storage := replicate (1024 * 512) 0\<rparr>"
proof -
  let ?i = "buf_init kmallocs c" and ?c = "boot_cache kmallocs c" and ?n = BUF_POOL_SIZE
  have k: "\<forall>i \<in> set [0..<?n]. \<exists>m. kmallocs i = Some m" using assms(2) by auto
  have "LRU c []" using assms(1) by (simp add: cold_cache_def LRU_def)
  from buf_init_from_ok [OF this _ k] have L: "LRU ?i [0..<?n]"
    and mt: "\<forall>i < ?n. meta (bufs ?i i) = (-1, 0, 0, the (kmallocs i))"
    and hs: "buf_hash ?i = (\<lambda>_. None)" "bdev_table ?i = (\<lambda>_. None)" "devs ?i = devs c"
    using assms(1) by (auto simp: buf_init_def cold_cache_def)
  have bt: "bdev_table ?c = boot_table" and dv: "devs ?c = (devs c)\<lparr>ramdisk0_storage := replicate (2048 * 512) 0,
       ramdisk1_storage := replicate (1024 * 512) 0\<rparr>"
    using hs by (simp_all add: boot_cache_def bram_init_def ramdisk_home_init_def ramdisk_init_def
        bdev_register_def boot_table_def consts_def word_le_nat_alt)
  show "devs ?c = (devs c)\<lparr>ramdisk0_storage := replicate (2048 * 512) 0,
       ramdisk1_storage := replicate (1024 * 512) 0\<rparr>" by (fact dv)
  have same: "bufs ?c = bufs ?i" "lru_head ?c = lru_head ?i" "lru_tail ?c = lru_tail ?i" "buf_hash ?c = (\<lambda>_. None)"
    using hs by (simp_all add: boot_cache_def bram_init_def ramdisk_home_init_def ramdisk_init_def)
  have nb: "\<not> busy ?c i" "\<not> hashed ?c i" if "i < ?n" for i
    using mt that by (simp_all add: meta_views same)
  have "LRU ?c [0..<?n]" using L by (simp add: LRU_def same nxl_def [abs_def] pvl_def [abs_def])
  moreover have "hash_ok ?n ?c"
  proof -
    have "{i. i < ?n \<and> hashed ?c i} = {}" using nb by blast
    then show ?thesis by (auto simp: hash_ok_def hash_over_def HASH_def same)
  qed
  moreover have "uniq ?n ?c" using nb by (simp add: uniq_def)
  moreover have "set [0..<?n] = {i. i < ?n \<and> \<not> busy ?c i}" using nb by auto
  ultimately have "\<exists>ls. bc_inv ?n ls ?c" unfolding bc_inv_def by blast
  moreover have "slot_clean boot_switch (bufs ?c i)" "slot_coherent boot_switch (devs ?c) (bufs ?c i)"
    if "i < ?n" for i
    using mt assms(2) that by (fastforce simp: meta_def same slot_clean_def slot_coherent_def)+
  moreover have "disks_ok (devs ?c)" using assms(1) by (simp add: dv disks_ok_def cold_cache_def)
  ultimately show "disk_st boot_switch ?n {} ?c"
    using nb bt unfolding disk_st_def by (auto simp: boot_switch_def)
qed

lemma boot_image:
  assumes "cold_cache c" "\<forall>i < BUF_POOL_SIZE. \<exists>m. kmallocs i = Some m \<and> length m = 512"
  shows "disk_image (boot_cache kmallocs c) ramdisk_bd (\<lambda>_. replicate 512 0)"
    "disk_image (boot_cache kmallocs c) ramdisk_home_bd (\<lambda>_. replicate 512 0)"
  using boot_state [OF assms]
  by (auto simp: disk_image_def ramdisk_bd_def ramdisk_home_bd_def boot_content_def boot_cap_def consts_def
      subbytes_def unat_of_nat take_bit_nat_eq_self_iff)

lemma cold_bss: "cold_cache bss_cache"
  by (simp add: cold_cache_def bss_cache_def)

section \<open>Properties\<close>

text \<open>
  C1. Block input and output through the buffer cache is transparent: starting from a quiet
  cache over the image D of a device, every sequence of in-range block reads and writes
  succeeds, reads return exactly what an array of blocks would return, and the cache is again a
  quiet cache over the array's final contents, whatever was evicted and re-read on the way.
\<close>
theorem block_io_transparent:
  assumes "disk_image c bd D" "list_all (blkop_ok (unat (bd_nblocks bd))) ops"
  shows "\<exists>c'. run_blk bd_read_block bd_write_block bd ops c = Some (fst (run_array ops D), c')
    \<and> disk_image c' bd (snd (run_array ops D))"
  using assms by (rule blocks.run_refines)

theorem block_io_transparent_witness:
  "map_option fst (run_blk bd_read_block bd_write_block ramdisk_home_bd
     [Wr 5 (replicate 512 7), Rd 6, Wr 5 (replicate 512 9), Rd 5] (boot_cache (\<lambda>_. Some (replicate 512 1)) bss_cache))
   = Some [replicate 512 0, replicate 512 9]"
proof -
  have img: "disk_image (boot_cache (\<lambda>_. Some (replicate 512 1)) bss_cache) ramdisk_home_bd (\<lambda>_. replicate 512 0)"
    by (rule boot_image(2) [OF cold_bss]) simp
  let ?ops = "[Wr 5 (replicate 512 7), Rd 6, Wr 5 (replicate 512 9), Rd 5]"
  have "list_all (blkop_ok (unat (bd_nblocks ramdisk_home_bd))) ?ops"
    by (simp add: ramdisk_home_bd_def consts_def)
  from block_io_transparent [OF img this] obtain c' where
    "run_blk bd_read_block bd_write_block ramdisk_home_bd ?ops (boot_cache (\<lambda>_. Some (replicate 512 1)) bss_cache)
      = Some (fst (run_array ?ops (\<lambda>_. replicate 512 0)), c')" by blast
  moreover have "fst (run_array [Wr 5 x, Rd 6, Wr 5 y, Rd 5] (\<lambda>_. z)) = [z, y]" for x y z
    by simp
  ultimately show ?thesis by (simp only: option.map fst_conv)
qed

text \<open>
  C2. \<open>getblk\<close> gives exclusive access: with the slots H checked out, a request for a block
  some slot of H caches sleeps; otherwise, if every slot is checked out it returns NULL, and if
  not it returns a slot outside H, now checked out, carrying the requested block, which is the
  only slot carrying that block, and the disks are untouched.
\<close>
theorem getblk_exclusive:
  assumes "disk_st sw n H c" "dev \<noteq> -1"
  shows "if \<exists>i \<in> H. bkey c i = (dev, blk) then getblk dev blk c = None
    else if H = {..<n} then getblk dev blk c = Some (None, c)
    else \<exists>i c'. getblk dev blk c = Some (Some i, c') \<and> i < n \<and> i \<notin> H \<and> disk_st sw n (insert i H) c'
      \<and> {j. j < n \<and> bkey c' j = (dev, blk)} = {i} \<and> devs c' = devs c"
proof -
  from assms(1) obtain ls where inv: "bc_inv n ls c" and H: "H = {i. i < n \<and> busy c i}"
    unfolding disk_st_def by blast
  consider (held) i where "i \<in> H" "bkey c i = (dev, blk)"
    | (full) "\<forall>i \<in> H. bkey c i \<noteq> (dev, blk)" "H = {..<n}"
    | (free) "\<forall>i \<in> H. bkey c i \<noteq> (dev, blk)" "H \<noteq> {..<n}" by blast
  then show ?thesis
  proof cases
    case held
    then have "i < n" "busy c i" using H by auto
    with getblk_busy [OF inv _ held(2) assms(2)] held show ?thesis by auto
  next
    case full
    then have "set ls = {}" using inv unfolding bc_inv_def H by auto
    then have "bc_inv n [] c" using inv by simp
    from getblk_exhausted [OF this] full show ?thesis by auto
  next
    case free
    obtain i c' where g: "getblk dev blk c = Some (Some i, c')" "i < n" "i \<notin> H"
      "disk_st sw n (insert i H) c'" "bkey c' i = (dev, blk)" "slot_coherent sw (devs c) (bufs c' i)"
      "devs c' = devs c" "\<forall>j. j \<noteq> i \<longrightarrow> meta (bufs c' j) = meta (bufs c j)"
      by (rule disk_st_getblk [OF assms(1) free(2) assms(2) free(1)])
    have "j = i" if "j < n" "bkey c' j = (dev, blk)" for j
      using disk_st_uniq [OF g(4,2) that(1)] g(5) that(2) assms(2) by (auto simp: bkey_def)
    then have "{j. j < n \<and> bkey c' j = (dev, blk)} = {i}" using g(2,5) by blast
    with free g(1-4,7) show ?thesis by auto
  qed
qed

theorem getblk_exclusive_witness:
  "\<exists>i c'. getblk 0x03000001 5 (boot_cache (\<lambda>_. Some (replicate 512 1)) bss_cache) = Some (Some i, c')
     \<and> disk_st boot_switch BUF_POOL_SIZE {i} c'"
proof -
  have st: "disk_st boot_switch BUF_POOL_SIZE {} (boot_cache (\<lambda>_. Some (replicate 512 1)) bss_cache)"
    by (rule boot_state(1) [OF cold_bss]) simp
  have "(0x03000001 :: u32) \<noteq> -1" by simp
  from getblk_exclusive [OF st this, of 5]
  have "\<exists>i c'. getblk 0x03000001 5 (boot_cache (\<lambda>_. Some (replicate 512 1)) bss_cache) = Some (Some i, c')
      \<and> i < BUF_POOL_SIZE \<and> i \<notin> {} \<and> disk_st boot_switch BUF_POOL_SIZE (insert i {}) c'
      \<and> {j. j < BUF_POOL_SIZE \<and> bkey c' j = (0x03000001, 5)} = {i}
      \<and> devs c' = devs (boot_cache (\<lambda>_. Some (replicate 512 1)) bss_cache)"
    by (simp only: bex_empty pool_nonempty if_False)
  then show ?thesis by blast
qed

text \<open>A buffer released while it is already the LRU tail becomes its own successor.\<close>

lemma double_release:
  assumes "LRU c (vs @ [v])" shows "\<not> LRU (brelse (Some v) c) ls"
proof
  assume L: "LRU (brelse (Some v) c) ls"
  have t: "lru_tail c = Some v" using assms by (auto simp: LRU_def dlist_def)
  then have n: "nxl (brelse (Some v) c) v = Some v" "lru_tail (brelse (Some v) c) = Some v"
    by (simp_all add: brelse_def lru_insert_tail_def nxl_def Let_def)
  with L obtain as where "ls = as @ [v]" by (auto simp: LRU_def dest: dlist_tail_Some)
  with L have "dlist (nxl (brelse (Some v) c)) (pvl (brelse (Some v) c)) (lru_head (brelse (Some v) c))
      (lru_tail (brelse (Some v) c)) (as @ v # [])" by (simp add: LRU_def)
  from dlist_next [OF this] n show False by simp
qed

text \<open>
  C39. Evicting a dirty buffer hands out a buffer that is still on the free list: when the LRU
  victim has a delayed write pending, \<open>getblk\<close> returns it checked out, yet it sits at the
  tail of the LRU list; when its owner releases it, the LRU list is no longer a list.
\<close>
theorem evict_dirty_corrupts_lru:
  assumes "bc_inv n (v # vs) c" "flag (b_flags (bufs c v)) B_DELWRI" "\<not> flag (b_flags (bufs c v)) B_READ"
    "length (b_data (bufs c v)) = 512" "bdev_table c = boot_table" "disks_ok (devs c)"
    "on_disk boot_switch (b_dev (bufs c v)) (b_blkno (bufs c v))"
    "\<forall>i < n. bkey c i \<noteq> (dev, blk)"
  shows "\<exists>c'. getblk dev blk c = Some (Some v, c') \<and> busy c' v \<and> LRU c' (vs @ [v])
    \<and> (\<forall>ls. \<not> LRU (brelse (Some v) c') ls)"
proof -
  have sw: "bdev_table c = sw_table boot_switch" "sw_ok boot_switch (devs c)"
    using assms(5,6) by (simp_all add: boot_switch_def)
  obtain c1 where c1: "evict_one c = Some (Some v, c1)" "LRU c1 (vs @ [v])" "b_flags (bufs c1 v) = B_BUSY"
    by (rule bsw.evict_dirty [OF assms(1-4) sw assms(7)])
  let ?c2 = "upd_buf v (\<lambda>b. b\<lparr>b_dev := dev, b_blkno := blk, b_bcount := BUF_BLOCK_SIZE,
    b_flags := B_BUSY, b_error := 0\<rparr>) c1"
  let ?c' = "hash_insert v ?c2"
  have "hash_lookup dev blk c = Some None" using assms(8) by (intro hash_lookup_miss [OF assms(1)]) blast
  then have "getblk dev blk c = Some (Some v, ?c')" using c1(1) by (simp add: getblk_def)
  moreover have oh: "only_hash ?c2 ?c'" by (rule only_hash_intro) (simp_all add: hash_insert_def Let_def)
  moreover have "LRU ?c' (vs @ [v])" using c1(2) only_hashD(5) [OF oh] by (simp add: LRU_upd)
  moreover have "busy ?c' v" using only_hashD(3) [OF oh] by (simp add: busy_def)
  ultimately show ?thesis using double_release by blast
qed

lemma dirty_cache_inv: "bc_inv 1 [0] dirty_cache"
proof -
  have "LRU dirty_cache [0]"
    by (simp add: LRU_def dlist_def nxl_def pvl_def dirty_cache_def bss_buf_def)
  moreover have "set [0] = {i. i < 1 \<and> \<not> busy dirty_cache i}"
    by (auto simp: busy_def dirty_cache_def)
  moreover have "hash_ok 1 dirty_cache"
  proof -
    have "HASH dirty_cache h (if h = buf_hash_idx 0x03000001 1 then [0] else [])" for h
      by (simp add: HASH_def hnl_def dirty_cache_def bss_buf_def)
    moreover have "set (if h = buf_hash_idx 0x03000001 1 then [0] else [])
        = {i \<in> {i. i < 1 \<and> hashed dirty_cache i}. hidx dirty_cache i = h}" for h
      by (auto simp: hashed_def hidx_def dirty_cache_def)
    ultimately show ?thesis unfolding hash_ok_def hash_over_def by blast
  qed
  moreover have "uniq 1 dirty_cache" by (simp add: uniq_def)
  ultimately show ?thesis by (simp add: bc_inv_def)
qed

theorem evict_dirty_corrupts_lru_witness:
  "\<exists>c'. getblk 0x03000001 2 dirty_cache = Some (Some 0, c') \<and> busy c' 0 \<and> LRU c' [0]"
proof -
  have "\<exists>c'. getblk 0x03000001 2 dirty_cache = Some (Some 0, c') \<and> busy c' 0 \<and> LRU c' ([] @ [0])
    \<and> (\<forall>ls. \<not> LRU (brelse (Some 0) c') ls)"
    by (rule evict_dirty_corrupts_lru [OF dirty_cache_inv])
      (simp_all add: dirty_cache_def bss_cache_def disks_ok_def on_disk_def boot_switch_def boot_cap_def bkey_def)
  then show ?thesis by auto
qed

lemma strategy_done:
  assumes "Option.bind (bdev_lookup (MAJOR (b_dev (bufs c i))) (bdev_table c)) d_strategy = Some st"
    "st (MINOR (b_dev (bufs c i))) ((clr_flags (B_DONE OR B_ERROR) (bufs c i))\<lparr>b_resid := 0\<rparr>) (devs c) = (b, d)"
    "flag (b_flags b) B_DONE"
  shows "strategy_and_wait i c = Some (if flag (b_flags b) B_ERROR then -1 else 0,
    (upd_buf i (\<lambda>_. b) c)\<lparr>devs := d\<rparr>)"
  using assms by (simp add: strategy_and_wait_def Let_def biowait_def upd_buf_def)

text \<open>The buffer a failed \<open>bread\<close> leaves behind in the cache: idle, hashed, with \<open>B_READ\<close> set.\<close>

lemma bread_failed:
  assumes "bc_inv n (v # vs) c" "\<not> flag (b_flags (bufs c v)) B_DELWRI" "\<forall>i < n. bkey c i \<noteq> (dev, blk)"
    "dev \<noteq> -1" "Option.bind (bdev_lookup (MAJOR dev) (bdev_table c)) d_strategy = Some st"
    "\<forall>b. st (MINOR dev) b (devs c) = (io_error b, d1)"
  obtains c1 where "bread dev blk c = Some (None, c1)" "bc_inv n (vs @ [v]) c1" "bkey c1 v = (dev, blk)"
    "v < n" "\<not> busy c1 v" "flag (b_flags (bufs c1 v)) B_READ" "devs c1 = d1" "bdev_table c1 = bdev_table c"
proof -
  obtain c0 where g: "getblk dev blk c = Some (Some v, c0)" "bc_inv n vs c0"
    "\<forall>j. meta (bufs c0 j) = (if j = v then (dev, blk, B_BUSY, b_data (bufs c v)) else meta (bufs c j))"
    "devs c0 = devs c" "bdev_table c0 = bdev_table c"
    using getblk_miss [OF assms(1) _ assms(4,2)] assms(3) by metis
  have mv: "b_dev (bufs c0 v) = dev" "b_blkno (bufs c0 v) = blk" "b_flags (bufs c0 v) = B_BUSY"
    using g(3) [rule_format, of v] by (simp_all add: meta_def)
  let ?f = "\<lambda>b. set_flags B_READ (b\<lparr>b_bcount := BUF_BLOCK_SIZE\<rparr>)"
  let ?e = "\<lambda>b. io_error ((clr_flags (B_DONE OR B_ERROR) (?f b))\<lparr>b_resid := 0\<rparr>)"
  let ?c1 = "(upd_buf v ?e c0)\<lparr>devs := d1\<rparr>"
  have "strategy_and_wait v (upd_buf v ?f c0)
      = Some (-1, (upd_buf v (\<lambda>_. ?e (bufs c0 v)) (upd_buf v ?f c0))\<lparr>devs := d1\<rparr>)"
    using strategy_done [of "upd_buf v ?f c0" v st "?e (bufs c0 v)" d1] assms(5,6) g(4,5)
    by (simp add: mv io_error_def biodone_def)
  then have io: "strategy_and_wait v (upd_buf v ?f c0) = Some (-1, ?c1)" by (simp add: upd_buf_def)
  have "v < n" "busy c0 v"
    using assms(1) by (auto simp: bc_inv_def busy_def mv)
  have "bc_inv n vs (upd_buf v ?e c0)"
    by (rule bc_inv_meta_upd [OF g(2)]) (simp_all add: io_error_def biodone_def)
  then have "bc_inv n vs ?c1" by simp
  moreover have "busy ?c1 v" by (simp add: busy_def io_error_def biodone_def mv)
  ultimately have "bc_inv n (vs @ [v]) (brelse (Some v) ?c1)" using \<open>v < n\<close> by (intro brelse_inv)
  moreover have "bread dev blk c = Some (None, brelse (Some v) ?c1)"
    using g(1) mv io by (simp add: bread_def)
  ultimately show thesis using that \<open>v < n\<close> g(5)
    by (simp add: bkey_def busy_def brelse_def io_error_def biodone_def mv)
qed

text \<open>
  C40. A failed read can make a later write disappear: when the driver reports an error for one
  read, \<open>bread\<close> returns NULL but leaves \<open>B_READ\<close> set in the cached buffer; a subsequent
  block write to the same block, with the driver working again and reading whenever
  \<open>B_READ\<close> is set as both in-memory drivers do, returns 0 and leaves the device as it was.
\<close>
theorem failed_read_loses_write:
  assumes "bc_inv n (v # vs) c" "\<not> flag (b_flags (bufs c v)) B_DELWRI" "\<forall>i < n. bkey c i \<noteq> (dev, blk)"
    "dev \<noteq> -1" "Option.bind (bdev_lookup (MAJOR dev) (bdev_table c)) d_strategy = Some st"
    "\<forall>b. st (MINOR dev) b (devs c) = (io_error b, d1)"
    "\<forall>b. flag (b_flags b) B_READ \<longrightarrow> st (MINOR dev) b d1 = (biodone (b\<lparr>b_data := old, b_resid := 0\<rparr>), d1)"
    "bd_dev bd = dev" "ucast blkno = blk"
  shows "\<exists>c1 c2. bread dev blk c = Some (None, c1) \<and> bd_write_block bd blkno x c1 = Some (0, c2) \<and> devs c2 = d1"
proof -
  obtain c1 where r: "bread dev blk c = Some (None, c1)" "bc_inv n (vs @ [v]) c1" "bkey c1 v = (dev, blk)"
    "v < n" "\<not> busy c1 v" "flag (b_flags (bufs c1 v)) B_READ" "devs c1 = d1" "bdev_table c1 = bdev_table c"
    by (rule bread_failed [OF assms(1-6)])
  obtain c2 as bs where g: "getblk dev blk c1 = Some (Some v, c2)" "vs @ [v] = as @ v # bs" "bc_inv n (as @ bs) c2"
    "\<forall>j. meta (bufs c2 j) = (if j = v then meta (set_flags B_BUSY (bufs c1 v)) else meta (bufs c1 j))"
    "devs c2 = devs c1" "bdev_table c2 = bdev_table c1"
    by (rule getblk_hit [OF r(2,4,3) assms(4) r(5)])
  have m: "b_dev (bufs c2 v) = dev" "flag (b_flags (bufs c2 v)) B_READ"
    using g(4) [rule_format, of v] r(3,6) by (simp_all add: meta_def bkey_def)
  let ?f = "\<lambda>b. set_flags B_VALID (b\<lparr>b_data := blit (b_data b) 0 (subbytes 0 (unat BLK_SIZE) x)\<rparr>)"
  let ?w = "\<lambda>b. set_flags B_WRITE (b\<lparr>b_bcount := BUF_BLOCK_SIZE\<rparr>)"
  let ?c3 = "upd_buf v ?w (upd_buf v ?f c2)"
  let ?b = "(clr_flags (B_DONE OR B_ERROR) (bufs ?c3 v))\<lparr>b_resid := 0\<rparr>"
  have "strategy_and_wait v ?c3 = Some (0, (upd_buf v (\<lambda>_. biodone (?b\<lparr>b_data := old, b_resid := 0\<rparr>)) ?c3)\<lparr>devs := d1\<rparr>)"
    using strategy_done [of ?c3 v st "biodone (?b\<lparr>b_data := old, b_resid := 0\<rparr>)" d1] assms(5,7) g(5,6) r(7,8) m
    by (simp add: biodone_def)
  then have "\<exists>c4. bwrite (Some v) (upd_buf v ?f c2) = Some (0, c4) \<and> devs c4 = d1"
    by (simp add: bwrite_def brelse_meta)
  with r(1) g(1) assms(8,9) show ?thesis by (simp add: bd_write_block_def)
qed

lemma flaky_cache_inv: "bc_inv 1 [0] flaky_cache"
proof -
  have "LRU flaky_cache [0]"
    by (simp add: LRU_def dlist_def nxl_def pvl_def flaky_cache_def bss_buf_def)
  moreover have "set [0] = {i. i < 1 \<and> \<not> busy flaky_cache i}"
    by (auto simp: busy_def flaky_cache_def bss_buf_def)
  moreover have "hash_ok 1 flaky_cache"
    by (auto simp: hash_ok_def hash_over_def HASH_def hashed_def flaky_cache_def)
  moreover have "uniq 1 flaky_cache" by (simp add: uniq_def)
  ultimately show ?thesis by (simp add: bc_inv_def)
qed

theorem failed_read_loses_write_witness:
  "\<exists>c1 c2. bread 0x04000000 7 flaky_cache = Some (None, c1)
     \<and> bd_write_block \<lparr>bd_name = ''nvme0n1'', bd_nblocks = 64, bd_dev = 0x04000000\<rparr> 7 (replicate 512 1) c1 = Some (0, c2)
     \<and> devs c2 = 1"
proof -
  have "MAJOR 0x04000000 = 4" by (simp add: MAJOR_def)
  then show ?thesis
    by (intro failed_read_loses_write [OF flaky_cache_inv, where st = flaky_strategy and old = "replicate 512 0"])
      (simp_all add: flaky_cache_def bss_buf_def bkey_def bdev_lookup_def consts_def word_le_nat_alt flaky_strategy_def)
qed

end
