(* ===== verification/Vfs_Tree.thy ===== *)
theory Vfs_Tree
  imports Blockdev
begin

text \<open>
  The in-memory tree of \<open>uts/os/fs/vfs.c\<close>: dentries, inodes, their construction, path
  lookup, removal of names and the inode reference count. The kernel objects of the file layer
  live in maps indexed by address; \<open>kmalloc\<close> hands out the next unused index or, when the
  allocator (a parameter of the state) says so, NULL. A result \<open>None\<close> of an operation means
  that it does not return: it dereferences a NULL or freed pointer, walks a cyclic list, or
  sleeps in the buffer cache.
\<close>

section \<open>Definitions\<close>

datatype inode_type = INODE_DIR | INODE_CHRDEV | INODE_REG | INODE_BLOCKDEV

text \<open>
  The \<open>file_ops\<close> tables: STREAMS character devices, block devices, \<open>kfs\<close> regular files and
  \<open>kfs\<close> directories; \<open>OtherFops\<close> stands for the table of a file system outside this model.
\<close>

datatype fops = StreamFops | BlkdevFops | RegfileFops | KfsDirFops | OtherFops nat

datatype priv = NoPriv | FilePriv nat | DirPriv nat

record inode =
  i_type :: inode_type
  i_fops :: "fops option"
  i_private :: priv
  i_rdev :: u32
  i_count :: int

record dentry =
  d_name :: bytes
  d_parent :: "nat ptr"
  d_sibling :: "nat ptr"
  d_child :: "nat ptr"
  d_inode :: "nat ptr"

record kfs_file =
  kf_bd :: block_device
  kf_start_block :: u32
  kf_size_bytes :: u32
  kf_alloc_blocks :: u32
  kf_dir_block :: u32
  kf_dirent_idx :: u8

record kfs_dir =
  kd_bd :: block_device
  kd_dir_block :: u32
  kd_dentry :: nat

text \<open>The per-open cursors: \<open>struct regfile_cursor\<close> and \<open>struct blkdev_cursor\<close>.\<close>

datatype cursor = RegCursor nat u32 | BlkCursor u64

record struct_file =
  f_ops :: "fops option"
  f_inode :: "nat ptr"
  f_private :: "nat ptr"
  f_refs :: int
  f_flags :: u32

record kfs_mnt =
  m_bd :: "block_device option"
  m_mountpoint :: "nat ptr"
  m_bitmap :: bytes

record fs =
  dentries :: "nat \<rightharpoonup> dentry"
  inodes :: "nat \<rightharpoonup> inode"
  kfiles :: "nat \<rightharpoonup> kfs_file"
  kdirs :: "nat \<rightharpoonup> kfs_dir"
  cursors :: "nat \<rightharpoonup> cursor"
  ofiles :: "nat \<rightharpoonup> struct_file"
  fdts :: "nat \<Rightarrow> nat \<Rightarrow> nat ptr"
  kfs_mnts :: "kfs_mnt list"
  cache :: "disks bcache"
  cdev_drivers :: "u32 \<Rightarrow> bool"
  next_obj :: nat
  kmalloc_ok :: "nat \<Rightarrow> bool"

text \<open>\<open>kmalloc\<close>: the next index, unless the allocator refuses this request.\<close>

definition kmalloc :: "fs \<Rightarrow> nat ptr \<times> fs" where
  "kmalloc s = (if kmalloc_ok s (next_obj s) then Some (next_obj s) else None, s\<lparr>next_obj := next_obj s + 1\<rparr>)"

definition root_dentry :: nat where "root_dentry = 0"
definition root_inode :: nat where "root_inode = 0"

definition vfs_init :: "fs \<Rightarrow> fs" where
  "vfs_init s = s\<lparr>
     inodes := (inodes s)(root_inode \<mapsto> \<lparr>i_type = INODE_DIR, i_fops = None, i_private = NoPriv, i_rdev = 0, i_count = 0\<rparr>),
     dentries := (dentries s)(root_dentry \<mapsto> \<lparr>d_name = [47], d_parent = Some root_dentry, d_sibling = None,
       d_child = None, d_inode = Some root_inode\<rparr>)\<rparr>"

definition new_dentry :: "bytes \<Rightarrow> nat ptr \<Rightarrow> nat ptr \<Rightarrow> fs \<Rightarrow> (nat ptr \<times> fs) option" where
  "new_dentry name ino parent s =
     (case kmalloc s of
        (None, s1) \<Rightarrow> Some (None, s1)
      | (Some d, s1) \<Rightarrow>
          (case parent of
             None \<Rightarrow> Some (Some d, s1\<lparr>dentries := (dentries s1)(d \<mapsto> \<lparr>d_name = name, d_parent = None,
                       d_sibling = None, d_child = None, d_inode = ino\<rparr>)\<rparr>)
           | Some p \<Rightarrow>
               do { pd \<leftarrow> dentries s1 p;
                    Some (Some d, s1\<lparr>dentries := (dentries s1)(d \<mapsto> \<lparr>d_name = name, d_parent = Some p,
                       d_sibling = d_child pd, d_child = None, d_inode = ino\<rparr>,
                       p \<mapsto> pd\<lparr>d_child := Some d\<rparr>)\<rparr>) }))"

definition new_inode :: "inode_type \<Rightarrow> fops option \<Rightarrow> priv \<Rightarrow> fs \<Rightarrow> nat ptr \<times> fs" where
  "new_inode t fo pr s =
     (case kmalloc s of
        (None, s1) \<Rightarrow> (None, s1)
      | (Some i, s1) \<Rightarrow> (Some i, s1\<lparr>inodes := (inodes s1)(i \<mapsto>
          \<lparr>i_type = t, i_fops = fo, i_private = pr, i_rdev = 0, i_count = 1\<rparr>)\<rparr>))"

text \<open>\<open>find_child\<close>: the first dentry of the sibling list with this name.\<close>

partial_function (option) find_from :: "fs \<Rightarrow> bytes \<Rightarrow> nat ptr \<Rightarrow> nat ptr option" where
  [code]: "find_from s name p =
     (case p of
        None \<Rightarrow> Some None
      | Some d \<Rightarrow> do { e \<leftarrow> dentries s d;
          if length (d_name e) = length name \<and> d_name e = name then Some (Some d)
          else find_from s name (d_sibling e) })"

definition find_child :: "nat \<Rightarrow> bytes \<Rightarrow> fs \<Rightarrow> nat ptr option" where
  "find_child parent name s = do { pd \<leftarrow> dentries s parent; find_from s name (d_child pd) }"

text \<open>\<open>vfs_lookup\<close>: \<open>47\<close> is the slash; the walk skips repeated slashes.\<close>

function lookup_walk :: "bytes \<Rightarrow> nat \<Rightarrow> fs \<Rightarrow> nat ptr option" where
  "lookup_walk p cur s =
     (let q = dropWhile (\<lambda>ch. ch = 47) p in
      if q = [] then Some (Some cur)
      else let comp = takeWhile (\<lambda>ch. ch \<noteq> 47) q in
        do { cd \<leftarrow> dentries s cur;
             ci \<leftarrow> Option.bind (d_inode cd) (inodes s);
             if i_type ci \<noteq> INODE_DIR then Some None
             else do { ch \<leftarrow> find_child cur comp s;
                       (case ch of None \<Rightarrow> Some None
                        | Some d \<Rightarrow> lookup_walk (dropWhile (\<lambda>ch. ch \<noteq> 47) q) d s) } })"
  by pat_completeness auto
termination
proof (relation "measure (\<lambda>(p, _, _). length p)", goal_cases)
  case 1
  show ?case by simp
next
  case (2 p cur s q comp cd ci ch d)
  have "length q \<le> length p" unfolding 2(1) by (rule length_dropWhile_le)
  moreover obtain a r where q: "q = a # r" using 2(2) by (cases q) auto
  moreover have "a \<noteq> 47" using hd_dropWhile [of "\<lambda>ch. ch = 47" p] 2(2) q unfolding 2(1) [symmetric] by simp
  ultimately have "length (dropWhile (\<lambda>ch. ch \<noteq> 47) q) < length p"
    using length_dropWhile_le [of "\<lambda>ch. ch \<noteq> 47" r] by simp
  then show ?case by simp
qed

declare lookup_walk.simps [simp del]

definition vfs_lookup :: "bytes \<Rightarrow> fs \<Rightarrow> nat ptr option" where
  "vfs_lookup path s =
     (case path of
        [] \<Rightarrow> Some None
      | ch # p \<Rightarrow> if ch \<noteq> 47 then Some None else lookup_walk p root_dentry s)"

text \<open>
  \<open>vfs_mkdir\<close> and \<open>vfs_mknod_regfile\<close> do not test the result of \<open>new_inode\<close>: the dentry
  is linked with a NULL inode when it fails.
\<close>

definition vfs_mkdir :: "nat \<Rightarrow> bytes \<Rightarrow> fs \<Rightarrow> (nat ptr \<times> fs) option" where
  "vfs_mkdir parent name s =
     (case new_inode INODE_DIR None NoPriv s of (i, s1) \<Rightarrow> new_dentry name i (Some parent) s1)"

definition vfs_mknod_regfile :: "nat \<Rightarrow> bytes \<Rightarrow> fops \<Rightarrow> priv \<Rightarrow> fs \<Rightarrow> (nat ptr \<times> fs) option" where
  "vfs_mknod_regfile parent name fo pr s =
     (case new_inode INODE_REG (Some fo) pr s of (i, s1) \<Rightarrow> new_dentry name i (Some parent) s1)"

definition mknod_dev :: "inode_type \<Rightarrow> fops \<Rightarrow> nat \<Rightarrow> bytes \<Rightarrow> u32 \<Rightarrow> fs \<Rightarrow> (nat ptr \<times> fs) option" where
  "mknod_dev t fo parent name rdev s =
     (case new_inode t (Some fo) NoPriv s of
        (None, s1) \<Rightarrow> Some (None, s1)
      | (Some i, s1) \<Rightarrow> new_dentry name (Some i) (Some parent)
          (s1\<lparr>inodes := (inodes s1)(i := map_option (i_rdev_update (\<lambda>_. rdev)) (inodes s1 i))\<rparr>))"

definition vfs_mknod_chrdev :: "nat \<Rightarrow> bytes \<Rightarrow> u32 \<Rightarrow> fs \<Rightarrow> (nat ptr \<times> fs) option" where
  "vfs_mknod_chrdev parent name rdev s =
     (if \<not> cdev_drivers s (MAJOR rdev) then Some (None, s)
      else mknod_dev INODE_CHRDEV StreamFops parent name rdev s)"

definition vfs_mknod_blkdev :: "nat \<Rightarrow> bytes \<Rightarrow> u32 \<Rightarrow> fs \<Rightarrow> (nat ptr \<times> fs) option" where
  "vfs_mknod_blkdev parent name rdev s =
     (if bdev_lookup (MAJOR rdev) (bdev_table (cache s)) = None then Some (None, s)
      else mknod_dev INODE_BLOCKDEV BlkdevFops parent name rdev s)"

text \<open>
  \<open>vfs_iget\<close> and \<open>vfs_iput\<close>. The \<open>inactive\<close> hooks of the two \<open>kfs\<close> tables free the object
  behind \<open>i_private\<close>; the other tables have none.
\<close>

definition vfs_iget :: "nat ptr \<Rightarrow> fs \<Rightarrow> fs" where
  "vfs_iget ino s =
     (case ino of None \<Rightarrow> s
      | Some i \<Rightarrow> s\<lparr>inodes := (inodes s)(i := map_option (i_count_update (\<lambda>n. n + 1)) (inodes s i))\<rparr>)"

definition inactive :: "priv \<Rightarrow> fs \<Rightarrow> fs" where
  "inactive pr s =
     (case pr of NoPriv \<Rightarrow> s
      | FilePriv k \<Rightarrow> s\<lparr>kfiles := (kfiles s)(k := None)\<rparr>
      | DirPriv k \<Rightarrow> s\<lparr>kdirs := (kdirs s)(k := None)\<rparr>)"

definition vfs_iput :: "nat ptr \<Rightarrow> fs \<Rightarrow> fs option" where
  "vfs_iput ino s =
     (case ino of None \<Rightarrow> Some s
      | Some i \<Rightarrow>
          do { x \<leftarrow> inodes s i;
               let x' = x\<lparr>i_count := i_count x - 1\<rparr>;
               let s1 = s\<lparr>inodes := (inodes s)(i \<mapsto> x')\<rparr>;
               if i_count x' \<noteq> 0 then Some s1
               else let s2 = (if i_fops x \<in> {Some RegfileFops, Some KfsDirFops} then inactive (i_private x) s1 else s1)
                 in Some (s2\<lparr>inodes := (inodes s2)(i := None)\<rparr>) })"

text \<open>
  \<open>vfs_remove_child\<close> walks a \<open>struct dentry **link\<close>; \<open>prev = None\<close> is the parent's
  \<open>d_child\<close> field.
\<close>

definition set_dlink :: "nat \<Rightarrow> nat ptr \<Rightarrow> nat ptr \<Rightarrow> fs \<Rightarrow> fs" where
  "set_dlink parent prev v s =
     (case prev of
        None \<Rightarrow> s\<lparr>dentries := (dentries s)(parent := map_option (d_child_update (\<lambda>_. v)) (dentries s parent))\<rparr>
      | Some p \<Rightarrow> s\<lparr>dentries := (dentries s)(p := map_option (d_sibling_update (\<lambda>_. v)) (dentries s p))\<rparr>)"

partial_function (option) remove_from :: "nat \<Rightarrow> bytes \<Rightarrow> nat ptr \<Rightarrow> nat ptr \<Rightarrow> fs \<Rightarrow> (int \<times> fs) option" where
  [code]: "remove_from parent name prev p s =
     (case p of
        None \<Rightarrow> Some (-1, s)
      | Some cur \<Rightarrow>
          do { e \<leftarrow> dentries s cur;
               if d_name e = name
               then do { s2 \<leftarrow> vfs_iput (d_inode e) (set_dlink parent prev (d_sibling e) s);
                         Some (0, s2\<lparr>dentries := (dentries s2)(cur := None)\<rparr>) }
               else remove_from parent name (Some cur) (d_sibling e) s })"

definition vfs_remove_child :: "nat ptr \<Rightarrow> bytes \<Rightarrow> fs \<Rightarrow> (int \<times> fs) option" where
  "vfs_remove_child parent name s =
     (case parent of
        None \<Rightarrow> Some (-1, s)
      | Some p \<Rightarrow> do { pd \<leftarrow> dentries s p;
          if d_child pd = None then Some (-1, s) else remove_from p name None (d_child pd) s })"

text \<open>\<open>vfs_listdir\<close>: the names of the children, one per line, until the next would not fit.\<close>

partial_function (option) list_from :: "fs \<Rightarrow> nat \<Rightarrow> nat ptr \<Rightarrow> bytes \<Rightarrow> bytes option" where
  [code]: "list_from s cap p out =
     (case p of
        None \<Rightarrow> Some out
      | Some d \<Rightarrow> do { e \<leftarrow> dentries s d;
          if length out + length (d_name e) + 1 > cap then Some out
          else list_from s cap (d_sibling e) (out @ d_name e @ [10]) })"

definition vfs_listdir :: "nat ptr \<Rightarrow> nat \<Rightarrow> fs \<Rightarrow> (int \<times> bytes) option" where
  "vfs_listdir dir cap s =
     (case dir of
        None \<Rightarrow> Some (-1, [])
      | Some d \<Rightarrow> do { e \<leftarrow> dentries s d;
          (case d_inode e of
             None \<Rightarrow> Some (-1, [])
           | Some i \<Rightarrow> do { x \<leftarrow> inodes s i;
               if i_type x \<noteq> INODE_DIR then Some (-1, [])
               else do { out \<leftarrow> list_from s cap (d_child e) []; Some (int (length out), out) } }) })"

text \<open>Objects live only at indices already handed out.\<close>

definition heap_fresh :: "fs \<Rightarrow> bool" where
  "heap_fresh s \<longleftrightarrow> (\<forall>n \<ge> next_obj s. dentries s n = None \<and> inodes s n = None \<and> ofiles s n = None
     \<and> cursors s n = None \<and> kfiles s n = None \<and> kdirs s n = None)"

text \<open>The state after linking a new dentry at the head of a live parent's child list.\<close>

definition linked :: "bytes \<Rightarrow> nat ptr \<Rightarrow> nat \<Rightarrow> dentry \<Rightarrow> fs \<Rightarrow> fs" where
  "linked name ino p pd s = s\<lparr>next_obj := next_obj s + 1, dentries := (dentries s)(next_obj s \<mapsto>
     \<lparr>d_name = name, d_parent = Some p, d_sibling = d_child pd, d_child = None, d_inode = ino\<rparr>,
     p \<mapsto> pd\<lparr>d_child := Some (next_obj s)\<rparr>)\<rparr>"

section \<open>Lemmas\<close>

lemma new_dentry_live:
  assumes "dentries s p = Some pd"
  shows "new_dentry name ino (Some p) s = Some (if kmalloc_ok s (next_obj s)
    then (Some (next_obj s), linked name ino p pd s) else (None, s\<lparr>next_obj := next_obj s + 1\<rparr>))"
  using assms by (simp add: new_dentry_def kmalloc_def linked_def)

lemma linked_fields [simp]:
  "cache (linked name ino p pd s) = cache s" "kfs_mnts (linked name ino p pd s) = kfs_mnts s"
  "inodes (linked name ino p pd s) = inodes s" "kdirs (linked name ino p pd s) = kdirs s"
  "kfiles (linked name ino p pd s) = kfiles s" "ofiles (linked name ino p pd s) = ofiles s"
  by (simp_all add: linked_def)

lemma new_inode_fields:
  assumes "new_inode t fo pr s = (i, s1)"
  shows "cache s1 = cache s" "kfs_mnts s1 = kfs_mnts s" "dentries s1 = dentries s" "kdirs s1 = kdirs s"
    "kfiles s1 = kfiles s" "ofiles s1 = ofiles s" "kmalloc_ok s1 = kmalloc_ok s" "next_obj s1 = next_obj s + 1"
    "i = (if kmalloc_ok s (next_obj s) then Some (next_obj s) else None)"
    "inodes s1 = (if kmalloc_ok s (next_obj s) then (inodes s)(next_obj s \<mapsto>
       \<lparr>i_type = t, i_fops = fo, i_private = pr, i_rdev = 0, i_count = 1\<rparr>) else inodes s)"
  using assms by (auto simp: new_inode_def kmalloc_def split: if_splits)

end
