(* ===== verification/Kfs.thy ===== *)
theory Kfs
  imports Vfs_Tree
begin

text \<open>
  The on-disk file system \<open>uts/os/fs/kfs.c\<close> with the layout of
  \<open>include/kappara/fs/kfs.h\<close>: packed 19-byte directory entries, the block bitmap, run
  allocation, regular-file operations, directory operations, image construction and mounting.
  Every block moves through the buffer cache (theory \<open>Blockdev\<close>); every name and inode
  through the tree of \<open>Vfs_Tree\<close>. Block numbers inside a bitmap are below 4096, so the 32-bit
  loop counters of the C code are natural numbers here; strings are byte lists without NUL.
\<close>

section \<open>Definitions\<close>

subsection \<open>Layout\<close>

definition KFS_MAGIC :: u32 where [consts_def]: "KFS_MAGIC = 0x024b4653"
definition KFS_SUPER_BLOCK :: nat where [consts_def]: "KFS_SUPER_BLOCK = 0"
definition KFS_BITMAP_BLOCK :: nat where [consts_def]: "KFS_BITMAP_BLOCK = 1"
definition KFS_ROOT_BLOCK :: nat where [consts_def]: "KFS_ROOT_BLOCK = 2"
definition KFS_NAME_MAX :: nat where [consts_def]: "KFS_NAME_MAX = 11"
definition KFS_DIRENTS :: nat where [consts_def]: "KFS_DIRENTS = 26"
definition KFS_DE_DIR_BIT :: u32 where [consts_def]: "KFS_DE_DIR_BIT = 0x80000000"
definition KFS_BLOCKS_PER_FILE :: nat where [consts_def]: "KFS_BLOCKS_PER_FILE = 64"
definition MAX_KFS_MOUNTS :: nat where [consts_def]: "MAX_KFS_MOUNTS = 4"
definition O_TRUNC :: u32 where [consts_def]: "O_TRUNC = 1"

record kfs_dirent =
  de_name :: bytes
  de_start_block :: u32
  de_size_bytes :: u32

text \<open>Entry \<open>i\<close> of a directory block: 11 name bytes, then two little-endian 32-bit words.\<close>

definition get_de :: "bytes \<Rightarrow> nat \<Rightarrow> kfs_dirent" where
  "get_de blk i = \<lparr>de_name = subbytes (19 * i) 11 blk,
     de_start_block = un_le32 (subbytes (19 * i + 11) 4 blk),
     de_size_bytes = un_le32 (subbytes (19 * i + 15) 4 blk)\<rparr>"

definition put_de :: "bytes \<Rightarrow> nat \<Rightarrow> kfs_dirent \<Rightarrow> bytes" where
  "put_de blk i e = blit blk (19 * i) (de_name e @ le32 (de_start_block e) @ le32 (de_size_bytes e))"

definition kfs_de_start :: "kfs_dirent \<Rightarrow> u32" where
  "kfs_de_start e = de_start_block e AND NOT KFS_DE_DIR_BIT"

definition kfs_de_isdir :: "kfs_dirent \<Rightarrow> bool" where
  "kfs_de_isdir e \<longleftrightarrow> flag (de_start_block e) KFS_DE_DIR_BIT"

text \<open>The character \<open>name[k]\<close> of a C string, and a name padded into an 11-byte field.\<close>

definition chr_at :: "bytes \<Rightarrow> nat \<Rightarrow> u8" where
  "chr_at name k = (if k < length name then name ! k else 0)"

definition name_field :: "bytes \<Rightarrow> bytes" where
  "name_field name = (let t = take (KFS_NAME_MAX - 1) name in t @ replicate (KFS_NAME_MAX - length t) 0)"

subsection \<open>Block access and allocation\<close>

definition rd_blk :: "block_device \<Rightarrow> u32 \<Rightarrow> fs \<Rightarrow> (bytes option \<times> fs) option" where
  "rd_blk bd b s = map_option (apsnd (\<lambda>c. s\<lparr>cache := c\<rparr>)) (bd_read_block bd b (cache s))"

definition wr_blk :: "block_device \<Rightarrow> u32 \<Rightarrow> bytes \<Rightarrow> fs \<Rightarrow> (int \<times> fs) option" where
  "wr_blk bd b x s = map_option (apsnd (\<lambda>c. s\<lparr>cache := c\<rparr>)) (bd_write_block bd b x (cache s))"

definition kfs_mnt_for :: "block_device \<Rightarrow> fs \<Rightarrow> nat ptr" where
  "kfs_mnt_for bd s = find (\<lambda>i. m_bd (kfs_mnts s ! i) = Some bd) [0..<MAX_KFS_MOUNTS]"

definition kfs_mnt_alloc :: "block_device \<Rightarrow> fs \<Rightarrow> nat ptr \<times> fs" where
  "kfs_mnt_alloc bd s =
     (case find (\<lambda>i. m_bd (kfs_mnts s ! i) = None) [0..<MAX_KFS_MOUNTS] of
        None \<Rightarrow> (None, s)
      | Some i \<Rightarrow> (Some i, s\<lparr>kfs_mnts := (kfs_mnts s)[i := (kfs_mnts s ! i)\<lparr>m_bd := Some bd,
          m_bitmap := replicate (unat BLK_SIZE) 0\<rparr>]\<rparr>))"

definition kfs_bit_get :: "bytes \<Rightarrow> nat \<Rightarrow> bool" where
  "kfs_bit_get bm blk \<longleftrightarrow> drop_bit (blk mod 8) (bm ! (blk div 8)) AND 1 \<noteq> 0"

definition kfs_bit_set :: "bytes \<Rightarrow> nat \<Rightarrow> bool \<Rightarrow> bytes" where
  "kfs_bit_set bm blk val =
     bm[blk div 8 := (if val then bm ! (blk div 8) OR push_bit (blk mod 8) 1
                      else bm ! (blk div 8) AND NOT (push_bit (blk mod 8) 1))]"

fun bit_set_run :: "bytes \<Rightarrow> nat \<Rightarrow> nat \<Rightarrow> bool \<Rightarrow> bytes" where
  "bit_set_run bm start 0 val = bm"
| "bit_set_run bm start (Suc n) val = bit_set_run (kfs_bit_set bm start val) (Suc start) n val"

definition set_bitmap :: "nat \<Rightarrow> bytes \<Rightarrow> fs \<Rightarrow> fs" where
  "set_bitmap mi bm s = s\<lparr>kfs_mnts := (kfs_mnts s)[mi := (kfs_mnts s ! mi)\<lparr>m_bitmap := bm\<rparr>]\<rparr>"

definition kfs_bitmap_save :: "nat \<Rightarrow> fs \<Rightarrow> fs option" where
  "kfs_bitmap_save mi s =
     (case m_bd (kfs_mnts s ! mi) of
        None \<Rightarrow> Some s
      | Some bd \<Rightarrow> map_option snd (wr_blk bd (of_nat KFS_BITMAP_BLOCK) (m_bitmap (kfs_mnts s ! mi)) s))"

definition run_free :: "bytes \<Rightarrow> nat \<Rightarrow> nat \<Rightarrow> bool" where
  "run_free bm start count \<longleftrightarrow> list_all (\<lambda>i. \<not> kfs_bit_get bm (start + i)) [0..<count]"

function alloc_scan :: "bytes \<Rightarrow> nat \<Rightarrow> nat \<Rightarrow> nat \<Rightarrow> nat ptr" where
  "alloc_scan bm tot count start =
     (if start + count \<le> tot
      then (if run_free bm start count then Some start else alloc_scan bm tot count (Suc start))
      else None)"
  by pat_completeness auto
termination by (relation "measure (\<lambda>(bm, tot, count, start). Suc tot - start)") auto

declare alloc_scan.simps [simp del]

fun zero_run :: "block_device \<Rightarrow> nat \<Rightarrow> nat \<Rightarrow> fs \<Rightarrow> (bool \<times> fs) option" where
  "zero_run bd start 0 s = Some (True, s)"
| "zero_run bd start (Suc n) s =
     do { (rc, s1) \<leftarrow> wr_blk bd (of_nat start) (replicate (unat BLK_SIZE) 0) s;
          if rc < 0 then Some (False, s1) else zero_run bd (Suc start) n s1 }"

definition alloc_total :: "block_device \<Rightarrow> nat" where
  "alloc_total bd = min (unat (bd_nblocks bd)) (unat BLK_SIZE * 8)"

definition kfs_alloc_block_zero :: "block_device \<Rightarrow> nat \<Rightarrow> fs \<Rightarrow> (nat \<times> fs) option" where
  "kfs_alloc_block_zero bd count s =
     (case kfs_mnt_for bd s of
        None \<Rightarrow> Some (0, s)
      | Some mi \<Rightarrow>
          (case alloc_scan (m_bitmap (kfs_mnts s ! mi)) (alloc_total bd) count (KFS_ROOT_BLOCK + 1) of
             None \<Rightarrow> Some (0, s)
           | Some start \<Rightarrow>
               do { s1 \<leftarrow> kfs_bitmap_save mi
                      (set_bitmap mi (bit_set_run (m_bitmap (kfs_mnts s ! mi)) start count True) s);
                    (ok, s2) \<leftarrow> zero_run bd start count s1;
                    Some (if ok then start else 0, s2) }))"

definition kfs_free_blocks :: "block_device \<Rightarrow> nat \<Rightarrow> nat \<Rightarrow> fs \<Rightarrow> fs option" where
  "kfs_free_blocks bd start count s =
     (case kfs_mnt_for bd s of
        None \<Rightarrow> Some s
      | Some mi \<Rightarrow> kfs_bitmap_save mi
          (set_bitmap mi (bit_set_run (m_bitmap (kfs_mnts s ! mi)) start count False) s))"

subsection \<open>Regular files\<close>

text \<open>Pushing a new size into entry \<open>kf_dirent_idx\<close> of the file's directory block.\<close>

definition push_size :: "kfs_file \<Rightarrow> u32 \<Rightarrow> fs \<Rightarrow> fs option" where
  "push_size kf sz s =
     do { (r, s1) \<leftarrow> rd_blk (kf_bd kf) (kf_dir_block kf) s;
          (case r of
             None \<Rightarrow> Some s1
           | Some blk \<Rightarrow> map_option snd (wr_blk (kf_bd kf) (kf_dir_block kf)
               (put_de blk (unat (kf_dirent_idx kf)) ((get_de blk (unat (kf_dirent_idx kf)))\<lparr>de_size_bytes := sz\<rparr>)) s1)) }"

definition regfile_open :: "nat \<Rightarrow> fs \<Rightarrow> (int \<times> fs) option" where
  "regfile_open f s =
     (case kmalloc s of
        (None, s1) \<Rightarrow> Some (-1, s1)
      | (Some c, s1) \<Rightarrow>
          do { fl \<leftarrow> ofiles s1 f;
               ino \<leftarrow> Option.bind (f_inode fl) (inodes s1);
               (case i_private ino of
                  FilePriv k \<Rightarrow>
                    do { let s2 = s1\<lparr>cursors := (cursors s1)(c \<mapsto> RegCursor k 0),
                                     ofiles := (ofiles s1)(f \<mapsto> fl\<lparr>f_private := Some c\<rparr>)\<rparr>;
                         if flag (f_flags fl) O_TRUNC
                         then do { kf \<leftarrow> kfiles s2 k;
                                   s3 \<leftarrow> push_size kf 0 (s2\<lparr>kfiles := (kfiles s2)(k \<mapsto> kf\<lparr>kf_size_bytes := 0\<rparr>)\<rparr>);
                                   Some (0, s3) }
                         else Some (0, s2) }
                | _ \<Rightarrow> None) })"

definition regfile_close :: "nat \<Rightarrow> fs \<Rightarrow> (int \<times> fs) option" where
  "regfile_close f s =
     do { fl \<leftarrow> ofiles s f;
          Some (0, s\<lparr>cursors := (case f_private fl of None \<Rightarrow> cursors s | Some c \<Rightarrow> (cursors s)(c := None)),
                     ofiles := (ofiles s)(f \<mapsto> fl\<lparr>f_private := None\<rparr>)\<rparr>) }"

text \<open>The open file's cursor: its index, the file object and the position.\<close>

definition reg_cursor :: "nat \<Rightarrow> fs \<Rightarrow> (nat \<times> nat \<times> u32) option" where
  "reg_cursor f s =
     do { fl \<leftarrow> ofiles s f;
          c \<leftarrow> f_private fl;
          cu \<leftarrow> cursors s c;
          (case cu of RegCursor k pos \<Rightarrow> Some (c, k, pos) | BlkCursor _ \<Rightarrow> None) }"

definition regfile_read :: "nat \<Rightarrow> nat \<Rightarrow> fs \<Rightarrow> (int \<times> bytes \<times> fs) option" where
  "regfile_read f len s =
     do { (c, k, pos) \<leftarrow> reg_cursor f s;
          kf \<leftarrow> kfiles s k;
          if pos \<ge> kf_size_bytes kf then Some (0, [], s)
          else do { (r, s1) \<leftarrow> rd_blk (kf_bd kf) (kf_start_block kf + pos div BLK_SIZE) s;
            (case r of
               None \<Rightarrow> Some (-1, [], s1)
             | Some tmp \<Rightarrow>
                 let off = unat (pos mod BLK_SIZE);
                     n = min (min len (unat BLK_SIZE - off)) (unat (kf_size_bytes kf) - unat pos)
                 in Some (int n, subbytes off n tmp,
                          s1\<lparr>cursors := (cursors s1)(c \<mapsto> RegCursor k (pos + of_nat n))\<rparr>)) } }"

function write_loop :: "kfs_file \<Rightarrow> nat \<Rightarrow> bytes \<Rightarrow> nat \<Rightarrow> fs \<Rightarrow> (nat \<times> fs) option" where
  "write_loop kf pos src nw s =
     (if nw < length src
      then let off = (pos + nw) mod 512;
               blk = kf_start_block kf + of_nat ((pos + nw) div 512);
               n = min (512 - off) (length src - nw)
           in do { (r, s1) \<leftarrow> rd_blk (kf_bd kf) blk s;
                   (case r of
                      None \<Rightarrow> Some (nw, s1)
                    | Some tmp \<Rightarrow>
                        do { (rc, s2) \<leftarrow> wr_blk (kf_bd kf) blk (blit tmp off (subbytes nw n src)) s1;
                             if rc < 0 then Some (nw, s2)
                             else write_loop kf pos src (nw + n) s2 }) }
      else Some (nw, s))"
  by pat_completeness auto
termination
  by (relation "measure (\<lambda>(kf, pos, src, nw, s). length src - nw)") auto

declare write_loop.simps [simp del]

definition regfile_write :: "nat \<Rightarrow> bytes \<Rightarrow> fs \<Rightarrow> (int \<times> fs) option" where
  "regfile_write f src s =
     do { (c, k, pos) \<leftarrow> reg_cursor f s;
          kf \<leftarrow> kfiles s k;
          let mx = kf_alloc_blocks kf * BLK_SIZE;
          if pos \<ge> mx then Some (-1, s)
          else let src' = (if unat pos + length src > unat mx then take (unat mx - unat pos) src else src) in
            do { (nw, s1) \<leftarrow> write_loop kf (unat pos) src' 0 s;
                 let pos' = pos + of_nat nw;
                 let s2 = s1\<lparr>cursors := (cursors s1)(c \<mapsto> RegCursor k pos')\<rparr>;
                 if pos' > kf_size_bytes kf
                 then do { s3 \<leftarrow> push_size kf pos' (s2\<lparr>kfiles := (kfiles s2)(k \<mapsto> kf\<lparr>kf_size_bytes := pos'\<rparr>)\<rparr>);
                           Some (int nw, s3) }
                 else Some (int nw, s2) } }"

definition regfile_seek :: "nat \<Rightarrow> int \<Rightarrow> int \<Rightarrow> fs \<Rightarrow> (int \<times> fs) option" where
  "regfile_seek f offset whence s =
     do { (c, k, pos) \<leftarrow> reg_cursor f s;
          kf \<leftarrow> kfiles s k;
          let newpos = (if whence = 0 then Some offset
                        else if whence = 1 then Some (uint pos + offset)
                        else if whence = 2 then Some (uint (kf_size_bytes kf) + offset)
                        else None);
          (case newpos of
             None \<Rightarrow> Some (-1, s)
           | Some np \<Rightarrow> if np < 0 then Some (-1, s)
                       else Some (np, s\<lparr>cursors := (cursors s)(c \<mapsto> RegCursor k (of_int np))\<rparr>)) }"

definition regfile_size :: "nat \<Rightarrow> fs \<Rightarrow> int option" where
  "regfile_size ino s =
     do { x \<leftarrow> inodes s ino;
          (case i_private x of FilePriv k \<Rightarrow> map_option (\<lambda>kf. uint (kf_size_bytes kf)) (kfiles s k)
           | _ \<Rightarrow> Some (-1)) }"

subsection \<open>Directories\<close>

definition kfs_dir_of :: "nat \<Rightarrow> fs \<Rightarrow> nat ptr option" where
  "kfs_dir_of dir s =
     do { x \<leftarrow> inodes s dir;
          Some (case i_private x of DirPriv d \<Rightarrow> Some d | _ \<Rightarrow> None) }"

text \<open>
  The name comparison of \<open>kfs_dir_find_slot\<close>: the index at which the loop stops, at most
  \<open>KFS_NAME_MAX\<close>; \<open>n\<close> counts the positions left.
\<close>

fun dup_index :: "bytes \<Rightarrow> bytes \<Rightarrow> nat \<Rightarrow> nat \<Rightarrow> nat" where
  "dup_index dn name k 0 = k"
| "dup_index dn name k (Suc n) =
     (if dn ! k = chr_at name k then (if chr_at name k = 0 then k else dup_index dn name (Suc k) n) else k)"

definition is_dup :: "bytes \<Rightarrow> bytes \<Rightarrow> bool" where
  "is_dup dn name =
     (let k = dup_index dn name 0 KFS_NAME_MAX in k < KFS_NAME_MAX \<and> dn ! k = chr_at name k)"

fun find_slot_from :: "bytes \<Rightarrow> bytes \<Rightarrow> nat list \<Rightarrow> nat ptr \<Rightarrow> nat ptr" where
  "find_slot_from blk name [] slot = slot"
| "find_slot_from blk name (i # is) slot =
     (if de_name (get_de blk i) ! 0 = 0
      then find_slot_from blk name is (if slot = None then Some i else slot)
      else if is_dup (de_name (get_de blk i)) name then None
      else find_slot_from blk name is slot)"

definition kfs_dir_find_slot :: "bytes \<Rightarrow> bytes \<Rightarrow> nat ptr" where
  "kfs_dir_find_slot blk name =
     (if length name \<ge> KFS_NAME_MAX then None else find_slot_from blk name [0..<KFS_DIRENTS] None)"

text \<open>The comparison loop of \<open>kfs_dir_find_named\<close>.\<close>

fun match_index :: "bytes \<Rightarrow> bytes \<Rightarrow> nat \<Rightarrow> nat \<Rightarrow> nat" where
  "match_index dn name k 0 = k"
| "match_index dn name k (Suc n) =
     (if dn ! k = chr_at name k \<and> chr_at name k \<noteq> 0 \<and> dn ! k \<noteq> 0 then match_index dn name (Suc k) n else k)"

definition is_named :: "bytes \<Rightarrow> bytes \<Rightarrow> bool" where
  "is_named dn name =
     (let k = match_index dn name 0 KFS_NAME_MAX in k < KFS_NAME_MAX \<and> dn ! k = 0 \<and> chr_at name k = 0)"

definition kfs_dir_find_named :: "bytes \<Rightarrow> bytes \<Rightarrow> nat ptr" where
  "kfs_dir_find_named blk name =
     find (\<lambda>i. de_name (get_de blk i) ! 0 \<noteq> 0 \<and> is_named (de_name (get_de blk i)) name) [0..<KFS_DIRENTS]"

definition kfs_dup_name :: "bytes \<Rightarrow> fs \<Rightarrow> bytes option \<times> fs" where
  "kfs_dup_name name s =
     (case kmalloc s of (None, s1) \<Rightarrow> (None, s1) | (Some _, s1) \<Rightarrow> (Some (take (KFS_NAME_MAX - 1) name), s1))"

definition kfs_dir_creat :: "nat \<Rightarrow> bytes \<Rightarrow> fs \<Rightarrow> (int \<times> fs) option" where
  "kfs_dir_creat dir name s =
     do { dp \<leftarrow> kfs_dir_of dir s;
          (case dp of None \<Rightarrow> Some (-1, s)
           | Some dk \<Rightarrow>
     do { d \<leftarrow> kdirs s dk;
          let bd = kd_bd d;
          (r, s1) \<leftarrow> rd_blk bd (kd_dir_block d) s;
          (case r of None \<Rightarrow> Some (-1, s1)
           | Some dir_blk \<Rightarrow>
     (case kfs_dir_find_slot dir_blk name of None \<Rightarrow> Some (-1, s1)
           | Some slot \<Rightarrow>
     do { (start, s2) \<leftarrow> kfs_alloc_block_zero bd KFS_BLOCKS_PER_FILE s1;
          if start = 0 then Some (-1, s2) else
     do { (rc, s3) \<leftarrow> wr_blk bd (kd_dir_block d)
            (put_de dir_blk slot \<lparr>de_name = name_field name, de_start_block = of_nat start, de_size_bytes = 0\<rparr>) s2;
          if rc < 0 then Some (-1, s3) else
     (case kmalloc s3 of (kf, s4) \<Rightarrow>
      case kfs_dup_name name s4 of (nm, s5) \<Rightarrow>
      case (kf, nm) of
        (Some k, Some nm') \<Rightarrow>
          do { (_, s6) \<leftarrow> vfs_mknod_regfile (kd_dentry d) nm' RegfileFops (FilePriv k)
                 (s5\<lparr>kfiles := (kfiles s5)(k \<mapsto> \<lparr>kf_bd = bd, kf_start_block = of_nat start, kf_size_bytes = 0,
                    kf_alloc_blocks = of_nat KFS_BLOCKS_PER_FILE, kf_dir_block = kd_dir_block d,
                    kf_dirent_idx = of_nat slot\<rparr>)\<rparr>);
               Some (0, s6) }
      | _ \<Rightarrow> Some (-1, s5)) } })) }) }"

definition kfs_dir_mkdir :: "nat \<Rightarrow> bytes \<Rightarrow> fs \<Rightarrow> (int \<times> fs) option" where
  "kfs_dir_mkdir dir name s =
     do { dp \<leftarrow> kfs_dir_of dir s;
          (case dp of None \<Rightarrow> Some (-1, s)
           | Some dk \<Rightarrow>
     do { d \<leftarrow> kdirs s dk;
          let bd = kd_bd d;
          (r, s1) \<leftarrow> rd_blk bd (kd_dir_block d) s;
          (case r of None \<Rightarrow> Some (-1, s1)
           | Some dir_blk \<Rightarrow>
     (case kfs_dir_find_slot dir_blk name of None \<Rightarrow> Some (-1, s1)
           | Some slot \<Rightarrow>
     do { (subblk, s2) \<leftarrow> kfs_alloc_block_zero bd 1 s1;
          if subblk = 0 then Some (-1, s2) else
     do { (rc, s3) \<leftarrow> wr_blk bd (kd_dir_block d)
            (put_de dir_blk slot \<lparr>de_name = name_field name, de_start_block = of_nat subblk OR KFS_DE_DIR_BIT,
               de_size_bytes = 0\<rparr>) s2;
          if rc < 0 then Some (-1, s3) else
     (case kfs_dup_name name s3 of (nm, s4) \<Rightarrow>
      case kmalloc s4 of (sub, s5) \<Rightarrow>
      case (nm, sub) of
        (Some nm', Some k) \<Rightarrow>
          do { (sd, s6) \<leftarrow> vfs_mkdir (kd_dentry d) nm' s5;
               (case sd of None \<Rightarrow> Some (-1, s6)
                | Some sub_dentry \<Rightarrow>
                    do { e \<leftarrow> dentries s6 sub_dentry;
                         i \<leftarrow> d_inode e;
                         x \<leftarrow> inodes s6 i;
                         Some (0, s6\<lparr>kdirs := (kdirs s6)(k \<mapsto> \<lparr>kd_bd = bd, kd_dir_block = of_nat subblk,
                                  kd_dentry = sub_dentry\<rparr>),
                                inodes := (inodes s6)(i \<mapsto> x\<lparr>i_fops := Some KfsDirFops, i_private := DirPriv k\<rparr>)\<rparr>) }) }
      | _ \<Rightarrow> Some (-1, s5)) } })) }) }"

definition empty_de :: kfs_dirent where
  "empty_de = \<lparr>de_name = replicate KFS_NAME_MAX 0, de_start_block = 0, de_size_bytes = 0\<rparr>"

definition kfs_dir_unlink :: "nat \<Rightarrow> bytes \<Rightarrow> fs \<Rightarrow> (int \<times> fs) option" where
  "kfs_dir_unlink dir name s =
     do { dp \<leftarrow> kfs_dir_of dir s;
          (case dp of None \<Rightarrow> Some (-1, s)
           | Some dk \<Rightarrow>
     do { d \<leftarrow> kdirs s dk;
          let bd = kd_bd d;
          (r, s1) \<leftarrow> rd_blk bd (kd_dir_block d) s;
          (case r of None \<Rightarrow> Some (-1, s1)
           | Some dir_blk \<Rightarrow>
     (case kfs_dir_find_named dir_blk name of None \<Rightarrow> Some (-1, s1)
           | Some slot \<Rightarrow>
     if kfs_de_isdir (get_de dir_blk slot) then Some (-1, s1) else
     let reclaim_start = kfs_de_start (get_de dir_blk slot) in
     do { (rc, s2) \<leftarrow> wr_blk bd (kd_dir_block d) (put_de dir_blk slot empty_de) s1;
          if rc < 0 then Some (-1, s2) else
          if reclaim_start \<noteq> 0
          then do { s3 \<leftarrow> kfs_free_blocks bd (unat reclaim_start) KFS_BLOCKS_PER_FILE s2; Some (0, s3) }
          else Some (0, s2) })) }) }"

definition kfs_dir_rmdir :: "nat \<Rightarrow> bytes \<Rightarrow> fs \<Rightarrow> (int \<times> fs) option" where
  "kfs_dir_rmdir dir name s =
     do { dp \<leftarrow> kfs_dir_of dir s;
          (case dp of None \<Rightarrow> Some (-1, s)
           | Some dk \<Rightarrow>
     do { d \<leftarrow> kdirs s dk;
          let bd = kd_bd d;
          (r, s1) \<leftarrow> rd_blk bd (kd_dir_block d) s;
          (case r of None \<Rightarrow> Some (-1, s1)
           | Some dir_blk \<Rightarrow>
     (case kfs_dir_find_named dir_blk name of None \<Rightarrow> Some (-1, s1)
           | Some slot \<Rightarrow>
     if \<not> kfs_de_isdir (get_de dir_blk slot) then Some (-1, s1) else
     let sub_block = kfs_de_start (get_de dir_blk slot) in
     do { (r2, s2) \<leftarrow> rd_blk bd sub_block s1;
          (case r2 of None \<Rightarrow> Some (-1, s2)
           | Some sub \<Rightarrow>
     if list_ex (\<lambda>i. de_name (get_de sub i) ! 0 \<noteq> 0) [0..<KFS_DIRENTS] then Some (-1, s2) else
     do { (rc, s3) \<leftarrow> wr_blk bd (kd_dir_block d) (put_de dir_blk slot empty_de) s2;
          if rc < 0 then Some (-1, s3) else
          do { s4 \<leftarrow> kfs_free_blocks bd (unat sub_block) 1 s3; Some (0, s4) } }) })) }) }"

subsection \<open>Image construction\<close>

type_synonym payload = "bytes \<times> bytes"

text \<open>One file's 64-block slot: the data is spread over the blocks, the rest is zero.\<close>

fun mkimage_blocks :: "block_device \<Rightarrow> nat \<Rightarrow> nat \<Rightarrow> bytes \<Rightarrow> bytes \<Rightarrow> fs \<Rightarrow> (bytes \<times> fs) option" where
  "mkimage_blocks bd blk 0 dat bm s = Some (bm, s)"
| "mkimage_blocks bd blk (Suc n) dat bm s =
     do { (_, s1) \<leftarrow> wr_blk bd (of_nat blk) (blit (replicate (unat BLK_SIZE) 0) 0 (take (unat BLK_SIZE) dat)) s;
          mkimage_blocks bd (Suc blk) n (drop (unat BLK_SIZE) dat) (kfs_bit_set bm blk True) s1 }"

fun mkimage_files :: "block_device \<Rightarrow> payload list \<Rightarrow> nat \<Rightarrow> nat \<Rightarrow> bytes \<Rightarrow> bytes \<Rightarrow> fs \<Rightarrow> (bytes \<times> bytes \<times> fs) option" where
  "mkimage_files bd [] i cur dir bm s = Some (dir, bm, s)"
| "mkimage_files bd ((name, dat) # ps) i cur dir bm s =
     (if i < KFS_DIRENTS
      then do { (bm1, s1) \<leftarrow> mkimage_blocks bd cur KFS_BLOCKS_PER_FILE dat bm s;
                mkimage_files bd ps (Suc i) (cur + KFS_BLOCKS_PER_FILE)
                  (put_de dir i \<lparr>de_name = name_field name, de_start_block = of_nat cur,
                     de_size_bytes = of_nat (length dat)\<rparr>) bm1 s1 }
      else Some (dir, bm, s))"

definition kfs_mkimage :: "block_device \<Rightarrow> payload list \<Rightarrow> fs \<Rightarrow> fs option" where
  "kfs_mkimage bd payloads s =
     (case (case kfs_mnt_for bd s of Some mi \<Rightarrow> (Some mi, s) | None \<Rightarrow> kfs_mnt_alloc bd s) of
        (None, s0) \<Rightarrow> Some s0
      | (Some mi, s0) \<Rightarrow>
          let bm = kfs_bit_set (kfs_bit_set (kfs_bit_set (replicate (unat BLK_SIZE) 0)
                     KFS_SUPER_BLOCK True) KFS_BITMAP_BLOCK True) KFS_ROOT_BLOCK True in
          do { (_, s1) \<leftarrow> wr_blk bd (of_nat KFS_SUPER_BLOCK)
                 (le32 KFS_MAGIC @ le32 (of_nat (length payloads)) @ replicate 504 0) s0;
               (dir, bm', s2) \<leftarrow> mkimage_files bd payloads 0 (KFS_ROOT_BLOCK + 1) (replicate (unat BLK_SIZE) 0) bm s1;
               (_, s3) \<leftarrow> wr_blk bd (of_nat KFS_ROOT_BLOCK) dir s2;
               (_, s4) \<leftarrow> wr_blk bd (of_nat KFS_BITMAP_BLOCK) bm' (set_bitmap mi bm' s3);
               Some s4 })"

subsection \<open>Mounting\<close>

text \<open>
  \<open>kfs_mount_dir\<close>: the entries of one directory block from index \<open>i\<close> on; a
  subdirectory's block is read and walked before the next entry.
\<close>

partial_function (option) mount_entries :: "block_device \<Rightarrow> u32 \<Rightarrow> bytes \<Rightarrow> nat \<Rightarrow> nat \<Rightarrow> fs \<Rightarrow> fs option" where
  [code]: "mount_entries bd dir_block blk i parent s =
     (if i \<ge> KFS_DIRENTS then Some s
      else let de = get_de blk i in
        if de_name de ! 0 = 0 then mount_entries bd dir_block blk (Suc i) parent s
        else (case kfs_dup_name (takeWhile (\<lambda>ch. ch \<noteq> 0) (de_name de)) s of
                (None, s1) \<Rightarrow> mount_entries bd dir_block blk (Suc i) parent s1
              | (Some nm, s1) \<Rightarrow>
                  if kfs_de_isdir de
                  then (case kmalloc s1 of
                          (None, s2) \<Rightarrow> mount_entries bd dir_block blk (Suc i) parent s2
                        | (Some k, s2) \<Rightarrow>
                            do { (sd, s3) \<leftarrow> vfs_mkdir parent nm s2;
                                 (case sd of
                                    None \<Rightarrow> mount_entries bd dir_block blk (Suc i) parent s3
                                  | Some sdp \<Rightarrow>
                                      do { e \<leftarrow> dentries s3 sdp;
                                           ino \<leftarrow> d_inode e;
                                           x \<leftarrow> inodes s3 ino;
                                           let s4 = s3\<lparr>kdirs := (kdirs s3)(k \<mapsto> \<lparr>kd_bd = bd,
                                                kd_dir_block = kfs_de_start de, kd_dentry = sdp\<rparr>),
                                                inodes := (inodes s3)(ino \<mapsto> x\<lparr>i_fops := Some KfsDirFops,
                                                  i_private := DirPriv k\<rparr>)\<rparr>;
                                           (r, s5) \<leftarrow> rd_blk bd (kfs_de_start de) s4;
                                           s6 \<leftarrow> (case r of None \<Rightarrow> Some s5
                                                 | Some sub \<Rightarrow> mount_entries bd (kfs_de_start de) sub 0 sdp s5);
                                           mount_entries bd dir_block blk (Suc i) parent s6 }) })
                  else (case kmalloc s1 of
                          (None, s2) \<Rightarrow> mount_entries bd dir_block blk (Suc i) parent s2
                        | (Some k, s2) \<Rightarrow>
                            do { (_, s3) \<leftarrow> vfs_mknod_regfile parent nm RegfileFops (FilePriv k)
                                   (s2\<lparr>kfiles := (kfiles s2)(k \<mapsto> \<lparr>kf_bd = bd, kf_start_block = kfs_de_start de,
                                      kf_size_bytes = de_size_bytes de,
                                      kf_alloc_blocks = of_nat KFS_BLOCKS_PER_FILE,
                                      kf_dir_block = dir_block, kf_dirent_idx = of_nat i\<rparr>)\<rparr>);
                                 mount_entries bd dir_block blk (Suc i) parent s3 })))"

definition kfs_mount_dir :: "block_device \<Rightarrow> u32 \<Rightarrow> nat \<Rightarrow> fs \<Rightarrow> fs option" where
  "kfs_mount_dir bd dir_block parent s =
     do { (r, s1) \<leftarrow> rd_blk bd dir_block s;
          (case r of None \<Rightarrow> Some s1 | Some blk \<Rightarrow> mount_entries bd dir_block blk 0 parent s1) }"

definition kfs_mount :: "block_device \<Rightarrow> nat \<Rightarrow> fs \<Rightarrow> (int \<times> fs) option" where
  "kfs_mount bd mountpoint s =
     do { (r, s1) \<leftarrow> rd_blk bd (of_nat KFS_SUPER_BLOCK) s;
          (case r of None \<Rightarrow> Some (-1, s1)
           | Some sb \<Rightarrow>
     if un_le32 (subbytes 0 4 sb) \<noteq> KFS_MAGIC then Some (-1, s1) else
     (case (case kfs_mnt_for bd s1 of Some mi \<Rightarrow> (Some mi, s1) | None \<Rightarrow> kfs_mnt_alloc bd s1) of
        (None, s2) \<Rightarrow> Some (-1, s2)
      | (Some mi, s2) \<Rightarrow>
     do { (r2, s3) \<leftarrow> rd_blk bd (of_nat KFS_BITMAP_BLOCK) s2;
          (case r2 of None \<Rightarrow> Some (-1, s3)
           | Some bm \<Rightarrow>
     let s4 = (set_bitmap mi bm s3) in
     let s5 = s4\<lparr>kfs_mnts := (kfs_mnts s4)[mi := (kfs_mnts s4 ! mi)\<lparr>m_mountpoint := Some mountpoint\<rparr>]\<rparr> in
     (case kmalloc s5 of
        (None, s6) \<Rightarrow> Some (-1, s6)
      | (Some k, s6) \<Rightarrow>
          do { e \<leftarrow> dentries s6 mountpoint;
               ino \<leftarrow> d_inode e;
               x \<leftarrow> inodes s6 ino;
               s7 \<leftarrow> kfs_mount_dir bd (of_nat KFS_ROOT_BLOCK) mountpoint
                 (s6\<lparr>kdirs := (kdirs s6)(k \<mapsto> \<lparr>kd_bd = bd, kd_dir_block = of_nat KFS_ROOT_BLOCK, kd_dentry = mountpoint\<rparr>),
                     inodes := (inodes s6)(ino \<mapsto> x\<lparr>i_fops := Some KfsDirFops, i_private := DirPriv k\<rparr>)\<rparr>);
               Some (0, s7) })) })) }"

text \<open>\<open>kfs_for_each_mount\<close>: the callback sees every mounted slot in order until it stops.\<close>

fun each_mount :: "(block_device \<Rightarrow> nat ptr \<Rightarrow> 'a \<Rightarrow> int \<times> 'a) \<Rightarrow> kfs_mnt list \<Rightarrow> 'a \<Rightarrow> int \<times> 'a" where
  "each_mount cb [] arg = (0, arg)"
| "each_mount cb (m # ms) arg =
     (case m_bd m of
        None \<Rightarrow> each_mount cb ms arg
      | Some bd \<Rightarrow> (case cb bd (m_mountpoint m) arg of (r, arg') \<Rightarrow> if r \<noteq> 0 then (r, arg') else each_mount cb ms arg'))"

definition kfs_for_each_mount :: "(block_device \<Rightarrow> nat ptr \<Rightarrow> 'a \<Rightarrow> int \<times> 'a) \<Rightarrow> fs \<Rightarrow> 'a \<Rightarrow> int \<times> 'a" where
  "kfs_for_each_mount cb s arg = each_mount cb (kfs_mnts s) arg"

subsection \<open>The on-disk invariant\<close>

text \<open>
  \<open>holds D ds (d, i) b\<close>: entry \<open>i\<close> of directory block \<open>d\<close> owns block \<open>b\<close> of the image \<open>D\<close>
  (a file's 64-block run, or the block of a subdirectory); \<open>ds\<close> is the set of directory blocks.
\<close>

definition live_de :: "bytes \<Rightarrow> nat \<Rightarrow> bool" where
  "live_de blk i \<longleftrightarrow> de_name (get_de blk i) ! 0 \<noteq> 0"

definition de_extent :: "kfs_dirent \<Rightarrow> nat set" where
  "de_extent e = (if kfs_de_isdir e then {unat (kfs_de_start e)}
     else {unat (kfs_de_start e)..<unat (kfs_de_start e) + 64})"

definition cname :: "bytes \<Rightarrow> nat \<Rightarrow> bytes" where
  "cname blk i = takeWhile (\<lambda>x. x \<noteq> 0) (de_name (get_de blk i))"

definition holds :: "(nat \<Rightarrow> bytes) \<Rightarrow> nat set \<Rightarrow> nat \<times> nat \<Rightarrow> nat \<Rightarrow> bool" where
  "holds D ds h b \<longleftrightarrow> fst h \<in> ds \<and> snd h < 26 \<and> live_de (D (fst h)) (snd h)
     \<and> b \<in> de_extent (get_de (D (fst h)) (snd h))"

definition dir_held :: "(nat \<Rightarrow> bytes) \<Rightarrow> nat set \<Rightarrow> nat \<Rightarrow> bool" where
  "dir_held D ds d \<longleftrightarrow> (\<exists>h. holds D ds h d \<and> kfs_de_isdir (get_de (D (fst h)) (snd h)))"

definition dir_ok :: "bytes \<Rightarrow> bool" where
  "dir_ok blk \<longleftrightarrow> (\<forall>i < 26. live_de blk i \<longrightarrow> length (cname blk i) < 11)
     \<and> (\<forall>i < 26. \<forall>j < 26. live_de blk i \<longrightarrow> live_de blk j \<longrightarrow> cname blk i = cname blk j \<longrightarrow> i = j)"

text \<open>
  The parts of the invariant that speak of the image alone: directories are well formed, every
  subdirectory is owned by its entry, owned blocks are data blocks of the device, no block has
  two owners, and the bitmap marks exactly the reserved blocks and the owned ones.
\<close>

definition image_ok :: "nat \<Rightarrow> nat set \<Rightarrow> (nat \<Rightarrow> bytes) \<Rightarrow> bool" where
  "image_ok tot ds D \<longleftrightarrow> KFS_ROOT_BLOCK \<in> ds
     \<and> (\<forall>d \<in> ds. dir_ok (D d) \<and> 2 \<le> d \<and> d < tot \<and> (d = 2 \<or> dir_held D ds d))
     \<and> (\<forall>h b. holds D ds h b \<longrightarrow> 2 < b \<and> b < tot)
     \<and> (\<forall>h h' b. holds D ds h b \<longrightarrow> holds D ds h' b \<longrightarrow> h = h')
     \<and> (\<forall>d \<in> ds. \<forall>i < 26. live_de (D d) i \<longrightarrow> kfs_de_isdir (get_de (D d) i) \<longrightarrow>
          unat (kfs_de_start (get_de (D d) i)) \<in> ds)
     \<and> (\<forall>b < tot. kfs_bit_get (D 1) b \<longleftrightarrow> b \<le> 2 \<or> (\<exists>h. holds D ds h b))"

definition kfs_inv :: "block_device \<Rightarrow> nat \<Rightarrow> nat set \<Rightarrow> (nat \<Rightarrow> bytes) \<Rightarrow> fs \<Rightarrow> bool" where
  "kfs_inv bd mi ds D s \<longleftrightarrow> disk_image (cache s) bd D \<and> kfs_mnt_for bd s = Some mi \<and> mi < length (kfs_mnts s)
     \<and> m_bitmap (kfs_mnts s ! mi) = D 1 \<and> image_ok (alloc_total bd) ds D"

text \<open>The image after allocating and zeroing a run.\<close>

definition alloc_image :: "(nat \<Rightarrow> bytes) \<Rightarrow> nat \<Rightarrow> nat \<Rightarrow> nat \<Rightarrow> bytes" where
  "alloc_image D st n b = (if st \<le> b \<and> b < st + n then replicate 512 0
     else if b = 1 then bit_set_run (D 1) st n True else D b)"

text \<open>Two states that differ in the disk side only.\<close>

definition only_disk :: "fs \<Rightarrow> fs \<Rightarrow> bool" where
  "only_disk s s' \<longleftrightarrow> (\<exists>ms c. s' = s\<lparr>kfs_mnts := ms, cache := c\<rparr>)"

text \<open>A directory inode whose private data names a directory block of the mounted image.\<close>

definition dir_handle :: "block_device \<Rightarrow> nat set \<Rightarrow> nat \<Rightarrow> kfs_dir \<Rightarrow> fs \<Rightarrow> bool" where
  "dir_handle bd ds dir d s \<longleftrightarrow> (\<exists>dk. kfs_dir_of dir s = Some (Some dk) \<and> kdirs s dk = Some d)
     \<and> kd_bd d = bd \<and> unat (kd_dir_block d) \<in> ds \<and> dentries s (kd_dentry d) \<noteq> None"

text \<open>A directory block as a map from names to entries.\<close>

definition dir_find :: "bytes \<Rightarrow> bytes \<Rightarrow> kfs_dirent option" where
  "dir_find blk name = map_option (get_de blk) (kfs_dir_find_named blk name)"

text \<open>
  Room for a new name: it is short enough and not taken, an entry is free, and the bitmap has a run of
  \<open>n\<close> free blocks behind the root directory.
\<close>

definition can_create :: "block_device \<Rightarrow> nat \<Rightarrow> (nat \<Rightarrow> bytes) \<Rightarrow> nat \<Rightarrow> bytes \<Rightarrow> bool" where
  "can_create bd n D b name \<longleftrightarrow> length name < KFS_NAME_MAX \<and> dir_find (D b) name = None
     \<and> (\<exists>i < KFS_DIRENTS. \<not> live_de (D b) i)
     \<and> (\<exists>st. KFS_ROOT_BLOCK < st \<and> st + n \<le> alloc_total bd \<and> run_free (D 1) st n)"

section \<open>Lemmas\<close>

subsection \<open>Directory entries\<close>

lemma length_put_de [simp]:
  "i < 26 \<Longrightarrow> length (de_name e) = 11 \<Longrightarrow> length blk = 512 \<Longrightarrow> length (put_de blk i e) = 512"
  by (simp add: put_de_def length_encodings)

lemma subbytes_inside:
  "a \<le> length xs \<Longrightarrow> subbytes a n (xs @ ys @ zs) = subbytes 0 n (drop a xs @ ys @ zs)"
  by (simp add: subbytes_def)

lemma put_de_fields:
  assumes "i < 26" "length (de_name e) = 11" "length blk = 512"
  shows "subbytes (19 * i) 11 (put_de blk i e) = de_name e"
    "subbytes (19 * i + 11) 4 (put_de blk i e) = le32 (de_start_block e)"
    "subbytes (19 * i + 15) 4 (put_de blk i e) = le32 (de_size_bytes e)"
  using assms by (simp_all add: subbytes_def put_de_def blit_def length_encodings)

lemma put_de_other:
  assumes "i < 26" "j < 26" "j \<noteq> i" "length (de_name e) = 11" "length blk = 512" "k + n \<le> 19"
  shows "subbytes (19 * j + k) n (put_de blk i e) = subbytes (19 * j + k) n blk"
proof -
  from assms(3) have "19 * j + 19 \<le> 19 * i \<or> 19 * i + 19 \<le> 19 * j" by linarith
  with assms show ?thesis unfolding put_de_def
    by (intro subbytes_blit_other) (auto simp: length_encodings)
qed

lemma get_put_de:
  assumes "i < 26" "j < 26" "length (de_name e) = 11" "length blk = 512"
  shows "get_de (put_de blk i e) j = (if j = i then e else get_de blk j)"
proof (cases "j = i")
  case True
  with put_de_fields [OF assms(1,3,4)] show ?thesis by (simp add: get_de_def)
next
  case False
  with put_de_other [OF assms(1,2) False assms(3,4), of 0 11] put_de_other [OF assms(1,2) False assms(3,4), of 11 4]
    put_de_other [OF assms(1,2) False assms(3,4), of 15 4] show ?thesis by (simp add: get_de_def)
qed

lemma length_de_name: "i < 26 \<Longrightarrow> length blk = 512 \<Longrightarrow> length (de_name (get_de blk i)) = 11"
  by (simp add: get_de_def)

lemma length_name_field [simp]: "length (name_field name) = 11"
  by (simp add: name_field_def consts_def Let_def)

lemma match_index_iff:
  assumes "length dn = 11" "0 \<notin> set name" "k + n = 11" "k \<le> length name"
  shows "(let r = match_index dn name k n in r < 11 \<and> dn ! r = 0 \<and> chr_at name r = 0)
    \<longleftrightarrow> takeWhile (\<lambda>x. x \<noteq> 0) (drop k dn) = drop k name \<and> length name < 11"
  using assms(3,4)
proof (induction n arbitrary: k)
  case 0
  then show ?case by (simp add: Let_def)
next
  case (Suc n)
  have k: "k < length dn" using Suc.prems assms(1) by simp
  have dr: "drop k dn = dn ! k # drop (Suc k) dn" using Cons_nth_drop_Suc [OF k] by simp
  show ?case
  proof (cases "k < length name")
    case True
    then have nz: "name ! k \<noteq> 0" using assms(2) by (metis nth_mem)
    have dn: "drop k name = name ! k # drop (Suc k) name" using Cons_nth_drop_Suc [OF True] by simp
    show ?thesis
    proof (cases "dn ! k = name ! k")
      case eq: True
      with nz True Suc.IH [of "Suc k"] Suc.prems show ?thesis by (simp add: dr dn chr_at_def)
    next
      case False
      with nz True Suc.prems show ?thesis by (auto simp: dr dn chr_at_def Let_def)
    qed
  next
    case False
    with Suc.prems have kl: "length name = k" by simp
    with k assms(1) show ?thesis by (simp add: dr chr_at_def Let_def)
  qed
qed

lemma is_named_iff:
  assumes "length dn = 11" "0 \<notin> set name"
  shows "is_named dn name \<longleftrightarrow> takeWhile (\<lambda>x. x \<noteq> 0) dn = name \<and> length name < 11"
  using match_index_iff [OF assms, of 0 11] by (simp add: is_named_def consts_def)

lemma dup_index_iff:
  assumes "length dn = 11" "0 \<notin> set name" "length name < 11" "k + n = 11" "k \<le> length name"
  shows "(let r = dup_index dn name k n in r < 11 \<and> dn ! r = chr_at name r)
    \<longleftrightarrow> takeWhile (\<lambda>x. x \<noteq> 0) (drop k dn) = drop k name"
  using assms(4,5)
proof (induction n arbitrary: k)
  case 0
  then show ?case using assms(3) by simp
next
  case (Suc n)
  have k: "k < length dn" using Suc.prems assms(1) by simp
  have dr: "drop k dn = dn ! k # drop (Suc k) dn" using Cons_nth_drop_Suc [OF k] by simp
  show ?case
  proof (cases "k < length name")
    case True
    then have nz: "name ! k \<noteq> 0" using assms(2) by (metis nth_mem)
    have dn: "drop k name = name ! k # drop (Suc k) name" using Cons_nth_drop_Suc [OF True] by simp
    show ?thesis
    proof (cases "dn ! k = name ! k")
      case eq: True
      with nz True Suc.IH [of "Suc k"] Suc.prems show ?thesis by (simp add: dr dn chr_at_def)
    next
      case False
      with nz True Suc.prems show ?thesis by (auto simp: dr dn chr_at_def Let_def)
    qed
  next
    case False
    with Suc.prems have kl: "length name = k" by simp
    with k assms(1) show ?thesis by (simp add: dr chr_at_def Let_def)
  qed
qed

lemma is_dup_iff:
  assumes "length dn = 11" "0 \<notin> set name" "length name < 11"
  shows "is_dup dn name \<longleftrightarrow> takeWhile (\<lambda>x. x \<noteq> 0) dn = name"
  using dup_index_iff [OF assms, of 0 11] by (simp add: is_dup_def consts_def)

lemma name_field_cstr:
  assumes "0 \<notin> set name" "length name < 11"
  shows "takeWhile (\<lambda>x. x \<noteq> 0) (name_field name) = name"
proof -
  have "takeWhile (\<lambda>x. x \<noteq> 0) (name @ replicate (11 - length name) 0) = name"
    using assms by (subst takeWhile_append2) (auto simp: takeWhile_replicate)
  with assms show ?thesis by (simp add: name_field_def consts_def)
qed

subsection \<open>The bitmap\<close>

lemma bit_get_iff: "kfs_bit_get bm b \<longleftrightarrow> bit (bm ! (b div 8)) (b mod 8)"
  by (simp add: kfs_bit_get_def bit_iff_odd_drop_bit and_one_eq odd_iff_mod_2_eq_one)

lemma length_bit_set [simp]: "length (kfs_bit_set bm b v) = length bm"
  by (simp add: kfs_bit_set_def)

lemma bit_get_set:
  assumes "b < 8 * length bm"
  shows "kfs_bit_get (kfs_bit_set bm b v) b' \<longleftrightarrow> (if b' = b then v else kfs_bit_get bm b')"
proof (cases "b' div 8 = b div 8")
  case True
  have lt: "b div 8 < length bm" using assms by (simp add: less_mult_imp_div_less mult.commute)
  have ne: "b' = b \<longleftrightarrow> b' mod 8 = b mod 8" using True by (metis div_mult_mod_eq)
  have "b mod 8 < 8" "b' mod 8 < 8" by simp_all
  then show ?thesis using True lt ne
    by (auto simp: bit_get_iff kfs_bit_set_def bit_simps)
next
  case False
  then have "b' \<noteq> b" by auto
  with False show ?thesis by (simp add: bit_get_iff kfs_bit_set_def)
qed

lemma length_bit_set_run [simp]: "length (bit_set_run bm st n v) = length bm"
  by (induction n arbitrary: bm st) simp_all

lemma bit_get_run:
  "st + n \<le> 8 * length bm \<Longrightarrow>
    kfs_bit_get (bit_set_run bm st n v) b \<longleftrightarrow> (if st \<le> b \<and> b < st + n then v else kfs_bit_get bm b)"
proof (induction n arbitrary: bm st)
  case (Suc n)
  then show ?case by (auto simp: bit_get_set)
qed auto

lemma run_free_iff: "run_free bm st n \<longleftrightarrow> (\<forall>b. st \<le> b \<and> b < st + n \<longrightarrow> \<not> kfs_bit_get bm b)"
proof -
  have "(\<forall>i < n. \<not> kfs_bit_get bm (st + i)) \<longleftrightarrow> (\<forall>b. st \<le> b \<and> b < st + n \<longrightarrow> \<not> kfs_bit_get bm b)"
    by (metis add_less_cancel_left le_add1 le_add_diff_inverse)
  then show ?thesis by (auto simp: run_free_def list_all_iff)
qed

lemma alloc_scan_Some:
  "alloc_scan bm tot n st = Some r \<Longrightarrow> st \<le> r \<and> r + n \<le> tot \<and> run_free bm r n"
proof (induction bm tot n st rule: alloc_scan.induct)
  case (1 bm tot n st)
  then show ?case by (subst (asm) (2) alloc_scan.simps) (auto split: if_splits)
qed

lemma alloc_scan_None:
  "alloc_scan bm tot n st = None \<Longrightarrow> st \<le> r \<Longrightarrow> r + n \<le> tot \<Longrightarrow> \<not> run_free bm r n"
proof (induction bm tot n st rule: alloc_scan.induct)
  case (1 bm tot n st)
  then show ?case by (subst (asm) (2) alloc_scan.simps) (auto split: if_splits simp: le_eq_less_or_eq [of st])
qed

subsection \<open>Blocks through the cache\<close>

lemma rd_blk_image:
  assumes "disk_image (cache s) bd D" "unat b < unat (bd_nblocks bd)"
  obtains c' where "rd_blk bd b s = Some (Some (D (unat b)), s\<lparr>cache := c'\<rparr>)" "disk_image c' bd D"
proof -
  obtain c' where "bd_read_block bd b (cache s) = Some (Some (D (unat b)), c')" "disk_image c' bd D"
    using blocks.rd_img [OF assms] by blast
  then show thesis using that by (simp add: rd_blk_def)
qed

lemma wr_blk_image:
  assumes "disk_image (cache s) bd D" "unat b < unat (bd_nblocks bd)" "length x = 512"
  obtains c' where "wr_blk bd b x s = Some (0, s\<lparr>cache := c'\<rparr>)" "disk_image c' bd (D(unat b := x))"
proof -
  obtain c' where "bd_write_block bd b x (cache s) = Some (0, c')" "disk_image c' bd (D(unat b := x))"
    using blocks.wr_img [OF assms] by blast
  then show thesis using that by (simp add: wr_blk_def)
qed

lemma unat_blkno: "b < 4096 \<Longrightarrow> unat (of_nat b :: u32) = b"
  by (simp add: unat_of_nat take_bit_nat_eq_self_iff)

lemma alloc_total_bounds: "alloc_total bd \<le> unat (bd_nblocks bd)" "alloc_total bd \<le> 4096"
  by (simp_all add: alloc_total_def consts_def)

lemma zero_run_image:
  assumes "disk_image (cache s) bd D" "st + n \<le> alloc_total bd"
  shows "\<exists>c'. zero_run bd st n s = Some (True, s\<lparr>cache := c'\<rparr>)
    \<and> disk_image c' bd (\<lambda>b. if st \<le> b \<and> b < st + n then replicate 512 0 else D b)"
  using assms
proof (induction n arbitrary: st s D)
  case 0
  have "(\<lambda>b. if st \<le> b \<and> b < st then replicate 512 0 else D b) = D" by (auto simp: fun_eq_iff)
  with 0 show ?case by (intro exI [of _ "cache s"]) simp
next
  case (Suc n)
  have b: "unat (of_nat st :: u32) = st" "st < unat (bd_nblocks bd)"
    using Suc.prems(2) alloc_total_bounds [of bd] by (auto intro!: unat_blkno)
  obtain c1 where c1: "wr_blk bd (of_nat st) (replicate 512 0) s = Some (0, s\<lparr>cache := c1\<rparr>)"
    "disk_image c1 bd (D(st := replicate 512 0))"
    using wr_blk_image [OF Suc.prems(1), of "of_nat st" "replicate 512 0"] b by auto
  have im: "disk_image (cache (s\<lparr>cache := c1\<rparr>)) bd (D(st := replicate 512 0))" using c1(2) by simp
  have le: "Suc st + n \<le> alloc_total bd" using Suc.prems(2) by simp
  from Suc.IH [OF im le] obtain c2 where
    c2: "zero_run bd (Suc st) n (s\<lparr>cache := c1\<rparr>) = Some (True, s\<lparr>cache := c2\<rparr>)"
    "disk_image c2 bd (\<lambda>b. if Suc st \<le> b \<and> b < Suc st + n then replicate 512 0 else (D(st := replicate 512 0)) b)"
    by auto
  have "(\<lambda>b. if Suc st \<le> b \<and> b < Suc st + n then replicate 512 0 else (D(st := replicate 512 0)) b)
      = (\<lambda>b. if st \<le> b \<and> b < st + Suc n then replicate 512 0 else D b)" by auto
  with c1(1) c2 show ?case by (intro exI [of _ c2]) (simp add: consts_def)
qed

lemma mnt_for_set_bitmap [simp]: "mi < length (kfs_mnts s) \<Longrightarrow> kfs_mnt_for bd (set_bitmap mi bm s) = kfs_mnt_for bd s"
proof -
  assume "mi < length (kfs_mnts s)"
  then have "m_bd (kfs_mnts (set_bitmap mi bm s) ! i) = m_bd (kfs_mnts s ! i)" for i
    by (cases "i = mi") (simp_all add: set_bitmap_def)
  then show ?thesis by (simp add: kfs_mnt_for_def)
qed

lemma mnt_for_fields [simp]:
  "kfs_mnt_for bd (s\<lparr>cache := c\<rparr>) = kfs_mnt_for bd s" "cache (set_bitmap mi bm s) = cache s"
  "length (kfs_mnts (set_bitmap mi bm s)) = length (kfs_mnts s)"
  "mi < length (kfs_mnts s) \<Longrightarrow> m_bitmap (kfs_mnts (set_bitmap mi bm s) ! mi) = bm"
  by (simp_all add: kfs_mnt_for_def set_bitmap_def)

lemma mnt_for_bd: "kfs_mnt_for bd s = Some mi \<Longrightarrow> m_bd (kfs_mnts s ! mi) = Some bd"
  by (auto simp: kfs_mnt_for_def find_Some_iff)

lemma save_image:
  assumes "disk_image (cache s) bd D" "kfs_mnt_for bd s = Some mi" "mi < length (kfs_mnts s)"
    "2 < unat (bd_nblocks bd)" "length bm = 512"
  obtains c' where "kfs_bitmap_save mi (set_bitmap mi bm s) = Some ((set_bitmap mi bm s)\<lparr>cache := c'\<rparr>)"
    "disk_image c' bd (D(1 := bm))"
proof -
  have bd: "m_bd (kfs_mnts (set_bitmap mi bm s) ! mi) = Some bd"
    using mnt_for_bd [of bd "set_bitmap mi bm s" mi] assms(2,3) by simp
  obtain c' where "wr_blk bd 1 bm (set_bitmap mi bm s) = Some (0, (set_bitmap mi bm s)\<lparr>cache := c'\<rparr>)"
    "disk_image c' bd (D(unat (1 :: u32) := bm))"
    by (rule wr_blk_image [of "set_bitmap mi bm s" bd D 1 bm]) (use assms in simp_all)
  then show thesis using that bd assms(3) by (simp add: kfs_bitmap_save_def consts_def)
qed

lemma kfs_inv_blocks:
  assumes "kfs_inv bd mi ds D s"
  shows "2 < unat (bd_nblocks bd)" "length (D 1) = 512" "d \<in> ds \<Longrightarrow> d < 4096 \<and> d < unat (bd_nblocks bd)"
    "d \<in> ds \<Longrightarrow> length (D d) = 512" "2 < alloc_total bd"
proof -
  have im: "disk_image (cache s) bd D" and ok: "image_ok (alloc_total bd) ds D"
    using assms by (simp_all add: kfs_inv_def)
  show t2: "2 < alloc_total bd" using ok by (auto simp: image_ok_def consts_def)
  then show "2 < unat (bd_nblocks bd)" using alloc_total_bounds [of bd] by linarith
  then show "length (D 1) = 512" using image_length [OF im, of 1] by simp
  show d: "d \<in> ds \<Longrightarrow> d < 4096 \<and> d < unat (bd_nblocks bd)"
    using ok alloc_total_bounds [of bd] unfolding image_ok_def by (metis order.strict_trans2)
  show "d \<in> ds \<Longrightarrow> length (D d) = 512" using image_length [OF im, of d] d by simp
qed

lemma alloc_ok:
  assumes "kfs_inv bd mi ds D s" "alloc_scan (D 1) (alloc_total bd) n 3 = Some st"
  obtains c' where "kfs_alloc_block_zero bd n s
      = Some (st, (set_bitmap mi (bit_set_run (D 1) st n True) s)\<lparr>cache := c'\<rparr>)"
    "disk_image c' bd (alloc_image D st n)"
proof -
  have i: "disk_image (cache s) bd D" "kfs_mnt_for bd s = Some mi" "mi < length (kfs_mnts s)"
    "m_bitmap (kfs_mnts s ! mi) = D 1" using assms(1) by (simp_all add: kfs_inv_def)
  note st = alloc_scan_Some [OF assms(2)]
  let ?bm = "bit_set_run (D 1) st n True" and ?s = "set_bitmap mi (bit_set_run (D 1) st n True) s"
  have len: "length ?bm = 512" using kfs_inv_blocks(2) [OF assms(1)] by simp
  obtain c1 where c1: "kfs_bitmap_save mi ?s = Some (?s\<lparr>cache := c1\<rparr>)" "disk_image c1 bd (D(1 := ?bm))"
    by (rule save_image [OF i(1-3) kfs_inv_blocks(1) [OF assms(1)] len])
  have "disk_image (cache (?s\<lparr>cache := c1\<rparr>)) bd (D(1 := ?bm))" using c1(2) by simp
  from zero_run_image [OF this, of st n] st obtain c2 where
    c2: "zero_run bd st n (?s\<lparr>cache := c1\<rparr>) = Some (True, ?s\<lparr>cache := c2\<rparr>)"
    "disk_image c2 bd (\<lambda>b. if st \<le> b \<and> b < st + n then replicate 512 0 else (D(1 := ?bm)) b)" by auto
  have "(\<lambda>b. if st \<le> b \<and> b < st + n then replicate 512 0 else (D(1 := ?bm)) b) = alloc_image D st n"
    by (auto simp: alloc_image_def)
  with c2 have "disk_image c2 bd (alloc_image D st n)" by simp
  moreover have "kfs_alloc_block_zero bd n s = Some (st, ?s\<lparr>cache := c2\<rparr>)"
    using i c1 c2(1) assms(2) by (simp add: kfs_alloc_block_zero_def KFS_ROOT_BLOCK_def)
  ultimately show thesis using that by blast
qed

lemma alloc_fail:
  assumes "kfs_inv bd mi ds D s" "alloc_scan (D 1) (alloc_total bd) n 3 = None"
  shows "kfs_alloc_block_zero bd n s = Some (0, s)"
  using assms by (simp add: kfs_alloc_block_zero_def kfs_inv_def KFS_ROOT_BLOCK_def)

lemma free_ok:
  assumes "disk_image (cache s) bd D" "kfs_mnt_for bd s = Some mi" "mi < length (kfs_mnts s)"
    "2 < unat (bd_nblocks bd)" "length (m_bitmap (kfs_mnts s ! mi)) = 512"
  obtains c' where "kfs_free_blocks bd st n s
      = Some ((set_bitmap mi (bit_set_run (m_bitmap (kfs_mnts s ! mi)) st n False) s)\<lparr>cache := c'\<rparr>)"
    "disk_image c' bd (D(1 := bit_set_run (m_bitmap (kfs_mnts s ! mi)) st n False))"
proof -
  let ?bm = "bit_set_run (m_bitmap (kfs_mnts s ! mi)) st n False"
  have len: "length ?bm = 512" using assms(5) by simp
  obtain c' where "kfs_bitmap_save mi (set_bitmap mi ?bm s) = Some ((set_bitmap mi ?bm s)\<lparr>cache := c'\<rparr>)"
    "disk_image c' bd (D(1 := ?bm))"
    by (rule save_image [OF assms(1-4) len])
  then show thesis using that assms(2) by (simp add: kfs_free_blocks_def)
qed

subsection \<open>Adding and removing an entry\<close>

text \<open>The names of a directory after filling or clearing one entry.\<close>

lemma put_de_views:
  assumes "i < 26" "j < 26" "length (de_name e) = 11" "length blk = 512"
  shows "live_de (put_de blk i e) j \<longleftrightarrow> (if j = i then de_name e ! 0 \<noteq> 0 else live_de blk j)"
    "cname (put_de blk i e) j = (if j = i then takeWhile (\<lambda>x. x \<noteq> 0) (de_name e) else cname blk j)"
  using get_put_de [OF assms] by (simp_all add: live_de_def cname_def)

lemma dir_ok_put:
  assumes "dir_ok blk" "slot < 26" "length (de_name e) = 11" "length blk = 512"
    "length (takeWhile (\<lambda>x. x \<noteq> 0) (de_name e)) < 11"
    "\<forall>i < 26. live_de blk i \<longrightarrow> cname blk i \<noteq> takeWhile (\<lambda>x. x \<noteq> 0) (de_name e)"
  shows "dir_ok (put_de blk slot e)"
proof -
  have v: "live_de (put_de blk slot e) j \<longleftrightarrow> (if j = slot then de_name e ! 0 \<noteq> 0 else live_de blk j)"
    "cname (put_de blk slot e) j = (if j = slot then takeWhile (\<lambda>x. x \<noteq> 0) (de_name e) else cname blk j)"
    if "j < 26" for j using put_de_views [OF assms(2) that assms(3,4)] by simp_all
  show ?thesis unfolding dir_ok_def
  proof (intro conjI allI impI)
    fix i assume "i < 26" "live_de (put_de blk slot e) i"
    then show "length (cname (put_de blk slot e) i) < 11"
      using assms(1,5) v [of i] by (auto simp: dir_ok_def split: if_splits)
  next
    fix i j assume a: "i < 26" "j < 26" "live_de (put_de blk slot e) i" "live_de (put_de blk slot e) j"
      "cname (put_de blk slot e) i = cname (put_de blk slot e) j"
    show "i = j"
    proof (cases "i = slot \<or> j = slot")
      case True
      then show ?thesis using a assms(6) v [OF a(1)] v [OF a(2)] by (metis)
    next
      case False
      then show ?thesis using a assms(1) v [OF a(1)] v [OF a(2)] unfolding dir_ok_def by metis
    qed
  qed
qed

lemma zero_block_dead: "i < 26 \<Longrightarrow> \<not> live_de (replicate 512 0) i"
  by (simp add: live_de_def get_de_def subbytes_def)

lemma zero_block_ok: "dir_ok (replicate 512 0)"
  using zero_block_dead by (simp add: dir_ok_def)

text \<open>
  A free slot filled with an entry whose blocks were all free: the new image, on which the
  blocks of the new entry are marked and a new subdirectory is empty.
\<close>

lemma image_ok_add:
  assumes ok: "image_ok tot ds D" and d: "d \<in> ds" and slot: "slot < 26" "\<not> live_de (D d) slot"
    and e: "length (de_name e) = 11" "de_name e ! 0 \<noteq> 0" "length (takeWhile (\<lambda>x. x \<noteq> 0) (de_name e)) < 11"
      "\<forall>i < 26. live_de (D d) i \<longrightarrow> cname (D d) i \<noteq> takeWhile (\<lambda>x. x \<noteq> 0) (de_name e)"
    and ext: "\<forall>b \<in> de_extent e. 2 < b \<and> b < tot \<and> \<not> kfs_bit_get (D 1) b"
    and ds': "ds' = (if kfs_de_isdir e then insert (unat (kfs_de_start e)) ds else ds)"
    and len: "length (D d) = 512"
    and D': "D' d = put_de (D d) slot e" "\<forall>d' \<in> ds. d' \<noteq> d \<longrightarrow> D' d' = D d'"
      "kfs_de_isdir e \<Longrightarrow> D' (unat (kfs_de_start e)) = replicate 512 0"
      "\<forall>b < tot. kfs_bit_get (D' 1) b \<longleftrightarrow> kfs_bit_get (D 1) b \<or> b \<in> de_extent e"
  shows "image_ok tot ds' D'"
proof -
  let ?n = "unat (kfs_de_start e)"
  have lt: "\<forall>h b. holds D ds h b \<longrightarrow> 2 < b \<and> b < tot" and un: "\<forall>h h' b. holds D ds h b \<longrightarrow> holds D ds h' b \<longrightarrow> h = h'"
    and bits: "\<forall>b < tot. kfs_bit_get (D 1) b \<longleftrightarrow> b \<le> 2 \<or> (\<exists>h. holds D ds h b)"
    and dirs: "\<forall>d \<in> ds. dir_ok (D d) \<and> 2 \<le> d \<and> d < tot \<and> (d = 2 \<or> dir_held D ds d)"
    and subs: "\<forall>d \<in> ds. \<forall>i < 26. live_de (D d) i \<longrightarrow> kfs_de_isdir (get_de (D d) i) \<longrightarrow>
          unat (kfs_de_start (get_de (D d) i)) \<in> ds"
    using ok unfolding image_ok_def by blast+
  have nd: "?n \<notin> ds" if "kfs_de_isdir e"
  proof
    assume a: "?n \<in> ds"
    have "?n \<in> de_extent e" using that by (simp add: de_extent_def)
    then have "2 < ?n" "?n < tot" "\<not> kfs_bit_get (D 1) ?n" using ext by blast+
    moreover have "\<exists>h. holds D ds h ?n" using a dirs calculation(1) unfolding dir_held_def by fastforce
    ultimately show False using bits by blast
  qed
  have view: "live_de (D' d') i \<longleftrightarrow> live_de (D d') i \<or> (d', i) = (d, slot)"
    "(d', i) \<noteq> (d, slot) \<Longrightarrow> get_de (D' d') i = get_de (D d') i" if "d' \<in> ds" "i < 26" for d' i
  proof -
    have "live_de (D' d') i \<longleftrightarrow> live_de (D d') i \<or> (d', i) = (d, slot)
        \<and> True" using that put_de_views [OF slot(1) that(2) e(1) len] D'(1,2) e(2) slot(2)
      by (cases "d' = d") auto
    then show "live_de (D' d') i \<longleftrightarrow> live_de (D d') i \<or> (d', i) = (d, slot)" by simp
    show "(d', i) \<noteq> (d, slot) \<Longrightarrow> get_de (D' d') i = get_de (D d') i"
      using that get_put_de [OF slot(1) that(2) e(1) len] D'(1,2) by (cases "d' = d") auto
  qed
  have new: "get_de (D' d) slot = e" using get_put_de [OF slot(1) slot(1) e(1) len] D'(1) by simp
  have holds': "holds D' ds' h b \<longleftrightarrow> holds D ds h b \<or> (h = (d, slot) \<and> b \<in> de_extent e)" for h b
  proof (cases "fst h \<in> ds \<and> snd h < 26")
    case True
    then have "fst h \<in> ds'" using ds' by simp
    then show ?thesis using True view [of "fst h" "snd h"] new slot(2) unfolding holds_def
      by (cases "h = (d, slot)") (auto simp: prod_eq_iff)
  next
    case False
    then have "\<not> holds D ds h b" "h \<noteq> (d, slot)" using d slot(1) by (auto simp: holds_def)
    moreover have "\<not> holds D' ds' h b"
      using False zero_block_dead D'(3) ds' unfolding holds_def by (auto split: if_splits)
    ultimately show ?thesis by blast
  qed
  have fresh: "\<not> holds D ds h b" if "b \<in> de_extent e" for h b using that ext bits by blast
  have held: "dir_held D' ds' b" if "dir_held D ds b" for b
  proof -
    from that obtain h where h: "holds D ds h b" "kfs_de_isdir (get_de (D (fst h)) (snd h))"
      unfolding dir_held_def by blast
    then have "h \<noteq> (d, slot)" "fst h \<in> ds" "snd h < 26" using slot(2) by (auto simp: holds_def)
    then have "get_de (D' (fst h)) (snd h) = get_de (D (fst h)) (snd h)"
      using view(2) [of "fst h" "snd h"] by simp
    with h holds' show ?thesis unfolding dir_held_def by metis
  qed
  have "dir_ok (D' d') \<and> 2 \<le> d' \<and> d' < tot \<and> (d' = 2 \<or> dir_held D' ds' d')" if "d' \<in> ds'" for d'
  proof (cases "d' \<in> ds")
    case True
    have "dir_ok (D' d')"
      using True dirs D'(1,2) dir_ok_put [OF _ slot(1) e(1) len e(3,4)] d by (cases "d' = d") auto
    with True dirs held show ?thesis by blast
  next
    case False
    with that ds' have n: "d' = ?n" "kfs_de_isdir e" by (auto split: if_splits)
    then have x: "d' \<in> de_extent e" by (simp add: de_extent_def)
    then have "holds D' ds' (d, slot) d'" using holds' by blast
    then have "dir_held D' ds' d'" using n(2) new unfolding dir_held_def by (intro exI [of _ "(d, slot)"]) simp
    with x n D'(3) zero_block_ok ext show ?thesis by auto
  qed
  moreover have "KFS_ROOT_BLOCK \<in> ds'" using ok ds' by (simp add: image_ok_def)
  moreover have "\<forall>h b. holds D' ds' h b \<longrightarrow> 2 < b \<and> b < tot" using holds' lt ext by blast
  moreover have "\<forall>h h' b. holds D' ds' h b \<longrightarrow> holds D' ds' h' b \<longrightarrow> h = h'" using holds' un fresh by blast
  moreover have "unat (kfs_de_start (get_de (D' d') i)) \<in> ds'"
    if "d' \<in> ds'" "i < 26" "live_de (D' d') i" "kfs_de_isdir (get_de (D' d') i)" for d' i
  proof (cases "d' \<in> ds")
    case True
    show ?thesis
    proof (cases "(d', i) = (d, slot)")
      case eq: True
      with new that(4) ds' show ?thesis by simp
    next
      case False
      then have "live_de (D d') i" "get_de (D' d') i = get_de (D d') i"
        using view [OF True that(2)] that(3) by blast+
      with True subs that(2,4) ds' show ?thesis by auto
    qed
  next
    case False
    with that zero_block_dead D'(3) ds' show ?thesis by (auto split: if_splits)
  qed
  moreover have "\<forall>b < tot. kfs_bit_get (D' 1) b \<longleftrightarrow> b \<le> 2 \<or> (\<exists>h. holds D' ds' h b)"
    using D'(4) bits holds' by blast
  ultimately show ?thesis unfolding image_ok_def by blast
qed

lemma empty_de_simps [simp]:
  "length (de_name empty_de) = 11" "de_name empty_de ! 0 = 0" "takeWhile (\<lambda>x. x \<noteq> 0) (de_name empty_de) = []"
  by (simp_all add: empty_de_def consts_def)

lemma dir_ok_clear:
  assumes "dir_ok blk" "slot < 26" "length blk = 512"
  shows "dir_ok (put_de blk slot empty_de)"
proof -
  have v: "live_de (put_de blk slot empty_de) j \<longleftrightarrow> j \<noteq> slot \<and> live_de blk j"
    "j \<noteq> slot \<Longrightarrow> cname (put_de blk slot empty_de) j = cname blk j"
    if "j < 26" for j using put_de_views [OF assms(2) that _ assms(3), of empty_de] by simp_all
  show ?thesis using assms(1) v unfolding dir_ok_def by (metis (no_types, lifting))
qed

text \<open>A live entry cleared and its blocks unmarked; a removed subdirectory was empty.\<close>

lemma image_ok_remove:
  assumes ok: "image_ok tot ds D" and d: "d \<in> ds" and slot: "slot < 26" "live_de (D d) slot"
    and e: "e = get_de (D d) slot"
    and ds': "ds' = (if kfs_de_isdir e then ds - {unat (kfs_de_start e)} else ds)"
    and sub: "kfs_de_isdir e \<Longrightarrow> \<forall>i < 26. \<not> live_de (D (unat (kfs_de_start e))) i"
    and len: "length (D d) = 512"
    and D': "D' d = put_de (D d) slot empty_de" "\<forall>d' \<in> ds'. d' \<noteq> d \<longrightarrow> D' d' = D d'"
      "\<forall>b < tot. kfs_bit_get (D' 1) b \<longleftrightarrow> kfs_bit_get (D 1) b \<and> b \<notin> de_extent e"
  shows "image_ok tot ds' D'"
proof -
  let ?n = "unat (kfs_de_start e)"
  have lt: "\<forall>h b. holds D ds h b \<longrightarrow> 2 < b \<and> b < tot" and un: "\<forall>h h' b. holds D ds h b \<longrightarrow> holds D ds h' b \<longrightarrow> h = h'"
    and bits: "\<forall>b < tot. kfs_bit_get (D 1) b \<longleftrightarrow> b \<le> 2 \<or> (\<exists>h. holds D ds h b)"
    and dirs: "\<forall>d \<in> ds. dir_ok (D d) \<and> 2 \<le> d \<and> d < tot \<and> (d = 2 \<or> dir_held D ds d)"
    and subs: "\<forall>d \<in> ds. \<forall>i < 26. live_de (D d) i \<longrightarrow> kfs_de_isdir (get_de (D d) i) \<longrightarrow>
          unat (kfs_de_start (get_de (D d) i)) \<in> ds"
    using ok unfolding image_ok_def by blast+
  have own: "holds D ds (d, slot) b \<longleftrightarrow> b \<in> de_extent e" for b
    using d slot e by (simp add: holds_def)
  have dn: "d \<in> ds'" using d sub slot ds' by auto
  have view: "live_de (D' d') i \<longleftrightarrow> live_de (D d') i \<and> (d', i) \<noteq> (d, slot)"
    "(d', i) \<noteq> (d, slot) \<Longrightarrow> get_de (D' d') i = get_de (D d') i" if "d' \<in> ds'" "i < 26" for d' i
  proof -
    show "live_de (D' d') i \<longleftrightarrow> live_de (D d') i \<and> (d', i) \<noteq> (d, slot)"
      using that put_de_views [OF slot(1) that(2) _ len, of empty_de] D'(1,2) by (cases "d' = d") auto
    show "(d', i) \<noteq> (d, slot) \<Longrightarrow> get_de (D' d') i = get_de (D d') i"
      using that get_put_de [OF slot(1) that(2) _ len, of empty_de] D'(1,2) by (cases "d' = d") auto
  qed
  have holds': "holds D' ds' h b \<longleftrightarrow> holds D ds h b \<and> h \<noteq> (d, slot)" for h b
  proof (cases "fst h \<in> ds' \<and> snd h < 26")
    case True
    then have "fst h \<in> ds" using ds' by (auto split: if_splits)
    then show ?thesis using True view [of "fst h" "snd h"] unfolding holds_def
      by (cases "h = (d, slot)") (auto simp: prod_eq_iff)
  next
    case False
    then have "\<not> holds D ds h b" using sub ds' unfolding holds_def by (auto split: if_splits)
    moreover have "\<not> holds D' ds' h b" using False by (auto simp: holds_def)
    ultimately show ?thesis by blast
  qed
  have "dir_ok (D' d') \<and> 2 \<le> d' \<and> d' < tot \<and> (d' = 2 \<or> dir_held D' ds' d')" if "d' \<in> ds'" for d'
  proof -
    have dd: "d' \<in> ds" using that ds' by (auto split: if_splits)
    have "dir_ok (D' d')"
      using that dd dirs D'(1,2) dir_ok_clear [OF _ slot(1) len] by (cases "d' = d") auto
    moreover have "dir_held D' ds' d'" if "dir_held D ds d'"
    proof -
      from that obtain h where h: "holds D ds h d'" "kfs_de_isdir (get_de (D (fst h)) (snd h))"
        unfolding dir_held_def by blast
      have hn: "h \<noteq> (d, slot)"
      proof
        assume eq: "h = (d, slot)"
        then have "d' \<in> de_extent e" "kfs_de_isdir e" using h own e by auto
        then have "d' = ?n" "d' \<in> ds'" using \<open>d' \<in> ds'\<close> by (simp_all add: de_extent_def)
        with ds' \<open>kfs_de_isdir e\<close> show False by simp
      qed
      then have hh: "holds D' ds' h d'" using h(1) holds' by blast
      then have "fst h \<in> ds'" "snd h < 26" by (simp_all add: holds_def)
      with view(2) [of "fst h" "snd h"] hn h(2) hh show ?thesis unfolding dir_held_def by (metis prod.collapse)
    qed
    ultimately show ?thesis using dirs dd by blast
  qed
  moreover have "KFS_ROOT_BLOCK \<in> ds'"
  proof -
    have "holds D ds (d, slot) ?n" if "kfs_de_isdir e" using own that by (simp add: de_extent_def)
    then have "2 < ?n" if "kfs_de_isdir e" using lt that by blast
    then show ?thesis using ok ds' by (auto simp: image_ok_def consts_def)
  qed
  moreover have "\<forall>h b. holds D' ds' h b \<longrightarrow> 2 < b \<and> b < tot" using holds' lt by blast
  moreover have "\<forall>h h' b. holds D' ds' h b \<longrightarrow> holds D' ds' h' b \<longrightarrow> h = h'" using holds' un by blast
  moreover have "unat (kfs_de_start (get_de (D' d') i)) \<in> ds'"
    if a: "d' \<in> ds'" "i < 26" "live_de (D' d') i" "kfs_de_isdir (get_de (D' d') i)" for d' i
  proof -
    have dd: "d' \<in> ds" using a(1) ds' by (auto split: if_splits)
    have v: "live_de (D d') i" "(d', i) \<noteq> (d, slot)" "get_de (D' d') i = get_de (D d') i"
      using view [OF a(1,2)] a(3) by blast+
    let ?m = "unat (kfs_de_start (get_de (D d') i))"
    have m: "?m \<in> ds" using subs dd a(2,4) v by auto
    have "holds D ds (d', i) ?m" using dd a(2,4) v by (simp add: holds_def de_extent_def)
    then have "?m \<noteq> ?n" if "kfs_de_isdir e" using un own [of ?n] that v(2) by (auto simp: de_extent_def)
    with m v(3) ds' show ?thesis by auto
  qed
  moreover have "kfs_bit_get (D' 1) b \<longleftrightarrow> b \<le> 2 \<or> (\<exists>h. holds D' ds' h b)" if "b < tot" for b
  proof -
    have "b \<in> de_extent e \<Longrightarrow> 2 < b" using own lt by blast
    then show ?thesis using D'(3) that bits holds' own un by (metis not_le)
  qed
  ultimately show ?thesis unfolding image_ok_def by blast
qed

subsection \<open>Searching a directory block\<close>

lemma find_slot_from_Some:
  assumes "length blk = 512" "0 \<notin> set name" "length name < 11" "\<forall>i \<in> set is. i < 26"
    "find_slot_from blk name is slot = Some r"
  shows "(slot = Some r \<or> (r \<in> set is \<and> \<not> live_de blk r)) \<and> (\<forall>i \<in> set is. live_de blk i \<longrightarrow> cname blk i \<noteq> name)"
  using assms(4,5)
proof (induction "is" arbitrary: slot)
  case (Cons i "is")
  have dn: "length (de_name (get_de blk i)) = 11" using Cons.prems(1) assms(1) by (simp add: length_de_name)
  show ?case
  proof (cases "live_de blk i")
    case True
    then have "\<not> is_dup (de_name (get_de blk i)) name" "find_slot_from blk name is slot = Some r"
      using Cons.prems(2) by (auto simp: live_de_def split: if_splits)
    with Cons.IH [of slot] Cons.prems(1) is_dup_iff [OF dn assms(2,3)] True show ?thesis
      by (auto simp: cname_def)
  next
    case False
    then have "find_slot_from blk name is (if slot = None then Some i else slot) = Some r"
      using Cons.prems(2) by (simp add: live_de_def)
    with Cons.IH [of "if slot = None then Some i else slot"] Cons.prems(1) False show ?thesis
      by (auto split: if_splits)
  qed
qed simp

lemma find_slot_Some:
  assumes "kfs_dir_find_slot blk name = Some slot" "length blk = 512" "0 \<notin> set name"
  shows "slot < 26" "\<not> live_de blk slot" "length name < 11" "\<forall>i < 26. live_de blk i \<longrightarrow> cname blk i \<noteq> name"
proof -
  show l: "length name < 11" using assms(1) by (simp add: kfs_dir_find_slot_def consts_def split: if_splits)
  have "find_slot_from blk name [0..<26] None = Some slot"
    using assms(1) by (simp add: kfs_dir_find_slot_def consts_def split: if_splits)
  from find_slot_from_Some [OF assms(2,3) l _ this]
  show "slot < 26" "\<not> live_de blk slot" "\<forall>i < 26. live_de blk i \<longrightarrow> cname blk i \<noteq> name" by auto
qed

lemma find_named_Some:
  assumes "kfs_dir_find_named blk name = Some slot" "length blk = 512" "0 \<notin> set name"
  shows "slot < 26" "live_de blk slot" "cname blk slot = name"
proof -
  from assms(1) have "slot < 26" "live_de blk slot" "is_named (de_name (get_de blk slot)) name"
    by (auto simp: kfs_dir_find_named_def find_Some_iff live_de_def consts_def)
  then show "slot < 26" "live_de blk slot" "cname blk slot = name"
    using is_named_iff [OF length_de_name [of slot blk] assms(3)] assms(2) by (auto simp: cname_def)
qed

lemma dir_find_iff:
  assumes "dir_ok blk" "length blk = 512" "0 \<notin> set name"
  shows "dir_find blk name = Some e \<longleftrightarrow> (\<exists>i < 26. live_de blk i \<and> cname blk i = name \<and> get_de blk i = e)"
proof
  assume "dir_find blk name = Some e"
  then obtain i where "kfs_dir_find_named blk name = Some i" "get_de blk i = e"
    by (auto simp: dir_find_def)
  then show "\<exists>i < 26. live_de blk i \<and> cname blk i = name \<and> get_de blk i = e"
    using find_named_Some [OF _ assms(2,3)] by blast
next
  assume "\<exists>i < 26. live_de blk i \<and> cname blk i = name \<and> get_de blk i = e"
  then obtain i where i: "i < 26" "live_de blk i" "cname blk i = name" "get_de blk i = e" by blast
  have "length name < 11" using assms(1) i unfolding dir_ok_def by blast
  then have "is_named (de_name (get_de blk i)) name"
    using is_named_iff [OF length_de_name [OF i(1) assms(2)] assms(3)] i(3) by (simp add: cname_def)
  then have "kfs_dir_find_named blk name \<noteq> None"
    using i(1,2) by (auto simp: kfs_dir_find_named_def find_None_iff live_de_def consts_def)
  then obtain j where j: "kfs_dir_find_named blk name = Some j" by auto
  from find_named_Some [OF j assms(2,3)] i assms(1) have "j = i" unfolding dir_ok_def by blast
  with j i(4) show "dir_find blk name = Some e" by (simp add: dir_find_def)
qed

lemma find_slot_from_None:
  assumes "length blk = 512" "0 \<notin> set name" "length name < 11" "\<forall>i \<in> set is. i < 26"
    "find_slot_from blk name is slot = None"
  shows "(slot = None \<and> (\<forall>i \<in> set is. live_de blk i)) \<or> (\<exists>i \<in> set is. live_de blk i \<and> cname blk i = name)"
  using assms(4,5)
proof (induction "is" arbitrary: slot)
  case (Cons i "is")
  have dn: "length (de_name (get_de blk i)) = 11" using Cons.prems(1) assms(1) by (simp add: length_de_name)
  show ?case
  proof (cases "live_de blk i")
    case True
    then show ?thesis using Cons.IH [of slot] Cons.prems is_dup_iff [OF dn assms(2,3)]
      by (auto simp: live_de_def cname_def split: if_splits)
  next
    case False
    then have "find_slot_from blk name is (if slot = None then Some i else slot) = None"
      using Cons.prems(2) by (simp add: live_de_def)
    with Cons.IH [of "if slot = None then Some i else slot"] Cons.prems(1) show ?thesis by (auto split: if_splits)
  qed
qed simp

lemma find_slot_iff:
  assumes "dir_ok blk" "length blk = 512" "0 \<notin> set name"
  shows "kfs_dir_find_slot blk name \<noteq> None \<longleftrightarrow> length name < 11 \<and> dir_find blk name = None \<and> (\<exists>i < 26. \<not> live_de blk i)"
proof -
  have df: "dir_find blk name = None \<longleftrightarrow> (\<forall>i < 26. live_de blk i \<longrightarrow> cname blk i \<noteq> name)"
    using dir_find_iff [OF assms] by (metis not_None_eq)
  show ?thesis
  proof (cases "kfs_dir_find_slot blk name")
    case None
    have "dir_find blk name \<noteq> None \<or> (\<forall>i < 26. live_de blk i)" if "length name < 11"
      using find_slot_from_None [OF assms(2,3) that, of "[0..<26]" None] None that
      by (auto simp: kfs_dir_find_slot_def consts_def df)
    with None show ?thesis by auto
  next
    case (Some slot)
    then show ?thesis using find_slot_Some [OF Some assms(2,3)] df by auto
  qed
qed

lemma can_create_iff:
  assumes "dir_ok (D b)" "length (D b) = 512" "0 \<notin> set name"
  shows "can_create bd n D b name \<longleftrightarrow> kfs_dir_find_slot (D b) name \<noteq> None \<and> alloc_scan (D 1) (alloc_total bd) n 3 \<noteq> None"
proof -
  have "(\<exists>st. 2 < st \<and> st + n \<le> alloc_total bd \<and> run_free (D 1) st n) \<longleftrightarrow> alloc_scan (D 1) (alloc_total bd) n 3 \<noteq> None"
    using alloc_scan_Some [of "D 1" "alloc_total bd" n 3] alloc_scan_None [of "D 1" "alloc_total bd" n 3]
    by (metis Suc_le_eq eval_nat_numeral(3) not_None_eq)
  then show ?thesis using find_slot_iff [OF assms] by (simp add: can_create_def consts_def)
qed

lemma dir_find_put:
  assumes "dir_ok blk" "length blk = 512" "slot < 26" "\<not> live_de blk slot" "length (de_name e) = 11"
    "takeWhile (\<lambda>x. x \<noteq> 0) (de_name e) = name" "name \<noteq> []" "length name < 11"
    "\<forall>i < 26. live_de blk i \<longrightarrow> cname blk i \<noteq> name" "0 \<notin> set m"
  shows "dir_find (put_de blk slot e) m = ((dir_find blk)(name \<mapsto> e)) m"
proof -
  let ?b = "put_de blk slot e"
  have n0: "de_name e ! 0 \<noteq> 0" using assms(5-7) by (cases "de_name e") auto
  have ok: "dir_ok ?b" using assms by (intro dir_ok_put) auto
  have len: "length ?b = 512" using assms by simp
  have v: "live_de ?b j \<longleftrightarrow> j = slot \<or> live_de blk j" "cname ?b j = (if j = slot then name else cname blk j)"
    "get_de ?b j = (if j = slot then e else get_de blk j)" if "j < 26" for j
    using put_de_views [OF assms(3) that assms(5,2)] get_put_de [OF assms(3) that assms(5,2)] n0 assms(6) by auto
  show ?thesis
  proof (cases "m = name")
    case True
    then have "dir_find ?b m = Some e" using dir_find_iff [OF ok len assms(10)] v assms(3) by auto
    with True show ?thesis by simp
  next
    case False
    have "dir_find ?b m = Some x \<longleftrightarrow> dir_find blk m = Some x" for x
      using dir_find_iff [OF ok len assms(10), of x] dir_find_iff [OF assms(1,2,10), of x] v False assms(4) by metis
    with False show ?thesis by (metis fun_upd_other not_Some_eq)
  qed
qed

lemma dir_find_clear:
  assumes "dir_ok blk" "length blk = 512" "slot < 26" "live_de blk slot" "cname blk slot = name" "0 \<notin> set m"
  shows "dir_find (put_de blk slot empty_de) m = ((dir_find blk)(name := None)) m"
proof -
  let ?b = "put_de blk slot empty_de"
  have ok: "dir_ok ?b" using assms by (intro dir_ok_clear)
  have len: "length ?b = 512" using assms by simp
  have v: "live_de ?b j \<longleftrightarrow> j \<noteq> slot \<and> live_de blk j" "j \<noteq> slot \<Longrightarrow> cname ?b j = cname blk j"
    "j \<noteq> slot \<Longrightarrow> get_de ?b j = get_de blk j" if "j < 26" for j
    using put_de_views [OF assms(3) that _ assms(2), of empty_de] get_put_de [OF assms(3) that _ assms(2), of empty_de]
    by auto
  have u: "j = slot" if "j < 26" "live_de blk j" "cname blk j = name" for j
    using assms(1,3,4,5) that unfolding dir_ok_def by metis
  show ?thesis
  proof (cases "m = name")
    case True
    have "dir_find ?b m \<noteq> Some x" for x
      using dir_find_iff [OF ok len assms(6), of x] v u True by metis
    with True show ?thesis by (metis fun_upd_same not_Some_eq)
  next
    case False
    have "dir_find ?b m = Some x \<longleftrightarrow> dir_find blk m = Some x" for x
      using dir_find_iff [OF ok len assms(6), of x] dir_find_iff [OF assms(1,2,6), of x] v False assms(5) by metis
    with False show ?thesis by (metis fun_upd_other not_Some_eq)
  qed
qed

subsection \<open>Directory handlers\<close>

lemma dir_bit_clear:
  assumes "st < 4096" shows "(of_nat st :: u32) AND KFS_DE_DIR_BIT = 0"
proof -
  let ?w = "of_nat st :: u32"
  have "bit ?w 31 \<longleftrightarrow> bit (unat ?w) 31" by (simp add: bit_unsigned_iff)
  also have "\<dots> \<longleftrightarrow> odd (st div 2 ^ 31)" using unat_blkno [OF assms] by (simp add: bit_iff_odd)
  finally have n: "\<not> bit ?w 31" using assms by simp
  have k: "KFS_DE_DIR_BIT = 2 ^ 31" by (simp add: KFS_DE_DIR_BIT_def)
  show ?thesis unfolding k and_exp_eq_0_iff_not_bit by (rule n)
qed

lemma file_start:
  assumes "st < 4096"
  shows "\<not> kfs_de_isdir \<lparr>de_name = nm, de_start_block = of_nat st, de_size_bytes = sz\<rparr>"
    "unat (kfs_de_start \<lparr>de_name = nm, de_start_block = of_nat st, de_size_bytes = sz\<rparr>) = st"
  using and_not_disjoint [OF dir_bit_clear [OF assms]] dir_bit_clear [OF assms] unat_blkno [OF assms]
  by (simp_all add: kfs_de_isdir_def kfs_de_start_def flag_def)

lemma dir_start:
  assumes "st < 4096"
  shows "kfs_de_isdir \<lparr>de_name = nm, de_start_block = of_nat st OR KFS_DE_DIR_BIT, de_size_bytes = sz\<rparr>"
    "unat (kfs_de_start \<lparr>de_name = nm, de_start_block = of_nat st OR KFS_DE_DIR_BIT, de_size_bytes = sz\<rparr>) = st"
proof -
  have "KFS_DE_DIR_BIT AND NOT KFS_DE_DIR_BIT = 0" by simp
  then have "(of_nat st OR KFS_DE_DIR_BIT) AND NOT KFS_DE_DIR_BIT = (of_nat st :: u32)"
    using and_not_disjoint [OF dir_bit_clear [OF assms]] by (simp add: bit.conj_disj_distrib2)
  then show "unat (kfs_de_start \<lparr>de_name = nm, de_start_block = of_nat st OR KFS_DE_DIR_BIT, de_size_bytes = sz\<rparr>) = st"
    using unat_blkno [OF assms] by (simp add: kfs_de_start_def)
  show "kfs_de_isdir \<lparr>de_name = nm, de_start_block = of_nat st OR KFS_DE_DIR_BIT, de_size_bytes = sz\<rparr>"
    by (simp add: kfs_de_isdir_def) (simp add: flag_def KFS_DE_DIR_BIT_def)
qed

lemma image_ok_dirs: "image_ok tot ds D \<Longrightarrow> d \<in> ds \<Longrightarrow> 2 \<le> d \<and> d < tot \<and> dir_ok (D d)"
  unfolding image_ok_def by blast

lemma dirs_not_bitmap:
  assumes "kfs_inv bd mi ds D s" shows "1 \<notin> ds"
proof
  assume "1 \<in> ds"
  with assms image_ok_dirs [of "alloc_total bd" ds D 1] show False by (simp add: kfs_inv_def)
qed

lemma kfs_inv_cong:
  "cache s' = cache s \<Longrightarrow> kfs_mnts s' = kfs_mnts s \<Longrightarrow> kfs_inv bd mi ds D s' \<longleftrightarrow> kfs_inv bd mi ds D s"
  by (simp add: kfs_inv_def kfs_mnt_for_def)

lemma only_diskD:
  assumes "only_disk s s'"
  shows "dentries s' = dentries s" "inodes s' = inodes s" "kdirs s' = kdirs s" "kfiles s' = kfiles s"
    "ofiles s' = ofiles s" "cursors s' = cursors s" "kmalloc_ok s' = kmalloc_ok s" "next_obj s' = next_obj s"
    "heap_fresh s' = heap_fresh s"
  using assms by (auto simp: only_disk_def heap_fresh_def)

lemma run_avoids_dirs:
  assumes "kfs_inv bd mi ds D s" "alloc_scan (D 1) (alloc_total bd) n 3 = Some st" "d \<in> ds"
  shows "\<not> (st \<le> d \<and> d < st + n)"
proof
  assume a: "st \<le> d \<and> d < st + n"
  note st = alloc_scan_Some [OF assms(2)]
  have ok: "image_ok (alloc_total bd) ds D" using assms(1) by (simp add: kfs_inv_def)
  have "d \<noteq> 2" "d < alloc_total bd" using a st by auto
  then have "\<exists>h. holds D ds h d" using ok assms(3) unfolding image_ok_def dir_held_def by blast
  then have "kfs_bit_get (D 1) d" using ok \<open>d < alloc_total bd\<close> unfolding image_ok_def by blast
  then show False using st a by (auto simp: run_free_iff)
qed

text \<open>The image after a new entry has been written over a freshly allocated run.\<close>

lemma entry_added:
  assumes inv: "kfs_inv bd mi ds D s" and db: "db \<in> ds" and slot: "kfs_dir_find_slot (D db) name = Some slot"
    and nm: "0 \<notin> set name" "name \<noteq> []"
    and scan: "alloc_scan (D 1) (alloc_total bd) n 3 = Some st"
    and e: "de_name e = name_field name" "de_extent e = {st..<st + n}" "kfs_de_isdir e \<Longrightarrow> unat (kfs_de_start e) = st \<and> n = 1"
  shows "image_ok (alloc_total bd) (if kfs_de_isdir e then insert (unat (kfs_de_start e)) ds else ds)
    ((alloc_image D st n)(db := put_de (D db) slot e))"
proof -
  note st = alloc_scan_Some [OF scan] and b = kfs_inv_blocks [OF inv]
  note sl = find_slot_Some [OF slot b(4) [OF db] nm(1)]
  have nf: "takeWhile (\<lambda>x. x \<noteq> 0) (de_name e) = name" using name_field_cstr [OF nm(1) sl(3)] e(1) by simp
  have ok: "image_ok (alloc_total bd) ds D" using inv by (simp add: kfs_inv_def)
  have "1 \<noteq> db" using dirs_not_bitmap [OF inv] db by auto
  show ?thesis
  proof (rule image_ok_add [OF ok db sl(1,2) _ _ _ _ _ refl b(4) [OF db]])
    show "length (de_name e) = 11" using e(1) by simp
    then show "de_name e ! 0 \<noteq> 0" using nf nm(2) by (cases "de_name e") auto
    show "length (takeWhile (\<lambda>x. x \<noteq> 0) (de_name e)) < 11" using nf sl(3) by simp
    show "\<forall>i < 26. live_de (D db) i \<longrightarrow> cname (D db) i \<noteq> takeWhile (\<lambda>x. x \<noteq> 0) (de_name e)" using nf sl(4) by simp
    show "\<forall>b \<in> de_extent e. 2 < b \<and> b < alloc_total bd \<and> \<not> kfs_bit_get (D 1) b"
      using st e(2) by (auto simp: run_free_iff)
    show "((alloc_image D st n)(db := put_de (D db) slot e)) db = put_de (D db) slot e" by simp
    show "\<forall>d' \<in> ds. d' \<noteq> db \<longrightarrow> ((alloc_image D st n)(db := put_de (D db) slot e)) d' = D d'"
    proof (intro ballI impI)
      fix d' assume "d' \<in> ds" "d' \<noteq> db"
      moreover have "d' \<noteq> 1" using dirs_not_bitmap [OF inv] \<open>d' \<in> ds\<close> by auto
      ultimately show "((alloc_image D st n)(db := put_de (D db) slot e)) d' = D d'"
        using run_avoids_dirs [OF inv scan \<open>d' \<in> ds\<close>] by (auto simp: alloc_image_def)
    qed
    show "((alloc_image D st n)(db := put_de (D db) slot e)) (unat (kfs_de_start e)) = replicate 512 0"
      if "kfs_de_isdir e"
      using e(3) [OF that] run_avoids_dirs [OF inv scan db] by (auto simp: alloc_image_def)
    show "\<forall>b < alloc_total bd. kfs_bit_get (((alloc_image D st n)(db := put_de (D db) slot e)) 1) b
        \<longleftrightarrow> kfs_bit_get (D 1) b \<or> b \<in> de_extent e"
      using \<open>1 \<noteq> db\<close> st e(2) bit_get_run [of st n "D 1" True] b(2) alloc_total_bounds [of bd]
      by (auto simp: alloc_image_def)
  qed
qed

text \<open>Reading the directory block, allocating, and writing the entry back.\<close>

lemma alloc_and_write:
  assumes inv: "kfs_inv bd mi ds D s" and db: "unat b \<in> ds" and slot: "kfs_dir_find_slot (D (unat b)) name = Some slot"
    and nm: "0 \<notin> set name" "name \<noteq> []"
    and scan: "alloc_scan (D 1) (alloc_total bd) n 3 = Some st"
    and e: "de_name e = name_field name" "de_extent e = {st..<st + n}" "kfs_de_isdir e \<Longrightarrow> unat (kfs_de_start e) = st \<and> n = 1"
  obtains s1 s2 where "kfs_alloc_block_zero bd n s = Some (st, s1)"
    "wr_blk bd b (put_de (D (unat b)) slot e) s1 = Some (0, s2)"
    "kfs_inv bd mi (if kfs_de_isdir e then insert (unat (kfs_de_start e)) ds else ds)
      ((alloc_image D st n)(unat b := put_de (D (unat b)) slot e)) s2"
    "only_disk s s2"
proof -
  note bl = kfs_inv_blocks [OF inv]
  note sl = find_slot_Some [OF slot bl(4) [OF db] nm(1)]
  have i: "kfs_mnt_for bd s = Some mi" "mi < length (kfs_mnts s)" using inv by (simp_all add: kfs_inv_def)
  obtain c1 where c1: "kfs_alloc_block_zero bd n s
      = Some (st, (set_bitmap mi (bit_set_run (D 1) st n True) s)\<lparr>cache := c1\<rparr>)"
    "disk_image c1 bd (alloc_image D st n)" by (rule alloc_ok [OF inv scan])
  let ?s1 = "(set_bitmap mi (bit_set_run (D 1) st n True) s)\<lparr>cache := c1\<rparr>"
  have p: "disk_image (cache ?s1) bd (alloc_image D st n)" "unat b < unat (bd_nblocks bd)"
    "length (put_de (D (unat b)) slot e) = 512"
    using c1(2) bl(3,4) [OF db] sl(1) e(1) by simp_all
  obtain c2 where c2: "wr_blk bd b (put_de (D (unat b)) slot e) ?s1 = Some (0, ?s1\<lparr>cache := c2\<rparr>)"
    "disk_image c2 bd ((alloc_image D st n)(unat b := put_de (D (unat b)) slot e))"
    by (rule wr_blk_image [OF p])
  have b1: "((alloc_image D st n)(unat b := put_de (D (unat b)) slot e)) 1 = bit_set_run (D 1) st n True"
  proof -
    have "unat b \<noteq> 1" using dirs_not_bitmap [OF inv] db by auto
    moreover have "\<not> st \<le> 1" using alloc_scan_Some [OF scan] by simp
    ultimately show ?thesis by (simp add: alloc_image_def)
  qed
  have "kfs_inv bd mi (if kfs_de_isdir e then insert (unat (kfs_de_start e)) ds else ds)
      ((alloc_image D st n)(unat b := put_de (D (unat b)) slot e)) (?s1\<lparr>cache := c2\<rparr>)"
    unfolding kfs_inv_def using c2(2) i b1 entry_added [OF inv db slot nm scan e] by simp
  moreover have "only_disk s (?s1\<lparr>cache := c2\<rparr>)" by (auto simp: only_disk_def set_bitmap_def)
  ultimately show thesis using c1(1) c2(1) that by blast
qed

lemma kmalloc_fields:
  "kmalloc s = (r, s') \<Longrightarrow> s' = s\<lparr>next_obj := next_obj s + 1\<rparr>"
  by (simp add: kmalloc_def)

lemma dup_name_fields:
  "kfs_dup_name name s = (r, s') \<Longrightarrow> s' = s\<lparr>next_obj := next_obj s + 1\<rparr>"
  by (auto simp: kfs_dup_name_def kmalloc_def split: if_splits)

lemma mknod_regfile_fields:
  assumes "dentries s p \<noteq> None"
  obtains r s' where "vfs_mknod_regfile p nm fo pr s = Some (r, s')" "cache s' = cache s" "kfs_mnts s' = kfs_mnts s"
proof -
  obtain i s1 where s1: "new_inode INODE_REG (Some fo) pr s = (i, s1)" by force
  note f = new_inode_fields [OF s1]
  obtain pd where "dentries s1 p = Some pd" using assms f(3) by auto
  from new_dentry_live [OF this, of nm i] s1 f(1,2) that show thesis
    by (cases "kmalloc_ok s1 (next_obj s1)") (simp_all add: vfs_mknod_regfile_def)
qed

text \<open>\<open>kfs_dir_creat\<close> always returns and keeps the image consistent; when there is room the directory gains the name.\<close>

lemma kfs_dir_creat_ok:
  assumes inv: "kfs_inv bd mi ds D s" and h: "dir_handle bd ds dir d s" and nm: "0 \<notin> set name" "name \<noteq> []"
  shows "\<exists>rc s' D'. kfs_dir_creat dir name s = Some (rc, s') \<and> kfs_inv bd mi ds D' s'
    \<and> rc = (if can_create bd 64 D (unat (kd_dir_block d)) name \<and> kmalloc_ok s (next_obj s) \<and> kmalloc_ok s (next_obj s + 1) then 0 else -1)
    \<and> (if can_create bd 64 D (unat (kd_dir_block d)) name
       then \<exists>st. \<forall>m. 0 \<notin> set m \<longrightarrow> dir_find (D' (unat (kd_dir_block d))) m =
         ((dir_find (D (unat (kd_dir_block d))))(name \<mapsto> \<lparr>de_name = name_field name, de_start_block = st, de_size_bytes = 0\<rparr>)) m
       else D' = D)
    \<and> (\<forall>d' \<in> ds. d' \<noteq> unat (kd_dir_block d) \<longrightarrow> D' d' = D d')"
proof -
  let ?b = "kd_dir_block d"
  obtain dk where dk: "kfs_dir_of dir s = Some (Some dk)" "kdirs s dk = Some d" "kd_bd d = bd"
    "unat ?b \<in> ds" "dentries s (kd_dentry d) \<noteq> None" using h by (auto simp: dir_handle_def)
  note bl = kfs_inv_blocks [OF inv]
  have im: "disk_image (cache s) bd D" using inv by (simp add: kfs_inv_def)
  obtain c1 where rd: "rd_blk bd ?b s = Some (Some (D (unat ?b)), s\<lparr>cache := c1\<rparr>)" "disk_image c1 bd D"
    using rd_blk_image [OF im] bl(3) [OF dk(4)] by blast
  let ?s1 = "s\<lparr>cache := c1\<rparr>"
  have inv1: "kfs_inv bd mi ds D ?s1" using inv rd(2) by (simp add: kfs_inv_def)
  have ok: "dir_ok (D (unat ?b))" using inv image_ok_dirs [OF _ dk(4)] unfolding kfs_inv_def by blast
  note room = can_create_iff [of D "unat ?b", OF ok bl(4) [OF dk(4)] nm(1)]
  show ?thesis
  proof (cases "kfs_dir_find_slot (D (unat ?b)) name")
    case None
    then have "kfs_dir_creat dir name s = Some (-1, ?s1)" using dk rd by (simp add: kfs_dir_creat_def)
    with inv1 None show ?thesis by (auto simp: room)
  next
    case slot: (Some slot)
    show ?thesis
    proof (cases "alloc_scan (D 1) (alloc_total bd) 64 3")
      case None
      from alloc_fail [OF inv1 None] slot have "kfs_dir_creat dir name s = Some (-1, ?s1)"
        using dk rd by (simp add: kfs_dir_creat_def KFS_BLOCKS_PER_FILE_def)
      with inv1 None show ?thesis by (auto simp: room)
    next
      case scan: (Some st)
      note stb = alloc_scan_Some [OF scan]
      let ?e = "\<lparr>de_name = name_field name, de_start_block = of_nat st, de_size_bytes = 0\<rparr>"
      have lt: "st < 4096" using stb alloc_total_bounds [of bd] by simp
      have e: "\<not> kfs_de_isdir ?e" "unat (kfs_de_start ?e) = st" using file_start [OF lt] by simp_all
      have ex: "de_extent ?e = {st..<st + 64}" using e by (simp add: de_extent_def)
      obtain s2 s3 where a: "kfs_alloc_block_zero bd 64 ?s1 = Some (st, s2)"
        "wr_blk bd ?b (put_de (D (unat ?b)) slot ?e) s2 = Some (0, s3)"
        and inv3: "kfs_inv bd mi (if kfs_de_isdir ?e then insert (unat (kfs_de_start ?e)) ds else ds)
            ((alloc_image D st 64)(unat ?b := put_de (D (unat ?b)) slot ?e)) s3"
        and od: "only_disk ?s1 s3"
        by (rule alloc_and_write [OF inv1 dk(4) slot nm scan _ ex]) (use e in simp_all)
      let ?D = "(alloc_image D st 64)(unat ?b := put_de (D (unat ?b)) slot ?e)"
      note sl = find_slot_Some [OF slot bl(4) [OF dk(4)] nm(1)]
      have nf: "takeWhile (\<lambda>x. x \<noteq> 0) (de_name ?e) = name" using name_field_cstr [OF nm(1) sl(3)] by simp
      have df: "\<forall>m. 0 \<notin> set m \<longrightarrow> dir_find (?D (unat ?b)) m = ((dir_find (D (unat ?b)))(name \<mapsto> ?e)) m"
        using dir_find_put [OF ok bl(4) [OF dk(4)] sl(1,2) _ nf nm(2) sl(3,4)] by simp
      have oth: "\<forall>d' \<in> ds. d' \<noteq> unat ?b \<longrightarrow> ?D d' = D d'"
        using run_avoids_dirs [OF inv1 scan] inv dirs_not_bitmap [OF inv] by (auto simp: alloc_image_def)
      obtain kf s4 where k4: "kmalloc s3 = (kf, s4)" by force
      obtain nm' s5 where k5: "kfs_dup_name name s4 = (nm', s5)" by force
      have f5: "cache s5 = cache s3" "kfs_mnts s5 = kfs_mnts s3" "dentries s5 = dentries s"
        using kmalloc_fields [OF k4] dup_name_fields [OF k5] only_diskD [OF od] by simp_all
      have mem: "kf \<noteq> None \<longleftrightarrow> kmalloc_ok s (next_obj s)" "nm' \<noteq> None \<longleftrightarrow> kmalloc_ok s (next_obj s + 1)"
        using k4 k5 only_diskD [OF od] by (auto simp: kfs_dup_name_def kmalloc_def split: if_splits)
      have "\<exists>s'. kfs_dir_creat dir name s = Some (if kf \<noteq> None \<and> nm' \<noteq> None then 0 else -1, s') \<and> cache s' = cache s3
          \<and> kfs_mnts s' = kfs_mnts s3"
      proof (cases "kf \<noteq> None \<and> nm' \<noteq> None")
        case True
        then obtain k n where kn: "kf = Some k" "nm' = Some n" by auto
        let ?s5 = "s5\<lparr>kfiles := (kfiles s5)(k \<mapsto> \<lparr>kf_bd = bd, kf_start_block = of_nat st, kf_size_bytes = 0,
            kf_alloc_blocks = of_nat KFS_BLOCKS_PER_FILE, kf_dir_block = ?b, kf_dirent_idx = of_nat slot\<rparr>)\<rparr>"
        obtain r s6 where "vfs_mknod_regfile (kd_dentry d) n RegfileFops (FilePriv k) ?s5 = Some (r, s6)"
          "cache s6 = cache ?s5" "kfs_mnts s6 = kfs_mnts ?s5"
          by (rule mknod_regfile_fields [of ?s5]) (use f5 dk in simp)
        then show ?thesis using dk rd slot a k4 k5 kn f5 stb
          by (simp add: kfs_dir_creat_def KFS_BLOCKS_PER_FILE_def)
      next
        case False
        then show ?thesis using dk rd slot a k4 k5 f5 stb
          by (auto simp: kfs_dir_creat_def KFS_BLOCKS_PER_FILE_def split: option.splits)
      qed
      then obtain s' where r: "kfs_dir_creat dir name s = Some (if kf \<noteq> None \<and> nm' \<noteq> None then 0 else -1, s')"
        and fs': "cache s' = cache s3" "kfs_mnts s' = kfs_mnts s3" by blast
      have "can_create bd 64 D (unat ?b) name" using slot scan by (simp add: room)
      moreover have "kfs_inv bd mi ds ?D s'" using inv3 e(1) kfs_inv_cong [OF fs'] by simp
      ultimately show ?thesis using r df oth mem
        by (intro exI [of _ "if kf \<noteq> None \<and> nm' \<noteq> None then 0 else -1"] exI [of _ s'] exI [of _ ?D])
          (simp only: if_True conj_assoc simp_thms, blast)
    qed
  qed
qed

text \<open>Clearing an entry and returning its blocks to the bitmap.\<close>

lemma clear_and_free:
  assumes inv: "kfs_inv bd mi ds D s" and db: "unat b \<in> ds" and slot: "slot < 26" "live_de (D (unat b)) slot"
    and e: "e = get_de (D (unat b)) slot" "de_extent e = {st..<st + n}" "st = unat (kfs_de_start e)" "0 < n"
    and sub: "kfs_de_isdir e \<Longrightarrow> \<forall>i < 26. \<not> live_de (D st) i"
  obtains s1 s2 where "wr_blk bd b (put_de (D (unat b)) slot empty_de) s = Some (0, s1)"
    "kfs_free_blocks bd st n s1 = Some s2"
    "kfs_inv bd mi (if kfs_de_isdir e then ds - {st} else ds)
      (D(unat b := put_de (D (unat b)) slot empty_de, 1 := bit_set_run (D 1) st n False)) s2"
    "only_disk s s2" "2 < st" "st + n \<le> alloc_total bd"
proof -
  note bl = kfs_inv_blocks [OF inv]
  have ok: "image_ok (alloc_total bd) ds D" and im: "disk_image (cache s) bd D"
    and mi: "kfs_mnt_for bd s = Some mi" "mi < length (kfs_mnts s)" "m_bitmap (kfs_mnts s ! mi) = D 1"
    using inv by (simp_all add: kfs_inv_def)
  have own: "holds D ds (unat b, slot) x" if "x \<in> de_extent e" for x
    using db slot that e(1) by (simp add: holds_def)
  have rng: "2 < x \<and> x < alloc_total bd" if "x \<in> de_extent e" for x
    using own [OF that] ok unfolding image_ok_def by blast
  have "st \<in> de_extent e" "st + n - 1 \<in> de_extent e" using e(2,4) by auto
  then have st: "2 < st" "st + n \<le> alloc_total bd" using rng e(4) by fastforce+
  have b1: "unat b \<noteq> 1" using dirs_not_bitmap [OF inv] db by auto
  let ?blk = "put_de (D (unat b)) slot empty_de" and ?bm = "bit_set_run (D 1) st n False"
  have p: "unat b < unat (bd_nblocks bd)" "length ?blk = 512" using bl(3,4) [OF db] slot(1) by simp_all
  obtain c1 where c1: "wr_blk bd b ?blk s = Some (0, s\<lparr>cache := c1\<rparr>)" "disk_image c1 bd (D(unat b := ?blk))"
    by (rule wr_blk_image [OF im p])
  let ?s1 = "s\<lparr>cache := c1\<rparr>"
  have q: "disk_image (cache ?s1) bd (D(unat b := ?blk))" "kfs_mnt_for bd ?s1 = Some mi" "mi < length (kfs_mnts ?s1)"
    "length (m_bitmap (kfs_mnts ?s1 ! mi)) = 512" using c1(2) mi bl(2) by simp_all
  obtain c2 where c2: "kfs_free_blocks bd st n ?s1
      = Some ((set_bitmap mi (bit_set_run (m_bitmap (kfs_mnts ?s1 ! mi)) st n False) ?s1)\<lparr>cache := c2\<rparr>)"
    "disk_image c2 bd ((D(unat b := ?blk))(1 := bit_set_run (m_bitmap (kfs_mnts ?s1 ! mi)) st n False))"
    by (rule free_ok [OF q(1-3) bl(1) q(4)])
  let ?s2 = "(set_bitmap mi ?bm ?s1)\<lparr>cache := c2\<rparr>" and ?D = "D(unat b := ?blk, 1 := ?bm)"
  have "image_ok (alloc_total bd) (if kfs_de_isdir e then ds - {unat (kfs_de_start e)} else ds) ?D"
  proof (rule image_ok_remove [OF ok db slot e(1) refl _ bl(4) [OF db]])
    show "\<forall>i < 26. \<not> live_de (D (unat (kfs_de_start e))) i" if "kfs_de_isdir e" using sub [OF that] e(3) by simp
    show "?D (unat b) = ?blk" using b1 by simp
    show "\<forall>d' \<in> (if kfs_de_isdir e then ds - {unat (kfs_de_start e)} else ds). d' \<noteq> unat b \<longrightarrow> ?D d' = D d'"
      using dirs_not_bitmap [OF inv] by (auto split: if_splits)
    show "\<forall>x < alloc_total bd. kfs_bit_get (?D 1) x \<longleftrightarrow> kfs_bit_get (D 1) x \<and> x \<notin> de_extent e"
      using bit_get_run [of st n "D 1" False] st(2) alloc_total_bounds [of bd] bl(2) e(2) by auto
  qed
  then have "kfs_inv bd mi (if kfs_de_isdir e then ds - {st} else ds) ?D ?s2"
    unfolding kfs_inv_def using c2(2) mi q e(3) by (cases "kfs_de_isdir e") simp_all
  moreover have "kfs_free_blocks bd st n ?s1 = Some ?s2" using c2(1) mi(3) by simp
  moreover have "only_disk s ?s2" by (auto simp: only_disk_def set_bitmap_def)
  ultimately show thesis using that [OF c1(1)] st by blast
qed

lemma kfs_dir_unlink_ok:
  assumes inv: "kfs_inv bd mi ds D s" and h: "dir_handle bd ds dir d s" and nm: "0 \<notin> set name"
  shows "\<exists>rc s' D'. kfs_dir_unlink dir name s = Some (rc, s') \<and> kfs_inv bd mi ds D' s'
    \<and> rc = (case dir_find (D (unat (kd_dir_block d))) name of Some e \<Rightarrow> if kfs_de_isdir e then -1 else 0 | None \<Rightarrow> -1)
    \<and> (\<forall>m. 0 \<notin> set m \<longrightarrow> dir_find (D' (unat (kd_dir_block d))) m =
         (if rc = 0 then (dir_find (D (unat (kd_dir_block d))))(name := None) else dir_find (D (unat (kd_dir_block d)))) m)
    \<and> (\<forall>d' \<in> ds. d' \<noteq> unat (kd_dir_block d) \<longrightarrow> D' d' = D d') \<and> only_disk s s'
    \<and> (rc = 0 \<longrightarrow> (\<forall>e b. dir_find (D (unat (kd_dir_block d))) name = Some e \<longrightarrow> b \<in> de_extent e \<longrightarrow> \<not> kfs_bit_get (D' 1) b))"
proof -
  let ?b = "kd_dir_block d"
  obtain dk where dk: "kfs_dir_of dir s = Some (Some dk)" "kdirs s dk = Some d" "kd_bd d = bd"
    "unat ?b \<in> ds" using h by (auto simp: dir_handle_def)
  note bl = kfs_inv_blocks [OF inv]
  have im: "disk_image (cache s) bd D" using inv by (simp add: kfs_inv_def)
  obtain c1 where rd: "rd_blk bd ?b s = Some (Some (D (unat ?b)), s\<lparr>cache := c1\<rparr>)" "disk_image c1 bd D"
    using rd_blk_image [OF im] bl(3) [OF dk(4)] by blast
  let ?s1 = "s\<lparr>cache := c1\<rparr>"
  have inv1: "kfs_inv bd mi ds D ?s1" using inv rd(2) by (simp add: kfs_inv_def)
  have od1: "only_disk s ?s1" unfolding only_disk_def by (intro exI [of _ "kfs_mnts s"] exI [of _ c1]) simp
  show ?thesis
  proof (cases "kfs_dir_find_named (D (unat ?b)) name")
    case None
    then have "kfs_dir_unlink dir name s = Some (-1, ?s1)" using dk rd by (simp add: kfs_dir_unlink_def)
    with inv1 od1 None show ?thesis by (auto simp: dir_find_def)
  next
    case slot: (Some slot)
    note sl = find_named_Some [OF slot bl(4) [OF dk(4)] nm]
    let ?e = "get_de (D (unat ?b)) slot"
    show ?thesis
    proof (cases "kfs_de_isdir ?e")
      case True
      then have "kfs_dir_unlink dir name s = Some (-1, ?s1)" using dk rd slot by (simp add: kfs_dir_unlink_def)
      with inv1 od1 slot True show ?thesis by (auto simp: dir_find_def)
    next
      case False
      let ?st = "unat (kfs_de_start ?e)"
      have ex: "de_extent ?e = {?st..<?st + 64}" using False by (simp add: de_extent_def)
      obtain s2 s3 where a: "wr_blk bd ?b (put_de (D (unat ?b)) slot empty_de) ?s1 = Some (0, s2)"
        "kfs_free_blocks bd ?st 64 s2 = Some s3"
        "kfs_inv bd mi (if kfs_de_isdir ?e then ds - {?st} else ds)
          (D(unat ?b := put_de (D (unat ?b)) slot empty_de, 1 := bit_set_run (D 1) ?st 64 False)) s3"
        "only_disk ?s1 s3" "2 < ?st" "?st + 64 \<le> alloc_total bd"
        by (rule clear_and_free [OF inv1 dk(4) sl(1,2) refl ex refl]) (use False in simp_all)
      let ?D = "D(unat ?b := put_de (D (unat ?b)) slot empty_de, 1 := bit_set_run (D 1) ?st 64 False)"
      have "kfs_de_start ?e \<noteq> 0" using a(5) by auto
      then have "kfs_dir_unlink dir name s = Some (0, s3)" using dk rd slot a(1,2) False
        by (simp add: kfs_dir_unlink_def KFS_BLOCKS_PER_FILE_def)
      moreover have "kfs_inv bd mi ds ?D s3" using a(3) False by simp
      moreover have b1: "unat ?b \<noteq> 1" using dirs_not_bitmap [OF inv] dk(4) by auto
      moreover have "dir_ok (D (unat ?b))" using inv image_ok_dirs [OF _ dk(4)] unfolding kfs_inv_def by blast
      then have "\<forall>m. 0 \<notin> set m \<longrightarrow> dir_find (?D (unat ?b)) m = ((dir_find (D (unat ?b)))(name := None)) m"
        using dir_find_clear [OF _ bl(4) [OF dk(4)] sl(1,2,3)] b1 by simp
      moreover have "\<forall>d' \<in> ds. d' \<noteq> unat ?b \<longrightarrow> ?D d' = D d'" using dirs_not_bitmap [OF inv] by auto
      moreover have df: "dir_find (D (unat ?b)) name = Some ?e" using slot by (simp add: dir_find_def)
      moreover have "only_disk s s3" using a(4) by (auto simp: only_disk_def)
      moreover have "\<not> kfs_bit_get (?D 1) x" if "x \<in> de_extent ?e" for x
        using that ex bit_get_run [of ?st 64 "D 1" False x] a(6) alloc_total_bounds(2) [of bd] bl(2) by simp
      ultimately show ?thesis using False by (intro exI [of _ 0] exI [of _ s3] exI [of _ ?D]) simp
    qed
  qed
qed

lemma kfs_dir_rmdir_ok:
  assumes inv: "kfs_inv bd mi ds D s" and h: "dir_handle bd ds dir d s" and nm: "0 \<notin> set name"
  shows "\<exists>rc s' D' ds'. kfs_dir_rmdir dir name s = Some (rc, s') \<and> kfs_inv bd mi ds' D' s' \<and> ds' \<subseteq> ds
    \<and> rc = (case dir_find (D (unat (kd_dir_block d))) name of
         Some e \<Rightarrow> if kfs_de_isdir e \<and> (\<forall>i < 26. \<not> live_de (D (unat (kfs_de_start e))) i) then 0 else -1 | None \<Rightarrow> -1)
    \<and> (\<forall>m. 0 \<notin> set m \<longrightarrow> dir_find (D' (unat (kd_dir_block d))) m =
         (if rc = 0 then (dir_find (D (unat (kd_dir_block d))))(name := None) else dir_find (D (unat (kd_dir_block d)))) m)
    \<and> (\<forall>d' \<in> ds'. d' \<noteq> unat (kd_dir_block d) \<longrightarrow> D' d' = D d')"
proof -
  let ?b = "kd_dir_block d"
  obtain dk where dk: "kfs_dir_of dir s = Some (Some dk)" "kdirs s dk = Some d" "kd_bd d = bd"
    "unat ?b \<in> ds" using h by (auto simp: dir_handle_def)
  note bl = kfs_inv_blocks [OF inv]
  have im: "disk_image (cache s) bd D" and ok: "image_ok (alloc_total bd) ds D" using inv by (simp_all add: kfs_inv_def)
  obtain c1 where rd: "rd_blk bd ?b s = Some (Some (D (unat ?b)), s\<lparr>cache := c1\<rparr>)" "disk_image c1 bd D"
    using rd_blk_image [OF im] bl(3) [OF dk(4)] by blast
  let ?s1 = "s\<lparr>cache := c1\<rparr>"
  have inv1: "kfs_inv bd mi ds D ?s1" using inv rd(2) by (simp add: kfs_inv_def)
  show ?thesis
  proof (cases "kfs_dir_find_named (D (unat ?b)) name")
    case None
    then have "kfs_dir_rmdir dir name s = Some (-1, ?s1)" using dk rd by (simp add: kfs_dir_rmdir_def)
    with inv1 None show ?thesis by (intro exI [of _ "-1"] exI [of _ ?s1] exI [of _ D] exI [of _ ds]) (simp add: dir_find_def)
  next
    case slot: (Some slot)
    note sl = find_named_Some [OF slot bl(4) [OF dk(4)] nm]
    let ?e = "get_de (D (unat ?b)) slot" and ?st = "unat (kfs_de_start (get_de (D (unat ?b)) slot))"
    show ?thesis
    proof (cases "kfs_de_isdir ?e")
      case False
      then have "kfs_dir_rmdir dir name s = Some (-1, ?s1)" using dk rd slot by (simp add: kfs_dir_rmdir_def)
      with inv1 slot False show ?thesis
        by (intro exI [of _ "-1"] exI [of _ ?s1] exI [of _ D] exI [of _ ds]) (simp add: dir_find_def)
    next
      case True
      have sds: "?st \<in> ds" using ok dk(4) sl True unfolding image_ok_def by blast
      have im1: "disk_image (cache ?s1) bd D" using rd(2) by simp
      obtain c2 where rd2: "rd_blk bd (kfs_de_start ?e) ?s1 = Some (Some (D ?st), ?s1\<lparr>cache := c2\<rparr>)" "disk_image c2 bd D"
        using rd_blk_image [OF im1, of "kfs_de_start ?e"] bl(3) [OF sds] by blast
      let ?s2 = "s\<lparr>cache := c2\<rparr>"
      have inv2: "kfs_inv bd mi ds D ?s2" using inv rd2(2) by (simp add: kfs_inv_def)
      have le: "list_ex (\<lambda>i. de_name (get_de (D ?st) i) ! 0 \<noteq> 0) [0..<KFS_DIRENTS] \<longleftrightarrow> \<not> (\<forall>i < 26. \<not> live_de (D ?st) i)"
        by (auto simp: list_ex_iff live_de_def consts_def)
      show ?thesis
      proof (cases "\<forall>i < 26. \<not> live_de (D ?st) i")
        case ne: False
        then have "kfs_dir_rmdir dir name s = Some (-1, ?s2)" using dk rd rd2 slot True le
          by (simp add: kfs_dir_rmdir_def)
        with inv2 slot True ne show ?thesis
          by (intro exI [of _ "-1"] exI [of _ ?s2] exI [of _ D] exI [of _ ds]) (auto simp: dir_find_def)
      next
        case empty: True
        have ex: "de_extent ?e = {?st..<?st + 1}" using True by (auto simp: de_extent_def)
        obtain s3 s4 where a: "wr_blk bd ?b (put_de (D (unat ?b)) slot empty_de) ?s2 = Some (0, s3)"
          "kfs_free_blocks bd ?st 1 s3 = Some s4"
          "kfs_inv bd mi (if kfs_de_isdir ?e then ds - {?st} else ds)
            (D(unat ?b := put_de (D (unat ?b)) slot empty_de, 1 := bit_set_run (D 1) ?st 1 False)) s4"
          "only_disk ?s2 s4" "2 < ?st" "?st + 1 \<le> alloc_total bd"
          by (rule clear_and_free [OF inv2 dk(4) sl(1,2) refl ex refl]) (use empty in simp_all)
        let ?D = "D(unat ?b := put_de (D (unat ?b)) slot empty_de, 1 := bit_set_run (D 1) ?st 1 False)"
        have "kfs_dir_rmdir dir name s = Some (0, s4)" using dk rd rd2 slot a(1,2) True le empty
          by (simp add: kfs_dir_rmdir_def)
        moreover have "kfs_inv bd mi (ds - {?st}) ?D s4" using a(3) True by simp
        moreover have b1: "unat ?b \<noteq> 1" using dirs_not_bitmap [OF inv] dk(4) by auto
        moreover have "dir_ok (D (unat ?b))" using ok image_ok_dirs [OF _ dk(4)] by blast
        then have "\<forall>m. 0 \<notin> set m \<longrightarrow> dir_find (?D (unat ?b)) m = ((dir_find (D (unat ?b)))(name := None)) m"
          using dir_find_clear [OF _ bl(4) [OF dk(4)] sl(1,2,3)] b1 by simp
        moreover have "\<forall>d' \<in> ds - {?st}. d' \<noteq> unat ?b \<longrightarrow> ?D d' = D d'" using dirs_not_bitmap [OF inv] by auto
        moreover have "dir_find (D (unat ?b)) name = Some ?e" using slot by (simp add: dir_find_def)
        ultimately show ?thesis using True empty
          by (intro exI [of _ 0] exI [of _ s4] exI [of _ ?D] exI [of _ "ds - {?st}"]) simp
      qed
    qed
  qed
qed

lemma mkdir_fields:
  assumes "dentries s p = Some pd" "heap_fresh s"
  shows "\<exists>s'. vfs_mkdir p nm s = Some (if kmalloc_ok s (next_obj s + 1) then Some (next_obj s + 1) else None, s')
    \<and> cache s' = cache s \<and> kfs_mnts s' = kfs_mnts s
    \<and> (kmalloc_ok s (next_obj s + 1) \<longrightarrow> (\<exists>e. dentries s' (next_obj s + 1) = Some e
        \<and> d_inode e = (if kmalloc_ok s (next_obj s) then Some (next_obj s) else None)
        \<and> (kmalloc_ok s (next_obj s) \<longrightarrow> inodes s' (next_obj s) \<noteq> None)))"
proof -
  obtain i s1 where s1: "new_inode INODE_DIR None NoPriv s = (i, s1)" by force
  note f = new_inode_fields [OF s1]
  have p: "p \<noteq> next_obj s1" using assms f(8) by (auto simp: heap_fresh_def)
  have "dentries s1 p = Some pd" using assms f(3) by simp
  from new_dentry_live [OF this, of nm i] s1 f
  have v: "vfs_mkdir p nm s = Some (if kmalloc_ok s (next_obj s + 1) then (Some (next_obj s + 1), linked nm i p pd s1)
      else (None, s1\<lparr>next_obj := next_obj s + 2\<rparr>))" by (simp add: vfs_mkdir_def)
  then show ?thesis using f p by (cases "kmalloc_ok s (next_obj s + 1)") (simp_all add: linked_def)
qed

text \<open>
  \<open>kfs_dir_mkdir\<close> asks for memory four times: for the name, the directory, its inode and its dentry. Only when
  the inode alone fails is the result undefined: the code writes through its NULL pointer.
\<close>

lemma kfs_dir_mkdir_ok:
  assumes inv: "kfs_inv bd mi ds D s" and h: "dir_handle bd ds dir d s" and nm: "0 \<notin> set name" "name \<noteq> []" and hf: "heap_fresh s"
  shows "if can_create bd 1 D (unat (kd_dir_block d)) name \<and> kmalloc_ok s (next_obj s) \<and> kmalloc_ok s (next_obj s + 1)
      \<and> \<not> kmalloc_ok s (next_obj s + 2) \<and> kmalloc_ok s (next_obj s + 3)
    then kfs_dir_mkdir dir name s = None
    else \<exists>rc s' D' ds'. kfs_dir_mkdir dir name s = Some (rc, s') \<and> kfs_inv bd mi ds' D' s'
      \<and> rc = (if can_create bd 1 D (unat (kd_dir_block d)) name \<and> kmalloc_ok s (next_obj s) \<and> kmalloc_ok s (next_obj s + 1)
           \<and> kmalloc_ok s (next_obj s + 3) then 0 else -1)
      \<and> (if can_create bd 1 D (unat (kd_dir_block d)) name
         then \<exists>st. ds' = insert (unat st) ds \<and> unat st \<notin> ds \<and> (\<forall>i < 26. \<not> live_de (D' (unat st)) i)
          \<and> (\<forall>m. 0 \<notin> set m \<longrightarrow> dir_find (D' (unat (kd_dir_block d))) m =
             ((dir_find (D (unat (kd_dir_block d))))(name \<mapsto>
               \<lparr>de_name = name_field name, de_start_block = st OR KFS_DE_DIR_BIT, de_size_bytes = 0\<rparr>)) m)
         else ds' = ds \<and> D' = D)
      \<and> (\<forall>d' \<in> ds. d' \<noteq> unat (kd_dir_block d) \<longrightarrow> D' d' = D d')"
proof -
  let ?b = "kd_dir_block d" and ?n = "next_obj s"
  obtain dk where dk: "kfs_dir_of dir s = Some (Some dk)" "kdirs s dk = Some d" "kd_bd d = bd"
    "unat ?b \<in> ds" "dentries s (kd_dentry d) \<noteq> None" using h by (auto simp: dir_handle_def)
  note bl = kfs_inv_blocks [OF inv]
  have im: "disk_image (cache s) bd D" using inv by (simp add: kfs_inv_def)
  obtain c1 where rd: "rd_blk bd ?b s = Some (Some (D (unat ?b)), s\<lparr>cache := c1\<rparr>)" "disk_image c1 bd D"
    using rd_blk_image [OF im] bl(3) [OF dk(4)] by blast
  let ?s1 = "s\<lparr>cache := c1\<rparr>"
  have inv1: "kfs_inv bd mi ds D ?s1" using inv rd(2) by (simp add: kfs_inv_def)
  have ok: "dir_ok (D (unat ?b))" using inv image_ok_dirs [OF _ dk(4)] unfolding kfs_inv_def by blast
  note room = can_create_iff [of D "unat ?b", OF ok bl(4) [OF dk(4)] nm(1)]
  have none: ?thesis if "kfs_dir_mkdir dir name s = Some (-1, ?s1)" "\<not> can_create bd 1 D (unat ?b) name"
    using that inv1 by auto
  show ?thesis
  proof (cases "kfs_dir_find_slot (D (unat ?b)) name")
    case None
    then show ?thesis using dk rd by (intro none) (simp_all add: kfs_dir_mkdir_def room)
  next
    case slot: (Some slot)
    show ?thesis
    proof (cases "alloc_scan (D 1) (alloc_total bd) 1 3")
      case None
      from alloc_fail [OF inv1 None] slot None show ?thesis using dk rd by (intro none) (simp_all add: kfs_dir_mkdir_def room)
    next
      case scan: (Some st)
      note stb = alloc_scan_Some [OF scan]
      let ?e = "\<lparr>de_name = name_field name, de_start_block = of_nat st OR KFS_DE_DIR_BIT, de_size_bytes = 0\<rparr>"
      have lt: "st < 4096" using stb alloc_total_bounds [of bd] by simp
      have e: "kfs_de_isdir ?e" "unat (kfs_de_start ?e) = st" using dir_start [OF lt] by simp_all
      have ex: "de_extent ?e = {st..<st + 1}" using e by (auto simp: de_extent_def)
      obtain s2 s3 where a: "kfs_alloc_block_zero bd 1 ?s1 = Some (st, s2)"
        "wr_blk bd ?b (put_de (D (unat ?b)) slot ?e) s2 = Some (0, s3)"
        and inv3: "kfs_inv bd mi (if kfs_de_isdir ?e then insert (unat (kfs_de_start ?e)) ds else ds)
            ((alloc_image D st 1)(unat ?b := put_de (D (unat ?b)) slot ?e)) s3"
        and od: "only_disk ?s1 s3"
        by (rule alloc_and_write [OF inv1 dk(4) slot nm scan _ ex]) (use e in simp_all)
      let ?D = "(alloc_image D st 1)(unat ?b := put_de (D (unat ?b)) slot ?e)"
      note sl = find_slot_Some [OF slot bl(4) [OF dk(4)] nm(1)]
      have nf: "takeWhile (\<lambda>x. x \<noteq> 0) (de_name ?e) = name" using name_field_cstr [OF nm(1) sl(3)] by simp
      have df: "\<forall>m. 0 \<notin> set m \<longrightarrow> dir_find (?D (unat ?b)) m = ((dir_find (D (unat ?b)))(name \<mapsto> ?e)) m"
        using dir_find_put [OF ok bl(4) [OF dk(4)] sl(1,2) _ nf nm(2) sl(3,4)] by simp
      have oth: "\<forall>d' \<in> ds. d' \<noteq> unat ?b \<longrightarrow> ?D d' = D d'"
        using run_avoids_dirs [OF inv1 scan] dirs_not_bitmap [OF inv] by (auto simp: alloc_image_def)
      have new: "st \<notin> ds" using run_avoids_dirs [OF inv1 scan, of st] by auto
      then have dead: "\<forall>i < 26. \<not> live_de (?D st) i" using zero_block_dead dk(4) by (auto simp: alloc_image_def)
      have can: "can_create bd 1 D (unat ?b) name" using slot scan by (simp add: room)
      obtain nm' s4 where k4: "kfs_dup_name name s3 = (nm', s4)" by force
      obtain kd s5 where k5: "kmalloc s4 = (kd, s5)" by force
      have f3: "kmalloc_ok s3 = kmalloc_ok s" "next_obj s3 = ?n" "dentries s3 = dentries s" "heap_fresh s3"
        using only_diskD [OF od] hf by (simp_all add: heap_fresh_def)
      have f5: "cache s5 = cache s3" "kfs_mnts s5 = kfs_mnts s3" "dentries s5 = dentries s"
        "kmalloc_ok s5 = kmalloc_ok s" "heap_fresh s5" "next_obj s5 = ?n + 2"
        using kmalloc_fields [OF k5] dup_name_fields [OF k4] f3 by (simp_all add: heap_fresh_def)
      have mem: "nm' \<noteq> None \<longleftrightarrow> kmalloc_ok s ?n" "kd \<noteq> None \<longleftrightarrow> kmalloc_ok s (?n + 1)"
        using k4 k5 f3 dup_name_fields [OF k4] by (auto simp: kfs_dup_name_def kmalloc_def split: if_splits)
      obtain pd where pd: "dentries s5 (kd_dentry d) = Some pd" using f5(3) dk(5) by auto
      have start: "kfs_dir_mkdir dir name s = (case (nm', kd) of
          (Some n, Some k) \<Rightarrow> Option.bind (vfs_mkdir (kd_dentry d) n s5) (\<lambda>(sd, s6). case sd of None \<Rightarrow> Some (-1, s6)
             | Some sub \<Rightarrow> Option.bind (dentries s6 sub) (\<lambda>en. Option.bind (d_inode en) (\<lambda>i. Option.bind (inodes s6 i) (\<lambda>x.
                 Some (0, s6\<lparr>kdirs := (kdirs s6)(k \<mapsto> \<lparr>kd_bd = bd, kd_dir_block = of_nat st, kd_dentry = sub\<rparr>),
                   inodes := (inodes s6)(i \<mapsto> x\<lparr>i_fops := Some KfsDirFops, i_private := DirPriv k\<rparr>)\<rparr>)))))
        | _ \<Rightarrow> Some (-1, s5))"
        using dk rd slot a k4 k5 stb by (simp add: kfs_dir_mkdir_def split: option.splits)
      have fin: ?thesis if r: "kfs_dir_mkdir dir name s = Some (if kmalloc_ok s ?n \<and> kmalloc_ok s (?n + 1) \<and> kmalloc_ok s (?n + 3) then 0 else -1, s')"
        and fs': "cache s' = cache s3" "kfs_mnts s' = kfs_mnts s3"
        and c: "\<not> (kmalloc_ok s ?n \<and> kmalloc_ok s (?n + 1) \<and> \<not> kmalloc_ok s (?n + 2) \<and> kmalloc_ok s (?n + 3))" for s'
      proof -
        have "kfs_inv bd mi (insert st ds) ?D s'" using inv3 e kfs_inv_cong [OF fs'] by simp
        moreover have "unat (of_nat st :: u32) = st" by (rule unat_blkno [OF lt])
        ultimately have "\<exists>rc s' D' ds'. kfs_dir_mkdir dir name s = Some (rc, s') \<and> kfs_inv bd mi ds' D' s'
          \<and> rc = (if kmalloc_ok s ?n \<and> kmalloc_ok s (?n + 1) \<and> kmalloc_ok s (?n + 3) then 0 else -1)
          \<and> (\<exists>st. ds' = insert (unat st) ds \<and> unat st \<notin> ds \<and> (\<forall>i < 26. \<not> live_de (D' (unat st)) i)
            \<and> (\<forall>m. 0 \<notin> set m \<longrightarrow> dir_find (D' (unat ?b)) m = ((dir_find (D (unat ?b)))(name \<mapsto>
               \<lparr>de_name = name_field name, de_start_block = st OR KFS_DE_DIR_BIT, de_size_bytes = 0\<rparr>)) m))
          \<and> (\<forall>d' \<in> ds. d' \<noteq> unat ?b \<longrightarrow> D' d' = D d')"
          using r df oth new dead
          by (intro exI [of _ "if kmalloc_ok s ?n \<and> kmalloc_ok s (?n + 1) \<and> kmalloc_ok s (?n + 3) then 0 else -1"] exI [of _ s']
            exI [of _ ?D] exI [of _ "insert st ds"] conjI exI [of _ "of_nat st"]) simp_all
        then show ?thesis using can c by (simp only: simp_thms if_True if_False)
      qed
      show ?thesis
      proof (cases "kmalloc_ok s ?n \<and> kmalloc_ok s (?n + 1)")
        case False
        then have "kfs_dir_mkdir dir name s = Some (-1, s5)" using start mem by (auto split: option.splits)
        then show ?thesis using False f5(1,2) by (intro fin [of s5]) auto
      next
        case True
        then obtain n k where kn: "nm' = Some n" "kd = Some k" using mem by auto
        have n3: "?n + 2 + 1 = ?n + 3" by simp
        obtain s6 where v: "vfs_mkdir (kd_dentry d) n s5 = Some (if kmalloc_ok s (?n + 3) then Some (?n + 3) else None, s6)"
          "cache s6 = cache s5" "kfs_mnts s6 = kfs_mnts s5"
          "kmalloc_ok s (?n + 3) \<longrightarrow> (\<exists>e. dentries s6 (?n + 3) = Some e
            \<and> d_inode e = (if kmalloc_ok s (?n + 2) then Some (?n + 2) else None)
            \<and> (kmalloc_ok s (?n + 2) \<longrightarrow> inodes s6 (?n + 2) \<noteq> None))"
          using mkdir_fields [OF pd f5(5), of n] unfolding f5(4,6) n3 by blast
        show ?thesis
        proof (cases "kmalloc_ok s (?n + 3)")
          case False
          then have "kfs_dir_mkdir dir name s = Some (-1, s6)" using start kn v(1) by simp
          then show ?thesis using False f5(1,2) v(2,3) by (intro fin [of s6]) auto
        next
          case d3: True
          then obtain en where en: "dentries s6 (?n + 3) = Some en"
            "d_inode en = (if kmalloc_ok s (?n + 2) then Some (?n + 2) else None)"
            "kmalloc_ok s (?n + 2) \<longrightarrow> inodes s6 (?n + 2) \<noteq> None" using v(4) by blast
          show ?thesis
          proof (cases "kmalloc_ok s (?n + 2)")
            case False
            then have "kfs_dir_mkdir dir name s = None" using start kn v(1) d3 en by simp
            then show ?thesis using can True False d3 by simp
          next
            case d2: True
            then obtain x where "inodes s6 (?n + 2) = Some x" using en(3) by auto
            then have "\<exists>s'. kfs_dir_mkdir dir name s = Some (0, s') \<and> cache s' = cache s3 \<and> kfs_mnts s' = kfs_mnts s3"
              using start kn v(1-3) d3 d2 en(1,2) f5(1,2) by simp
            then obtain s' where "kfs_dir_mkdir dir name s = Some (0, s')" "cache s' = cache s3" "kfs_mnts s' = kfs_mnts s3" by blast
            then show ?thesis using True d3 d2 by (intro fin [of s']) simp_all
          qed
        qed
      qed
    qed
  qed
qed

end
