(* ===== verification/Kfs_Files.thy ===== *)
theory Kfs_Files
  imports Kfs
begin

text \<open>
  File contents and whole images of \<open>uts/os/fs/kfs.c\<close>: what \<open>regfile_read\<close>, \<open>regfile_write\<close> and
  \<open>regfile_seek\<close> do to the bytes of a file and to the on-disk invariant of theory \<open>Kfs\<close>, what
  \<open>kfs_mkimage\<close> builds, and the file-system properties of the development.
\<close>

section \<open>Definitions\<close>

text \<open>Byte \<open>i\<close> of a file's 64-block run, and a file object whose run lies on the device.\<close>

definition fbyte :: "(nat \<Rightarrow> bytes) \<Rightarrow> kfs_file \<Rightarrow> nat \<Rightarrow> u8" where
  "fbyte D kf i = D (unat (kf_start_block kf) + i div 512) ! (i mod 512)"

definition file_ok :: "block_device \<Rightarrow> kfs_file \<Rightarrow> bool" where
  "file_ok bd kf \<longleftrightarrow> kf_bd kf = bd \<and> kf_alloc_blocks kf = of_nat KFS_BLOCKS_PER_FILE
     \<and> unat (kf_start_block kf) + 64 \<le> unat (bd_nblocks bd) \<and> unat (kf_size_bytes kf) \<le> 64 * 512"

text \<open>The open file's object is the one of a live file entry of a directory block.\<close>

definition file_entry :: "(nat \<Rightarrow> bytes) \<Rightarrow> nat set \<Rightarrow> kfs_file \<Rightarrow> bool" where
  "file_entry D ds kf \<longleftrightarrow> unat (kf_dir_block kf) \<in> ds \<and> unat (kf_dirent_idx kf) < 26
     \<and> live_de (D (unat (kf_dir_block kf))) (unat (kf_dirent_idx kf))
     \<and> \<not> kfs_de_isdir (get_de (D (unat (kf_dir_block kf))) (unat (kf_dirent_idx kf)))
     \<and> kfs_de_start (get_de (D (unat (kf_dir_block kf))) (unat (kf_dirent_idx kf))) = kf_start_block kf"

text \<open>The number of bytes one read returns: up to the end of the block and of the file.\<close>

definition read_count :: "kfs_file \<Rightarrow> u32 \<Rightarrow> nat \<Rightarrow> nat" where
  "read_count kf pos len = (if unat (kf_size_bytes kf) \<le> unat pos then 0
      else min (min len (512 - unat pos mod 512)) (unat (kf_size_bytes kf) - unat pos))"

text \<open>Payloads \<open>kfs_mkimage\<close> can hold: short, distinct, non-empty names; data and runs within bounds.\<close>

definition payloads_ok :: "block_device \<Rightarrow> payload list \<Rightarrow> bool" where
  "payloads_ok bd ps \<longleftrightarrow> length ps \<le> 26 \<and> 3 + 64 * length ps \<le> alloc_total bd \<and> distinct (map fst ps)
     \<and> list_all (\<lambda>(nm, dat). nm \<noteq> [] \<and> 0 \<notin> set nm \<and> length nm < 11 \<and> length dat \<le> 64 * 512) ps"

text \<open>The root directory block of an image built from payloads.\<close>

definition payload_entries :: "payload list \<Rightarrow> bytes \<Rightarrow> bool" where
  "payload_entries ps blk \<longleftrightarrow> length blk = 512 \<and> (\<forall>j < 26. get_de blk j = (if j < length ps
     then \<lparr>de_name = name_field (fst (ps ! j)), de_start_block = of_nat (3 + 64 * j),
           de_size_bytes = of_nat (length (snd (ps ! j)))\<rparr> else get_de (replicate 512 0) j))"

text \<open>
  A small running system for the concrete instances: the file layer with one directory inode 0
  on \<open>ramdisk_home_bd\<close> and one open file 0, whose entry \<open>kfs_mkimage\<close> writes to the disk.
\<close>

definition sample_file :: kfs_file where
  "sample_file = \<lparr>kf_bd = ramdisk_home_bd, kf_start_block = 3, kf_size_bytes = 3, kf_alloc_blocks = 64,
     kf_dir_block = 2, kf_dirent_idx = 0\<rparr>"

definition sample_dir :: kfs_dir where
  "sample_dir = \<lparr>kd_bd = ramdisk_home_bd, kd_dir_block = 2, kd_dentry = 0\<rparr>"

definition sample_fs :: fs where
  "sample_fs = \<lparr>dentries = [0 \<mapsto> \<lparr>d_name = [47], d_parent = Some 0, d_sibling = None, d_child = None, d_inode = Some 0\<rparr>],
     inodes = [0 \<mapsto> \<lparr>i_type = INODE_DIR, i_fops = Some KfsDirFops, i_private = DirPriv 0, i_rdev = 0, i_count = 0\<rparr>],
     kfiles = [0 \<mapsto> sample_file], kdirs = [0 \<mapsto> sample_dir], cursors = [0 \<mapsto> RegCursor 0 0],
     ofiles = [0 \<mapsto> \<lparr>f_ops = Some RegfileFops, f_inode = None, f_private = Some 0, f_refs = 1, f_flags = 0\<rparr>],
     fdts = \<lambda>_ _. None, kfs_mnts = replicate 4 \<lparr>m_bd = None, m_mountpoint = None, m_bitmap = []\<rparr>,
     cache = boot_cache (\<lambda>_. Some (replicate 512 1)) bss_cache, cdev_drivers = \<lambda>_. False,
     next_obj = 1, kmalloc_ok = \<lambda>_. True\<rparr>"

definition sample_payloads :: "payload list" where
  "sample_payloads = [([97], [1, 2, 3])]"

section \<open>Lemmas\<close>

subsection \<open>File data\<close>

lemma file_block:
  assumes "file_ok bd kf" "i < 64 * 512"
  shows "unat (kf_start_block kf + of_nat (i div 512)) = unat (kf_start_block kf) + i div 512"
    "unat (kf_start_block kf) + i div 512 < unat (bd_nblocks bd)"
proof -
  have k: "i div 512 < 64" using assms(2) by simp
  then show b: "unat (kf_start_block kf) + i div 512 < unat (bd_nblocks bd)"
    using assms(1) by (simp add: file_ok_def)
  have "unat (of_nat (i div 512) :: u32) = i div 512" using k by (intro unat_blkno) simp
  moreover have "unat (kf_start_block kf) + i div 512 < 2 ^ 32"
    using b unat_less32 [of "bd_nblocks bd"] by linarith
  ultimately show "unat (kf_start_block kf + of_nat (i div 512)) = unat (kf_start_block kf) + i div 512"
    by (simp add: unat_word_ariths)
qed

text \<open>One read-modify-write of a block, as a change to the bytes of the file.\<close>

lemma fbyte_blit:
  assumes "length (D (unat (kf_start_block kf) + p div 512)) = 512" "p mod 512 + length xs \<le> 512"
  shows "fbyte (D(unat (kf_start_block kf) + p div 512 :=
      blit (D (unat (kf_start_block kf) + p div 512)) (p mod 512) xs)) kf i
    = (if p \<le> i \<and> i < p + length xs then xs ! (i - p) else fbyte D kf i)"
proof (cases "i div 512 = p div 512")
  case True
  have i: "i = 512 * (p div 512) + i mod 512" using True by (metis mult_div_mod_eq)
  have p: "p = 512 * (p div 512) + p mod 512" by simp
  have iff: "p mod 512 \<le> i mod 512 \<longleftrightarrow> p \<le> i" "i mod 512 < p mod 512 + length xs \<longleftrightarrow> i < p + length xs"
    using i p by linarith+
  have sub: "i mod 512 - p mod 512 = i - p" using i p by linarith
  have "i mod 512 < 512" by simp
  then show ?thesis using nth_blit [of "p mod 512" xs "D (unat (kf_start_block kf) + p div 512)" "i mod 512"] assms
    by (simp add: fbyte_def True iff sub)
next
  case False
  have "\<not> (p \<le> i \<and> i < p + length xs)"
  proof
    assume a: "p \<le> i \<and> i < p + length xs"
    then have "i < 512 * (p div 512) + 512" using assms(2) by (metis add.assoc less_le_trans mult_div_mod_eq add_le_cancel_left)
    then have "i div 512 < Suc (p div 512)" by (simp add: less_mult_imp_div_less)
    moreover have "p div 512 \<le> i div 512" using a by (intro div_le_mono) simp
    ultimately show False using False by simp
  qed
  with False show ?thesis by (auto simp: fbyte_def)
qed

lemma write_loop_ok:
  assumes "disk_image (cache s) bd D" "file_ok bd kf" "pos + length src \<le> 64 * 512" "nw \<le> length src"
  shows "\<exists>c' D'. write_loop kf pos src nw s = Some (length src, s\<lparr>cache := c'\<rparr>) \<and> disk_image c' bd D'
    \<and> (\<forall>i. fbyte D' kf i = (if pos + nw \<le> i \<and> i < pos + length src then src ! (i - pos) else fbyte D kf i))
    \<and> (\<forall>b. \<not> (unat (kf_start_block kf) \<le> b \<and> b < unat (kf_start_block kf) + 64) \<longrightarrow> D' b = D b)"
  using assms
proof (induction "length src - nw" arbitrary: nw s D rule: less_induct)
  case less
  show ?case
  proof (cases "nw < length src")
    case False
    then have "write_loop kf pos src nw s = Some (length src, s\<lparr>cache := cache s\<rparr>)"
      using less.prems(4) by (simp add: write_loop.simps)
    with less.prems(1,4) False show ?thesis by (intro exI [of _ "cache s"] exI [of _ D]) auto
  next
    case True
    let ?p = "pos + nw" and ?st = "unat (kf_start_block kf)"
    let ?n = "min (512 - ?p mod 512) (length src - nw)"
    let ?b = "kf_start_block kf + of_nat (?p div 512)"
    have p: "?p < 64 * 512" using less.prems(3) True by simp
    note fb = file_block [OF less.prems(2) p]
    have bd: "kf_bd kf = bd" using less.prems(2) by (simp add: file_ok_def)
    have ub: "unat ?b < unat (bd_nblocks bd)" using fb by simp
    obtain c1 where rd: "rd_blk bd ?b s = Some (Some (D (?st + ?p div 512)), s\<lparr>cache := c1\<rparr>)" "disk_image c1 bd D"
      using rd_blk_image [OF less.prems(1) ub] fb(1) by metis
    let ?xs = "subbytes nw ?n src" and ?old = "D (?st + ?p div 512)"
    have len: "length ?old = 512" using image_length [OF less.prems(1) fb(2)] .
    have m: "?p mod 512 < 512" by simp
    have lx: "length ?xs = ?n" using True by simp
    have fit: "?p mod 512 + length ?xs \<le> 512" using lx m by linarith
    have l2: "length (blit ?old (?p mod 512) ?xs) = 512" using fit len by simp
    have im1: "disk_image (cache (s\<lparr>cache := c1\<rparr>)) bd D" using rd(2) by simp
    let ?D1 = "D(?st + ?p div 512 := blit ?old (?p mod 512) ?xs)"
    obtain c2 where wr: "wr_blk bd ?b (blit ?old (?p mod 512) ?xs) (s\<lparr>cache := c1\<rparr>) = Some (0, s\<lparr>cache := c2\<rparr>)"
      "disk_image c2 bd ?D1"
    proof -
      obtain c2 where "wr_blk bd ?b (blit ?old (?p mod 512) ?xs) (s\<lparr>cache := c1\<rparr>)
          = Some (0, (s\<lparr>cache := c1\<rparr>)\<lparr>cache := c2\<rparr>)" "disk_image c2 bd (D(unat ?b := blit ?old (?p mod 512) ?xs))"
        by (rule wr_blk_image [OF im1 ub l2])
      then show thesis using that fb(1) by simp
    qed
    have step: "write_loop kf pos src nw s = write_loop kf pos src (nw + ?n) (s\<lparr>cache := c2\<rparr>)"
      by (subst write_loop.simps) (use True rd(1) wr(1) bd in \<open>simp add: Let_def\<close>)
    have n0: "0 < ?n" using True m by simp
    have "length src - (nw + ?n) < length src - nw" using n0 True by simp
    moreover have "disk_image (cache (s\<lparr>cache := c2\<rparr>)) bd ?D1" using wr(2) by simp
    moreover have "nw + ?n \<le> length src" using True by simp
    ultimately obtain c' D' where ih: "write_loop kf pos src (nw + ?n) (s\<lparr>cache := c2\<rparr>)
          = Some (length src, (s\<lparr>cache := c2\<rparr>)\<lparr>cache := c'\<rparr>)" "disk_image c' bd D'"
        "\<forall>i. fbyte D' kf i = (if pos + (nw + ?n) \<le> i \<and> i < pos + length src then src ! (i - pos) else fbyte ?D1 kf i)"
        "\<forall>b. \<not> (?st \<le> b \<and> b < ?st + 64) \<longrightarrow> D' b = ?D1 b"
      using less.hyps [of "nw + ?n" "s\<lparr>cache := c2\<rparr>" ?D1] less.prems(2,3) by blast
    have "fbyte D' kf i = (if ?p \<le> i \<and> i < pos + length src then src ! (i - pos) else fbyte D kf i)" for i
    proof -
      have f1: "fbyte ?D1 kf i = (if ?p \<le> i \<and> i < ?p + ?n then ?xs ! (i - ?p) else fbyte D kf i)"
        using fbyte_blit [of D kf ?p ?xs i] len fit lx by simp
      have "?xs ! (i - ?p) = src ! (i - pos)" if "?p \<le> i" "i < ?p + ?n"
      proof -
        have "i - ?p < ?n" "nw + ?n \<le> length src" "nw + (i - ?p) = i - pos"
          using that True by linarith+
        then show ?thesis using nth_subbytes [of "i - ?p" ?n nw src] by (simp only: simp_thms)
      qed
      then show ?thesis using ih(3) f1 by (auto split: if_splits)
    qed
    moreover have "D' b = D b" if "\<not> (?st \<le> b \<and> b < ?st + 64)" for b
    proof -
      have "?p div 512 < 64" using p by simp
      then have "b \<noteq> ?st + ?p div 512" using that by auto
      with ih(4) that show ?thesis by simp
    qed
    ultimately show ?thesis using step ih(1,2) by (intro exI [of _ c'] exI [of _ D']) simp
  qed
qed

subsection \<open>Images with the same directory structure\<close>

text \<open>The invariant depends on names, start blocks and bitmap bits only.\<close>

lemma image_ok_cong:
  assumes ok: "image_ok tot ds D"
    and nm: "\<And>d i. d \<in> ds \<Longrightarrow> i < 26 \<Longrightarrow> de_name (get_de (D' d) i) = de_name (get_de (D d) i)"
    and st: "\<And>d i. d \<in> ds \<Longrightarrow> i < 26 \<Longrightarrow> de_start_block (get_de (D' d) i) = de_start_block (get_de (D d) i)"
    and bm: "D' 1 = D 1"
  shows "image_ok tot ds D'"
proof -
  have lv: "live_de (D' d) i = live_de (D d) i" "cname (D' d) i = cname (D d) i" if "d \<in> ds" "i < 26" for d i
    using nm [OF that] by (simp_all add: live_de_def cname_def)
  have de: "kfs_de_isdir (get_de (D' d) i) = kfs_de_isdir (get_de (D d) i)"
    "kfs_de_start (get_de (D' d) i) = kfs_de_start (get_de (D d) i)"
    "de_extent (get_de (D' d) i) = de_extent (get_de (D d) i)" if "d \<in> ds" "i < 26" for d i
    using st [OF that] by (simp_all add: kfs_de_isdir_def kfs_de_start_def de_extent_def)
  have h: "holds D' ds = holds D ds" using lv de by (auto simp: holds_def fun_eq_iff)
  have dh: "dir_held D' ds = dir_held D ds"
    using de unfolding dir_held_def h by (auto simp: fun_eq_iff holds_def)
  have dk: "dir_ok (D' d) = dir_ok (D d)" if "d \<in> ds" for d
    using lv [OF that] by (auto simp: dir_ok_def)
  show ?thesis using ok lv(1) de(1,2) dk unfolding image_ok_def h dh bm by simp
qed

lemma file_run_holds:
  assumes "file_entry D ds kf" "unat (kf_start_block kf) \<le> b" "b < unat (kf_start_block kf) + 64"
  shows "holds D ds (unat (kf_dir_block kf), unat (kf_dirent_idx kf)) b"
  using assms by (simp add: file_entry_def holds_def de_extent_def)

text \<open>A file's run avoids the directories and the reserved blocks.\<close>

lemma file_run_avoids:
  assumes inv: "kfs_inv bd mi ds D s" and fe: "file_entry D ds kf"
    and b: "unat (kf_start_block kf) \<le> b" "b < unat (kf_start_block kf) + 64"
  shows "2 < b" "b < alloc_total bd" "b \<notin> ds"
proof -
  have ok: "image_ok (alloc_total bd) ds D" using inv by (simp add: kfs_inv_def)
  note h = file_run_holds [OF fe b]
  show t: "2 < b" "b < alloc_total bd" using ok h unfolding image_ok_def by blast+
  show "b \<notin> ds"
  proof
    assume "b \<in> ds"
    then have "dir_held D ds b" using ok t(1) unfolding image_ok_def by (metis less_irrefl)
    then obtain h' where h': "holds D ds h' b" "kfs_de_isdir (get_de (D (fst h')) (snd h'))"
      by (auto simp: dir_held_def)
    then have "h' = (unat (kf_dir_block kf), unat (kf_dirent_idx kf))" using ok h unfolding image_ok_def by blast
    with h'(2) fe show False by (simp add: file_entry_def)
  qed
qed

lemma file_entry_ok:
  assumes "kfs_inv bd mi ds D s" "file_entry D ds kf" "kf_bd kf = bd" "kf_alloc_blocks kf = of_nat KFS_BLOCKS_PER_FILE"
    "unat (kf_size_bytes kf) \<le> 64 * 512"
  shows "file_ok bd kf"
proof -
  have "unat (kf_start_block kf) + 63 < alloc_total bd"
    by (rule file_run_avoids(2) [OF assms(1,2)]) simp_all
  then show ?thesis using assms(3-5) alloc_total_bounds(1) [of bd] by (simp add: file_ok_def)
qed

lemma length_de_name_unat:
  "unat (i :: u8) < 26 \<Longrightarrow> length blk = 512 \<Longrightarrow> length (de_name (get_de blk (unat i))) = 11"
  by (rule length_de_name)

text \<open>\<open>push_size\<close> changes the size field of one entry and nothing else.\<close>

lemma push_size_ok:
  assumes inv: "kfs_inv bd mi ds D s" and fe: "file_entry D ds kf" "kf_bd kf = bd"
  obtains c' where "push_size kf sz s = Some (s\<lparr>cache := c'\<rparr>)"
    "kfs_inv bd mi ds (D(unat (kf_dir_block kf) := put_de (D (unat (kf_dir_block kf))) (unat (kf_dirent_idx kf))
        ((get_de (D (unat (kf_dir_block kf))) (unat (kf_dirent_idx kf)))\<lparr>de_size_bytes := sz\<rparr>))) (s\<lparr>cache := c'\<rparr>)"
proof -
  let ?d = "unat (kf_dir_block kf)" and ?i = "unat (kf_dirent_idx kf)"
  let ?e = "(get_de (D ?d) ?i)\<lparr>de_size_bytes := sz\<rparr>"
  let ?x = "put_de (D ?d) ?i ?e" and ?D = "D(?d := put_de (D ?d) ?i ?e)"
  have d: "?d \<in> ds" "?i < 26" using fe by (simp_all add: file_entry_def)
  note bl = kfs_inv_blocks [OF inv]
  have len: "length (D ?d) = 512" "length (de_name ?e) = 11" using bl(4) d by (simp_all add: length_de_name)
  have nb: "?d < unat (bd_nblocks bd)" using bl(3) d by simp
  have im: "disk_image (cache s) bd D" and ok: "image_ok (alloc_total bd) ds D" using inv by (simp_all add: kfs_inv_def)
  obtain c1 where r: "rd_blk bd (kf_dir_block kf) s = Some (Some (D ?d), s\<lparr>cache := c1\<rparr>)" "disk_image c1 bd D"
    using rd_blk_image [OF im nb] .
  have im1: "disk_image (cache (s\<lparr>cache := c1\<rparr>)) bd D" using r(2) by simp
  have lx: "length ?x = 512" using d(2) len by simp
  obtain c2 where w: "wr_blk bd (kf_dir_block kf) ?x (s\<lparr>cache := c1\<rparr>) = Some (0, (s\<lparr>cache := c1\<rparr>)\<lparr>cache := c2\<rparr>)"
    "disk_image c2 bd ?D" by (rule wr_blk_image [OF im1 nb lx])
  have n1: "?d \<noteq> 1" using dirs_not_bitmap [OF inv] d(1) by auto
  have "image_ok (alloc_total bd) ds ?D"
    by (rule image_ok_cong [OF ok]) (use n1 d len in \<open>auto simp: get_put_de\<close>)
  then have "kfs_inv bd mi ds ?D (s\<lparr>cache := c2\<rparr>)"
    using inv w(2) n1 by (simp add: kfs_inv_def)
  moreover have "push_size kf sz s = Some (s\<lparr>cache := c2\<rparr>)"
    using r(1) w(1) fe(2) by (simp add: push_size_def)
  ultimately show thesis using that by blast
qed

subsection \<open>Reading and writing\<close>

lemma unat_plus_small: "unat (p :: u32) + n < 2 ^ 32 \<Longrightarrow> unat (p + of_nat n) = unat p + n"
  by (simp add: unat_word_ariths unat_of_nat take_bit_nat_eq_self)

lemma in_block:
  fixes p j :: nat
  assumes "p mod B + j < B"
  shows "(p + j) div B = p div B" "(p + j) mod B = p mod B + j"
proof -
  show m: "(p + j) mod B = p mod B + j" using assms by (metis mod_add_left_eq mod_less)
  have "p + j = B * (p div B) + (p mod B + j)" by (simp flip: add.assoc)
  then have "(p + j) div B = (B * (p div B) + (p mod B + j)) div B" by (rule arg_cong)
  also have "\<dots> = p div B" using assms by (subst div_mult_self4) simp_all
  finally show "(p + j) div B = p div B" .
qed

lemma run_bytes:
  assumes "p mod 512 + n \<le> 512" "length (D (unat (kf_start_block kf) + p div 512)) = 512"
  shows "subbytes (p mod 512) n (D (unat (kf_start_block kf) + p div 512)) = map (fbyte D kf) [p..<p + n]"
proof (rule nth_equalityI)
  show "length (subbytes (p mod 512) n (D (unat (kf_start_block kf) + p div 512))) = length (map (fbyte D kf) [p..<p + n])"
    using assms by simp
  fix j assume "j < length (subbytes (p mod 512) n (D (unat (kf_start_block kf) + p div 512)))"
  then have j: "j < n" using assms by simp
  have lt: "p mod 512 + j < 512" using j assms(1) by simp
  have "(p + j) div 512 = p div 512" "(p + j) mod 512 = p mod 512 + j"
    using in_block [OF lt] by simp_all
  then show "subbytes (p mod 512) n (D (unat (kf_start_block kf) + p div 512)) ! j = map (fbyte D kf) [p..<p + n] ! j"
    using j assms by (simp add: fbyte_def nth_subbytes)
qed

lemma reg_cursor_upd:
  assumes "reg_cursor f s = Some (c, k, pos)" "cursors s' = (cursors s)(c \<mapsto> RegCursor k p)" "ofiles s' = ofiles s"
  shows "reg_cursor f s' = Some (c, k, p)"
proof -
  obtain fl c' cu where o: "ofiles s f = Some fl" "f_private fl = Some c'" "cursors s c' = Some cu"
    "(case cu of RegCursor k pos \<Rightarrow> Some (c', k, pos) | BlkCursor _ \<Rightarrow> None) = Some (c, k, pos)"
    using assms(1) by (auto simp: reg_cursor_def bind_eq_Some_conv)
  then have "c' = c" by (cases cu) simp_all
  with o assms(2,3) show ?thesis by (simp add: reg_cursor_def)
qed

lemma regfile_read_ok:
  assumes im: "disk_image (cache s) bd D" and cu: "reg_cursor f s = Some (c, k, pos)" "kfiles s k = Some kf"
    and fo: "file_ok bd kf"
    and n_def: "n = read_count kf pos len"
  shows "\<exists>s'. regfile_read f len s = Some (int n, map (fbyte D kf) [unat pos..<unat pos + n], s')
    \<and> disk_image (cache s') bd D \<and> reg_cursor f s' = Some (c, k, pos + of_nat n) \<and> kfiles s' = kfiles s"
proof (cases "kf_size_bytes kf \<le> pos")
  case True
  then have "n = 0" by (simp add: n_def read_count_def word_le_nat_alt)
  then show ?thesis using True im cu by (intro exI [of _ s]) (simp add: regfile_read_def)
next
  case False
  then have lt: "unat pos < unat (kf_size_bytes kf)" by (simp add: word_le_nat_alt)
  then have p: "unat pos < 64 * 512" using fo by (simp add: file_ok_def)
  note fb = file_block [OF fo p]
  have blk: "pos div BLK_SIZE = of_nat (unat pos div 512)" "unat (pos mod BLK_SIZE) = unat pos mod 512"
    by (simp_all add: consts_def word_arith_nat_div unat_mod_distrib)
  have ub: "unat (kf_start_block kf + of_nat (unat pos div 512)) < unat (bd_nblocks bd)" using fb by simp
  obtain c1 where r: "rd_blk bd (kf_start_block kf + of_nat (unat pos div 512)) s
      = Some (Some (D (unat (kf_start_block kf) + unat pos div 512)), s\<lparr>cache := c1\<rparr>)" "disk_image c1 bd D"
    using rd_blk_image [OF im ub] fb(1) by metis
  have n: "n = min (min len (512 - unat pos mod 512)) (unat (kf_size_bytes kf) - unat pos)" using lt by (simp add: n_def read_count_def)
  have bs: "unat BLK_SIZE = 512" and kb: "kf_bd kf = bd" using fo by (simp_all add: BLK_SIZE_def file_ok_def)
  have fit: "unat pos mod 512 + n \<le> 512" by (simp add: n)
  have dat: "subbytes (unat pos mod 512) n (D (unat (kf_start_block kf) + unat pos div 512))
      = map (fbyte D kf) [unat pos..<unat pos + n]"
    by (rule run_bytes) (rule fit, rule image_length [OF im fb(2)])
  let ?s' = "s\<lparr>cache := c1, cursors := (cursors s)(c \<mapsto> RegCursor k (pos + of_nat n))\<rparr>"
  have "regfile_read f len s = Some (int n, map (fbyte D kf) [unat pos..<unat pos + n], ?s')"
    using False by (simp add: regfile_read_def Let_def cu blk bs kb r(1) n [symmetric] dat)
  moreover have "reg_cursor f ?s' = Some (c, k, pos + of_nat n)"
    by (rule reg_cursor_upd [OF cu(1)]) simp_all
  ultimately show ?thesis using r(2) by (intro exI [of _ ?s']) simp
qed


text \<open>
  A write at \<open>pos\<close> of a file of the mounted image: the bytes accepted are those that fit the
  64-block run, they are the only bytes of the run that change, of the blocks outside the run only the
  size field of the entry changes, the size grows to the end of the write, and the on-disk
  invariant is kept.
\<close>

lemma regfile_write_ok:
  assumes inv: "kfs_inv bd mi ds D s" and fe: "file_entry D ds kf" and fo: "file_ok bd kf"
    and cu: "reg_cursor f s = Some (c, k, pos)" "kfiles s k = Some kf" and p: "unat pos < 64 * 512"
    and n_def: "n = min (length src) (64 * 512 - unat pos)"
  shows "\<exists>s' D'. regfile_write f src s = Some (int n, s') \<and> kfs_inv bd mi ds D' s'
    \<and> (\<forall>i < 64 * 512. fbyte D' kf i = (if unat pos \<le> i \<and> i < unat pos + n then src ! (i - unat pos) else fbyte D kf i))
    \<and> (\<forall>b. \<not> (unat (kf_start_block kf) \<le> b \<and> b < unat (kf_start_block kf) + 64) \<longrightarrow>
         D' b = (if b = unat (kf_dir_block kf) \<and> kf_size_bytes kf < pos + of_nat n
           then put_de (D b) (unat (kf_dirent_idx kf)) ((get_de (D b) (unat (kf_dirent_idx kf)))\<lparr>de_size_bytes := pos + of_nat n\<rparr>)
           else D b))
    \<and> kfiles s' k = Some (kf\<lparr>kf_size_bytes := max (kf_size_bytes kf) (pos + of_nat n)\<rparr>)
    \<and> reg_cursor f s' = Some (c, k, pos + of_nat n) \<and> file_entry D' ds kf"
proof -
  let ?st = "unat (kf_start_block kf)" and ?d = "unat (kf_dir_block kf)" and ?i = "unat (kf_dirent_idx kf)"
  let ?src = "take n src" and ?pos' = "pos + of_nat n"
  have im: "disk_image (cache s) bd D" and ok: "image_ok (alloc_total bd) ds D" using inv by (simp_all add: kfs_inv_def)
  have kb: "kf_bd kf = bd" and mx: "unat (kf_alloc_blocks kf * BLK_SIZE) = 64 * 512"
    using fo by (simp_all add: file_ok_def consts_def)
  have src: "(if unat pos + length src > unat (kf_alloc_blocks kf * BLK_SIZE)
      then take (unat (kf_alloc_blocks kf * BLK_SIZE) - unat pos) src else src) = ?src"
    unfolding mx n_def using p by (auto simp: min_def)
  have ln: "length ?src = n" by (simp add: n_def)
  have fit: "unat pos + length ?src \<le> 64 * 512" using p by (simp add: n_def)
  obtain c1 D1 where w: "write_loop kf (unat pos) ?src 0 s = Some (n, s\<lparr>cache := c1\<rparr>)" "disk_image c1 bd D1"
    "\<forall>i. fbyte D1 kf i = (if unat pos \<le> i \<and> i < unat pos + n then ?src ! (i - unat pos) else fbyte D kf i)"
    "\<forall>b. \<not> (?st \<le> b \<and> b < ?st + 64) \<longrightarrow> D1 b = D b"
    using write_loop_ok [OF im fo fit, of 0] ln by auto
  have fb1: "fbyte D1 kf i = (if unat pos \<le> i \<and> i < unat pos + n then src ! (i - unat pos) else fbyte D kf i)" for i
    using w(3) by (auto simp: less_diff_conv2)
  have off: "\<not> (?st \<le> b \<and> b < ?st + 64)" if "b \<in> ds \<or> b \<le> 2" for b
    using file_run_avoids [OF inv fe, of b] that by auto
  have D1: "D1 b = D b" if "b \<in> ds \<or> b \<le> 2" for b using w(4) off [OF that] by simp
  have inv1: "kfs_inv bd mi ds D1 (s\<lparr>cache := c1\<rparr>)"
  proof -
    have "image_ok (alloc_total bd) ds D1" by (rule image_ok_cong [OF ok]) (simp_all add: D1)
    then show ?thesis using inv w(2) D1 [of 1] by (simp add: kfs_inv_def)
  qed
  have ds: "?d \<in> ds" "?i < 26" using fe by (simp_all add: file_entry_def)
  have fe1: "file_entry D1 ds kf" using fe D1 [of ?d] ds by (simp add: file_entry_def)
  have pos': "unat ?pos' = unat pos + n" by (rule unat_plus_small) (use fit ln in simp)
  let ?s2 = "s\<lparr>cache := c1, cursors := (cursors s)(c \<mapsto> RegCursor k ?pos')\<rparr>"
  have inv2: "kfs_inv bd mi ds D1 ?s2" using inv1 by (simp add: kfs_inv_def kfs_mnt_for_def)
  have lt: "pos < kf_alloc_blocks kf * BLK_SIZE" using mx p by (simp add: word_less_nat_alt)
  have cur: "reg_cursor f ?s2 = Some (c, k, ?pos')"
    by (rule reg_cursor_upd [OF cu(1)]) simp_all
  have run: "regfile_write f src s = (if ?pos' > kf_size_bytes kf
      then do { s3 \<leftarrow> push_size kf ?pos' (?s2\<lparr>kfiles := (kfiles ?s2)(k \<mapsto> kf\<lparr>kf_size_bytes := ?pos'\<rparr>)\<rparr>); Some (int n, s3) }
      else Some (int n, ?s2))"
    by (simp only: regfile_write_def cu Option.bind_lunit prod.case Let_def src w(1)) (use lt [unfolded not_le [symmetric]] in simp)
  show ?thesis
  proof (cases "?pos' > kf_size_bytes kf")
    case False
    then have "max (kf_size_bytes kf) ?pos' = kf_size_bytes kf" by simp
    then show ?thesis using run False inv2 fb1 w(4) cu(2) cur fe1
      by (intro exI [of _ ?s2] exI [of _ D1]) simp
  next
    case True
    let ?s3 = "?s2\<lparr>kfiles := (kfiles ?s2)(k \<mapsto> kf\<lparr>kf_size_bytes := ?pos'\<rparr>)\<rparr>"
    let ?D2 = "D1(?d := put_de (D1 ?d) ?i ((get_de (D1 ?d) ?i)\<lparr>de_size_bytes := ?pos'\<rparr>))"
    have inv3: "kfs_inv bd mi ds D1 ?s3" using inv2 by (simp add: kfs_inv_def kfs_mnt_for_def)
    obtain c4 where ps: "push_size kf ?pos' ?s3 = Some (?s3\<lparr>cache := c4\<rparr>)" "kfs_inv bd mi ds ?D2 (?s3\<lparr>cache := c4\<rparr>)"
      by (rule push_size_ok [OF inv3 fe1 kb])
    let ?s4 = "?s3\<lparr>cache := c4\<rparr>"
    have fb2: "fbyte ?D2 kf i = fbyte D1 kf i" if "i < 64 * 512" for i
    proof -
      have "i div 512 < 64" using that by simp
      then have "?st + i div 512 \<noteq> ?d" using off [of ?d] ds(1) by auto
      then show ?thesis by (simp add: fbyte_def)
    qed
    have len: "length (D1 ?d) = 512" using kfs_inv_blocks(4) [OF inv1 ds(1)] .
    have g: "get_de (?D2 ?d) ?i = (get_de (D1 ?d) ?i)\<lparr>de_size_bytes := ?pos'\<rparr>"
      using get_put_de [of ?i ?i "(get_de (D1 ?d) ?i)\<lparr>de_size_bytes := ?pos'\<rparr>" "D1 ?d"] ds len
      by (simp add: length_de_name)
    have fe2: "file_entry ?D2 ds kf"
      using fe1 unfolding file_entry_def live_de_def g by (simp add: kfs_de_isdir_def kfs_de_start_def)
    have cur4: "reg_cursor f ?s4 = Some (c, k, ?pos')" using cur by (simp add: reg_cursor_def)
    have mxs: "max (kf_size_bytes kf) ?pos' = ?pos'" using True by simp
    have "regfile_write f src s = Some (int n, ?s4)" using run True ps(1) by simp
    then show ?thesis
      by (intro exI [of _ ?s4] exI [of _ ?D2] conjI) (use ps(2) fb1 fb2 w(4) cur4 fe2 mxs True D1 [of ?d] ds(1) in \<open>simp_all\<close>)
  qed
qed

subsection \<open>Building an image\<close>

lemma mkimage_blocks_ok:
  assumes "disk_image (cache s) bd D" "blk + n \<le> alloc_total bd"
  shows "\<exists>c' D'. mkimage_blocks bd blk n dat bm s = Some (bit_set_run bm blk n True, s\<lparr>cache := c'\<rparr>)
    \<and> disk_image c' bd D' \<and> (\<forall>b. \<not> (blk \<le> b \<and> b < blk + n) \<longrightarrow> D' b = D b)
    \<and> (\<forall>p. p < length dat \<longrightarrow> p < 512 * n \<longrightarrow> D' (blk + p div 512) ! (p mod 512) = dat ! p)"
  using assms
proof (induction n arbitrary: blk dat bm s D)
  case 0
  then show ?case by (intro exI [of _ "cache s"] exI [of _ D]) simp
next
  case (Suc n)
  let ?x = "blit (replicate 512 0) 0 (take 512 dat)"
  have b: "unat (of_nat blk :: u32) = blk" "blk < unat (bd_nblocks bd)"
    using Suc.prems(2) alloc_total_bounds [of bd] by (auto intro!: unat_blkno)
  have lx: "length ?x = 512" by simp
  obtain c1 where c1: "wr_blk bd (of_nat blk) ?x s = Some (0, s\<lparr>cache := c1\<rparr>)" "disk_image c1 bd (D(blk := ?x))"
    using wr_blk_image [OF Suc.prems(1), of "of_nat blk" ?x] b lx by metis
  have im: "disk_image (cache (s\<lparr>cache := c1\<rparr>)) bd (D(blk := ?x))" using c1(2) by simp
  have le: "Suc blk + n \<le> alloc_total bd" using Suc.prems(2) by simp
  from Suc.IH [OF im le, of "drop 512 dat" "kfs_bit_set bm blk True"] obtain c' D' where
    r: "mkimage_blocks bd (Suc blk) n (drop 512 dat) (kfs_bit_set bm blk True) (s\<lparr>cache := c1\<rparr>)
      = Some (bit_set_run (kfs_bit_set bm blk True) (Suc blk) n True, s\<lparr>cache := c'\<rparr>)" "disk_image c' bd D'"
    "\<forall>b. \<not> (Suc blk \<le> b \<and> b < Suc blk + n) \<longrightarrow> D' b = (D(blk := ?x)) b"
    "\<forall>p. p < length (drop 512 dat) \<longrightarrow> p < 512 * n \<longrightarrow> D' (Suc blk + p div 512) ! (p mod 512) = drop 512 dat ! p"
    by auto
  have "D' (blk + p div 512) ! (p mod 512) = dat ! p" if p: "p < length dat" "p < 512 * Suc n" for p
  proof (cases "p < 512")
    case True
    then have "D' blk ! p = ?x ! p" using r(3) by simp
    also have "\<dots> = dat ! p" using True p nth_blit [of 0 "take 512 dat" "replicate 512 0" p] by simp
    finally show ?thesis using True by simp
  next
    case False
    then have "p div 512 = Suc ((p - 512) div 512)" "p mod 512 = (p - 512) mod 512"
      by (simp_all add: le_div_geq le_mod_geq)
    then show ?thesis using r(4) p False by simp
  qed
  moreover have "D' b = D b" if "\<not> (blk \<le> b \<and> b < blk + Suc n)" for b using r(3) that by auto
  ultimately show ?case using c1(1) r(1,2) by (intro exI [of _ c'] exI [of _ D']) (simp add: consts_def)
qed

text \<open>The entries, bitmap bits and contents written for a list of payloads.\<close>

lemma mkimage_files_ok:
  assumes "disk_image (cache s) bd D" "i + length ps \<le> 26" "cur + 64 * length ps \<le> alloc_total bd"
    "length dir = 512" "length bm = 512"
  shows "\<exists>dir' bm' c' D'. mkimage_files bd ps i cur dir bm s = Some (dir', bm', s\<lparr>cache := c'\<rparr>)
    \<and> disk_image c' bd D' \<and> length dir' = 512 \<and> length bm' = 512
    \<and> (\<forall>j < 26. get_de dir' j = (if i \<le> j \<and> j < i + length ps
         then \<lparr>de_name = name_field (fst (ps ! (j - i))), de_start_block = of_nat (cur + 64 * (j - i)),
               de_size_bytes = of_nat (length (snd (ps ! (j - i))))\<rparr> else get_de dir j))
    \<and> (\<forall>b. kfs_bit_get bm' b \<longleftrightarrow> kfs_bit_get bm b \<or> cur \<le> b \<and> b < cur + 64 * length ps)
    \<and> (\<forall>b. \<not> (cur \<le> b \<and> b < cur + 64 * length ps) \<longrightarrow> D' b = D b)
    \<and> (\<forall>j p. j < length ps \<longrightarrow> p < length (snd (ps ! j)) \<longrightarrow> p < 64 * 512 \<longrightarrow>
         D' (cur + 64 * j + p div 512) ! (p mod 512) = snd (ps ! j) ! p)"
  using assms
proof (induction ps arbitrary: i cur dir bm s D)
  case Nil
  show ?case
    by (rule exI [of _ dir], rule exI [of _ bm], rule exI [of _ "cache s"], rule exI [of _ D]) (use Nil in auto)
next
  case (Cons a ps)
  obtain nm dat where a: "a = (nm, dat)" by (cases a)
  let ?e = "\<lparr>de_name = name_field nm, de_start_block = of_nat cur, de_size_bytes = of_nat (length dat)\<rparr>"
  have i: "i < 26" using Cons.prems(2) by simp
  have le: "cur + 64 \<le> alloc_total bd" "cur + 64 \<le> 4096" using Cons.prems(3) alloc_total_bounds(2) [of bd] by simp_all
  obtain c1 D1 where b: "mkimage_blocks bd cur 64 dat bm s = Some (bit_set_run bm cur 64 True, s\<lparr>cache := c1\<rparr>)"
    "disk_image c1 bd D1" "\<forall>b. \<not> (cur \<le> b \<and> b < cur + 64) \<longrightarrow> D1 b = D b"
    "\<forall>p. p < length dat \<longrightarrow> p < 512 * 64 \<longrightarrow> D1 (cur + p div 512) ! (p mod 512) = dat ! p"
    using mkimage_blocks_ok [OF Cons.prems(1) le(1), of dat bm] by blast
  have pre: "disk_image (cache (s\<lparr>cache := c1\<rparr>)) bd D1" "Suc i + length ps \<le> 26"
    "cur + 64 + 64 * length ps \<le> alloc_total bd" "length (put_de dir i ?e) = 512"
    "length (bit_set_run bm cur 64 True) = 512" using b(2) Cons.prems i by simp_all
  from Cons.IH [OF pre] obtain dir' bm' c' D' where
    r: "mkimage_files bd ps (Suc i) (cur + 64) (put_de dir i ?e) (bit_set_run bm cur 64 True) (s\<lparr>cache := c1\<rparr>)
        = Some (dir', bm', s\<lparr>cache := c'\<rparr>)" "disk_image c' bd D'" "length dir' = 512" "length bm' = 512"
    "\<forall>j < 26. get_de dir' j = (if Suc i \<le> j \<and> j < Suc i + length ps
         then \<lparr>de_name = name_field (fst (ps ! (j - Suc i))), de_start_block = of_nat (cur + 64 + 64 * (j - Suc i)),
               de_size_bytes = of_nat (length (snd (ps ! (j - Suc i))))\<rparr> else get_de (put_de dir i ?e) j)"
    "\<forall>b. kfs_bit_get bm' b \<longleftrightarrow> kfs_bit_get (bit_set_run bm cur 64 True) b \<or> cur + 64 \<le> b \<and> b < cur + 64 + 64 * length ps"
    "\<forall>b. \<not> (cur + 64 \<le> b \<and> b < cur + 64 + 64 * length ps) \<longrightarrow> D' b = D1 b"
    "\<forall>j p. j < length ps \<longrightarrow> p < length (snd (ps ! j)) \<longrightarrow> p < 64 * 512 \<longrightarrow>
         D' (cur + 64 + 64 * j + p div 512) ! (p mod 512) = snd (ps ! j) ! p"
    by auto
  show ?case
  proof (rule exI [of _ dir'], rule exI [of _ bm'], rule exI [of _ c'], rule exI [of _ D'], intro conjI allI impI)
    show "mkimage_files bd (a # ps) i cur dir bm s = Some (dir', bm', s\<lparr>cache := c'\<rparr>)"
      using b(1) r(1) i by (simp add: a KFS_DIRENTS_def KFS_BLOCKS_PER_FILE_def)
    show "get_de dir' j = (if i \<le> j \<and> j < i + length (a # ps)
         then \<lparr>de_name = name_field (fst ((a # ps) ! (j - i))), de_start_block = of_nat (cur + 64 * (j - i)),
               de_size_bytes = of_nat (length (snd ((a # ps) ! (j - i))))\<rparr> else get_de dir j)" if "j < 26" for j
    proof (cases "j \<le> i")
      case True
      then show ?thesis using r(5) that i Cons.prems(4) get_put_de [of i j ?e dir] by (simp add: a)
    next
      case False
      then have ji: "j - i = Suc (j - Suc i)" "cur + 64 + 64 * (j - Suc i) = cur + 64 * (j - i)" by simp_all
      show ?thesis using r(5) that i Cons.prems(4) get_put_de [of i j ?e dir] False by (simp add: ji)
    qed
    show "kfs_bit_get bm' x \<longleftrightarrow> kfs_bit_get bm x \<or> cur \<le> x \<and> x < cur + 64 * length (a # ps)" for x
    proof -
      have "kfs_bit_get (bit_set_run bm cur 64 True) x \<longleftrightarrow> (cur \<le> x \<and> x < cur + 64) \<or> kfs_bit_get bm x"
        by (subst bit_get_run) (use le Cons.prems(5) in \<open>auto\<close>)
      with r(6) [rule_format, of x] show ?thesis by auto
    qed
    show "D' x = D x" if "\<not> (cur \<le> x \<and> x < cur + 64 * length (a # ps))" for x
    proof -
      have "\<not> (cur + 64 \<le> x \<and> x < cur + 64 + 64 * length ps)" "\<not> (cur \<le> x \<and> x < cur + 64)"
        using that by auto
      then show ?thesis using r(7) [rule_format, of x] b(3) [rule_format, of x] by simp
    qed
    show "D' (cur + 64 * j + p div 512) ! (p mod 512) = snd ((a # ps) ! j) ! p"
      if "j < length (a # ps)" "p < length (snd ((a # ps) ! j))" "p < 64 * 512" for j p
    proof (cases j)
      case 0
      have "p div 512 < 64" using that(3) by simp
      then have "D' (cur + p div 512) = D1 (cur + p div 512)" using r(7) by simp
      then show ?thesis using b(4) that 0 by (simp add: a)
    next
      case (Suc j')
      then show ?thesis using r(8) that by (simp add: add.assoc)
    qed
  qed (use r in simp_all)
qed


lemma payload_nth:
  assumes "payloads_ok bd ps" "j < length ps"
  shows "fst (ps ! j) \<noteq> []" "0 \<notin> set (fst (ps ! j))" "length (fst (ps ! j)) < 11" "length (snd (ps ! j)) \<le> 64 * 512"
  using assms by (auto simp: payloads_ok_def list_all_length split_beta)


lemma payload_live:
  assumes ok: "payloads_ok bd ps" and de: "payload_entries ps blk" and j26: "j < 26"
  shows "live_de blk j \<longleftrightarrow> j < length ps"
proof (cases "j < length ps")
  case True
  note pn = payload_nth [OF ok True]
  have c: "takeWhile (\<lambda>x. x \<noteq> 0) (name_field (fst (ps ! j))) = fst (ps ! j)"
    by (rule name_field_cstr [OF pn(2,3)])
  have "name_field (fst (ps ! j)) ! 0 \<noteq> 0"
    using c pn(1) length_name_field [of "fst (ps ! j)"] by (cases "name_field (fst (ps ! j))") auto
  with True j26 de show ?thesis by (simp add: live_de_def payload_entries_def)
next
  case False
  with j26 de show ?thesis using zero_block_dead [OF j26] by (simp add: live_de_def payload_entries_def)
qed

lemma payload_cname:
  assumes "payloads_ok bd ps" "payload_entries ps blk" "j < length ps"
  shows "cname blk j = fst (ps ! j)"
proof -
  have "j < 26" using assms(1,3) by (simp add: payloads_ok_def)
  then show ?thesis using assms payload_nth [OF assms(1,3)]
    by (simp add: cname_def name_field_cstr payload_entries_def)
qed

lemma payload_dir_ok:
  assumes ok: "payloads_ok bd ps" and de: "payload_entries ps blk"
  shows "dir_ok blk"
  unfolding dir_ok_def
proof (intro conjI allI impI)
  note live = payload_live [OF ok de] and cn = payload_cname [OF ok de]
  show "length (cname blk i) < 11" if "i < 26" "live_de blk i" for i
    using that live cn payload_nth(3) [OF ok] by simp
  show "i = j" if "i < 26" "j < 26" "live_de blk i" "live_de blk j" "cname blk i = cname blk j" for i j
  proof -
    have "i < length ps" "j < length ps" using that live by simp_all
    moreover from this have "map fst ps ! i = map fst ps ! j" using that cn by simp
    moreover have "distinct (map fst ps)" using ok by (simp add: payloads_ok_def)
    ultimately show ?thesis using nth_eq_iff_index_eq [of "map fst ps" i j] by simp
  qed
qed

text \<open>The image has one live entry per payload, each owning its own run.\<close>

lemma mkimage_image_ok:
  assumes ok: "payloads_ok bd ps" and de: "payload_entries ps (D 2)"
    and bm: "\<forall>b < alloc_total bd. kfs_bit_get (D 1) b \<longleftrightarrow> b \<le> 2 \<or> 3 \<le> b \<and> b < 3 + 64 * length ps"
  shows "image_ok (alloc_total bd) {2} D"
proof -
  have tot: "3 + 64 * length ps \<le> alloc_total bd" "length ps \<le> 26" "alloc_total bd \<le> 4096"
    using ok alloc_total_bounds(2) [of bd] by (simp_all add: payloads_ok_def)
  note live = payload_live [OF ok de]
  have st: "\<not> kfs_de_isdir (get_de (D 2) j)" "unat (kfs_de_start (get_de (D 2) j)) = 3 + 64 * j" if "j < length ps" for j
    using file_start [of "3 + 64 * j"] that tot de by (simp_all add: payload_entries_def)
  have h: "holds D {2} h b \<longleftrightarrow> fst h = 2 \<and> snd h < length ps \<and> 3 + 64 * snd h \<le> b \<and> b < 3 + 64 * snd h + 64" for h b
    using live tot(2) st by (auto simp: holds_def de_extent_def)
  have "dir_ok (D 2)" by (rule payload_dir_ok [OF ok de])
  moreover have "h1 = h2" if "holds D {2} h1 b" "holds D {2} h2 b" for h1 h2 b
  proof -
    have "snd h1 = snd h2" using that unfolding h by linarith
    with that show ?thesis unfolding h by (simp add: prod_eq_iff)
  qed
  moreover have "2 < b \<and> b < alloc_total bd" if "holds D {2} h b" for h b
  proof -
    have "64 * Suc (snd h) \<le> 64 * length ps" using that unfolding h by simp
    with that tot(1) show ?thesis unfolding h by simp
  qed
  moreover have "kfs_bit_get (D 1) b \<longleftrightarrow> b \<le> 2 \<or> (\<exists>h. holds D {2} h b)" if blt: "b < alloc_total bd" for b
  proof
    assume "kfs_bit_get (D 1) b"
    then consider "b \<le> 2" | "3 \<le> b" "b < 3 + 64 * length ps" using bm blt by auto
    then show "b \<le> 2 \<or> (\<exists>h. holds D {2} h b)"
    proof cases
      case 2
      let ?j = "(b - 3) div 64"
      have "?j < length ps" using 2 by (simp add: less_mult_imp_div_less mult.commute)
      moreover have "64 * ?j \<le> b - 3" "b - 3 < 64 * ?j + 64" using mult_div_mod_eq [of 64 "b - 3"] mod_less_divisor [of 64 "b - 3"]
        by linarith+
      ultimately have "holds D {2} (2, ?j) b" unfolding h using 2(1) by auto
      then show ?thesis by blast
    qed simp
  next
    assume "b \<le> 2 \<or> (\<exists>h. holds D {2} h b)"
    then show "kfs_bit_get (D 1) b"
    proof
      assume "\<exists>h. holds D {2} h b"
      then obtain h' where h': "holds D {2} h' b" ..
      then have "64 * Suc (snd h') \<le> 64 * length ps" unfolding h by simp
      with h' bm blt show ?thesis unfolding h by auto
    qed (use bm blt in simp)
  qed
  moreover have "\<not> kfs_de_isdir (get_de (D 2) i)" if "i < 26" "live_de (D 2) i" for i
    using that live st(1) by simp
  ultimately show ?thesis using tot(1) unfolding image_ok_def by (simp add: KFS_ROOT_BLOCK_def)
qed

lemma mount_slot:
  assumes "length (kfs_mnts s) = MAX_KFS_MOUNTS" "kfs_mnt_for bd s \<noteq> None \<or> (\<exists>i < MAX_KFS_MOUNTS. m_bd (kfs_mnts s ! i) = None)"
  obtains mi s0 where "(case kfs_mnt_for bd s of Some mi \<Rightarrow> (Some mi, s) | None \<Rightarrow> kfs_mnt_alloc bd s) = (Some mi, s0)"
    "kfs_mnt_for bd s0 = Some mi" "mi < length (kfs_mnts s0)" "\<exists>ms. s0 = s\<lparr>kfs_mnts := ms\<rparr>" "length (kfs_mnts s0) = MAX_KFS_MOUNTS"
proof (cases "kfs_mnt_for bd s")
  case (Some mi)
  then have "mi < length (kfs_mnts s)" using assms(1) by (auto simp: kfs_mnt_for_def find_Some_iff)
  moreover have "\<exists>ms. s = s\<lparr>kfs_mnts := ms\<rparr>" by (rule exI [of _ "kfs_mnts s"]) simp
  ultimately show thesis using that [of mi s] Some assms(1) by simp
next
  case None
  then have ex: "\<exists>i < MAX_KFS_MOUNTS. m_bd (kfs_mnts s ! i) = None" using assms(2) by simp
  have "find (\<lambda>i. m_bd (kfs_mnts s ! i) = None) [0..<MAX_KFS_MOUNTS] \<noteq> None"
    using ex by (auto simp: find_None_iff)
  then obtain mi where f: "find (\<lambda>i. m_bd (kfs_mnts s ! i) = None) [0..<MAX_KFS_MOUNTS] = Some mi" by blast
  then have mi: "mi < MAX_KFS_MOUNTS" by (auto simp: find_Some_iff)
  let ?s0 = "snd (kfs_mnt_alloc bd s)"
  have al: "kfs_mnt_alloc bd s = (Some mi, ?s0)" using f by (simp add: kfs_mnt_alloc_def)
  have bd0: "m_bd (kfs_mnts ?s0 ! i) = (if i = mi then Some bd else m_bd (kfs_mnts s ! i))" if "i < MAX_KFS_MOUNTS" for i
    using f mi that assms(1) by (simp add: kfs_mnt_alloc_def nth_list_update)
  have no: "m_bd (kfs_mnts s ! i) \<noteq> Some bd" if "i < MAX_KFS_MOUNTS" for i
    using None that by (auto simp: kfs_mnt_for_def find_None_iff)
  have "kfs_mnt_for bd ?s0 = Some mi"
    unfolding kfs_mnt_for_def find_Some_iff using mi bd0 no by (intro exI [of _ mi]) auto
  moreover have "\<exists>ms. ?s0 = s\<lparr>kfs_mnts := ms\<rparr>" "length (kfs_mnts ?s0) = MAX_KFS_MOUNTS"
    using f assms(1) by (auto simp: kfs_mnt_alloc_def)
  ultimately show thesis using that [of mi ?s0] al None mi by simp
qed

lemma kfs_mkimage_ok:
  assumes im: "disk_image (cache s) bd D" and ok: "payloads_ok bd ps" and ml: "length (kfs_mnts s) = MAX_KFS_MOUNTS"
    and sl: "kfs_mnt_for bd s \<noteq> None \<or> (\<exists>i < MAX_KFS_MOUNTS. m_bd (kfs_mnts s ! i) = None)"
  shows "\<exists>mi s' D'. kfs_mkimage bd ps s = Some s' \<and> kfs_inv bd mi {2} D' s' \<and> only_disk s s'
    \<and> payload_entries ps (D' 2)
    \<and> (\<forall>j < length ps. dir_find (D' 2) (fst (ps ! j)) = Some \<lparr>de_name = name_field (fst (ps ! j)),
          de_start_block = of_nat (3 + 64 * j), de_size_bytes = of_nat (length (snd (ps ! j)))\<rparr>)
    \<and> (\<forall>j < length ps. \<forall>p < length (snd (ps ! j)). D' (3 + 64 * j + p div 512) ! (p mod 512) = snd (ps ! j) ! p)"
proof -
  obtain mi s0 where m: "(case kfs_mnt_for bd s of Some mi \<Rightarrow> (Some mi, s) | None \<Rightarrow> kfs_mnt_alloc bd s) = (Some mi, s0)"
    "kfs_mnt_for bd s0 = Some mi" "mi < length (kfs_mnts s0)" "\<exists>ms. s0 = s\<lparr>kfs_mnts := ms\<rparr>" "length (kfs_mnts s0) = MAX_KFS_MOUNTS"
    by (rule mount_slot [OF ml sl])
  have tot: "3 + 64 * length ps \<le> alloc_total bd" "length ps \<le> 26" "2 < unat (bd_nblocks bd)"
    using ok alloc_total_bounds(1) [of bd] by (auto simp: payloads_ok_def)
  let ?bm = "kfs_bit_set (kfs_bit_set (kfs_bit_set (replicate 512 0) 0 True) 1 True) 2 True"
  let ?sb = "le32 KFS_MAGIC @ le32 (of_nat (length ps)) @ replicate 504 0"
  have im0: "disk_image (cache s0) bd D" using im m(4) by auto
  obtain c1 where w1: "wr_blk bd 0 ?sb s0 = Some (0, s0\<lparr>cache := c1\<rparr>)" "disk_image c1 bd (D(0 := ?sb))"
    using wr_blk_image [OF im0, of 0 ?sb] tot(3) by (auto simp: length_encodings)
  let ?s1 = "s0\<lparr>cache := c1\<rparr>"
  have pre: "disk_image (cache ?s1) bd (D(0 := ?sb))" "0 + length ps \<le> 26" "3 + 64 * length ps \<le> alloc_total bd"
    "length (replicate 512 (0 :: u8)) = 512" "length ?bm = 512" using w1(2) tot by simp_all
  obtain dir bm c2 D2 where f: "mkimage_files bd ps 0 3 (replicate 512 0) ?bm ?s1 = Some (dir, bm, ?s1\<lparr>cache := c2\<rparr>)"
    "disk_image c2 bd D2" "length dir = 512" "length bm = 512"
    "\<forall>j < 26. get_de dir j = (if 0 \<le> j \<and> j < 0 + length ps
         then \<lparr>de_name = name_field (fst (ps ! (j - 0))), de_start_block = of_nat (3 + 64 * (j - 0)),
               de_size_bytes = of_nat (length (snd (ps ! (j - 0))))\<rparr> else get_de (replicate 512 0) j)"
    "\<forall>b. kfs_bit_get bm b \<longleftrightarrow> kfs_bit_get ?bm b \<or> 3 \<le> b \<and> b < 3 + 64 * length ps"
    "\<forall>j p. j < length ps \<longrightarrow> p < length (snd (ps ! j)) \<longrightarrow> p < 64 * 512 \<longrightarrow>
         D2 (3 + 64 * j + p div 512) ! (p mod 512) = snd (ps ! j) ! p"
    using mkimage_files_ok [OF pre] by blast
  let ?s2 = "s0\<lparr>cache := c2\<rparr>"
  have im2: "disk_image (cache ?s2) bd D2" using f(2) by simp
  obtain c3 where w3: "wr_blk bd 2 dir ?s2 = Some (0, s0\<lparr>cache := c3\<rparr>)" "disk_image c3 bd (D2(2 := dir))"
    using wr_blk_image [OF im2, of 2 dir] tot(3) f(3) by auto
  let ?s3 = "set_bitmap mi bm (s0\<lparr>cache := c3\<rparr>)"
  have im3: "disk_image (cache ?s3) bd (D2(2 := dir))" using w3(2) by simp
  obtain c4 where w4: "wr_blk bd 1 bm ?s3 = Some (0, ?s3\<lparr>cache := c4\<rparr>)" "disk_image c4 bd (D2(2 := dir, 1 := bm))"
    using wr_blk_image [OF im3, of 1 bm] tot(3) f(4) by auto
  let ?D = "D2(2 := dir, 1 := bm)" and ?s' = "?s3\<lparr>cache := c4\<rparr>"
  have run: "kfs_mkimage bd ps s = Some ?s'"
    using m(1) w1(1) f(1) w3(1) w4(1) by (simp add: kfs_mkimage_def consts_def)
  have bits: "kfs_bit_get ?bm b \<longleftrightarrow> b \<le> 2" if "b < alloc_total bd" for b
  proof -
    have "b < 512 * 8" using that alloc_total_bounds(2) [of bd] by simp
    then have "\<not> kfs_bit_get (replicate 512 0) b" by (simp add: bit_get_iff less_mult_imp_div_less)
    then show ?thesis by (auto simp: bit_get_set)
  qed
  have pe: "payload_entries ps (?D 2)" using f(3,5) by (simp add: payload_entries_def)
  have "image_ok (alloc_total bd) {2} ?D"
    by (rule mkimage_image_ok [OF ok, where D = ?D]) (use pe f(6) bits in simp_all)
  then have "kfs_inv bd mi {2} ?D ?s'" using m w4(2) by (simp add: kfs_inv_def)
  moreover have "only_disk s ?s'" using m(4) unfolding only_disk_def set_bitmap_def by force
  moreover have "dir_find (?D 2) (fst (ps ! j)) = Some \<lparr>de_name = name_field (fst (ps ! j)),
          de_start_block = of_nat (3 + 64 * j), de_size_bytes = of_nat (length (snd (ps ! j)))\<rparr>" if "j < length ps" for j
  proof -
    have j: "j < 26" using that tot(2) by simp
    have "dir_find (?D 2) (fst (ps ! j)) = Some (get_de (?D 2) j)"
      unfolding dir_find_iff [OF payload_dir_ok [OF ok pe] pe [unfolded payload_entries_def, THEN conjunct1] payload_nth(2) [OF ok that]]
      using j payload_live [OF ok pe j] payload_cname [OF ok pe that] that by auto
    also have "get_de (?D 2) j = \<lparr>de_name = name_field (fst (ps ! j)),
          de_start_block = of_nat (3 + 64 * j), de_size_bytes = of_nat (length (snd (ps ! j)))\<rparr>"
      using pe j that unfolding payload_entries_def by simp
    finally show ?thesis .
  qed
  moreover have "?D (3 + 64 * j + p div 512) ! (p mod 512) = snd (ps ! j) ! p"
    if "j < length ps" "p < length (snd (ps ! j))" for j p
    using f(7) that payload_nth(4) [OF ok that(1)] by simp
  ultimately show ?thesis using run pe by blast
qed

subsection \<open>A concrete system\<close>

lemma sample_payloads_ok: "payloads_ok ramdisk_home_bd sample_payloads"
  by (simp add: payloads_ok_def sample_payloads_def alloc_total_def ramdisk_home_bd_def consts_def)

lemma sample_image: "disk_image (cache sample_fs) ramdisk_home_bd (\<lambda>_. replicate 512 0)"
  unfolding sample_fs_def by simp (rule boot_image(2) [OF cold_bss], simp)

lemma sample_mounts:
  "length (kfs_mnts sample_fs) = MAX_KFS_MOUNTS"
  "kfs_mnt_for ramdisk_home_bd sample_fs \<noteq> None \<or> (\<exists>i < MAX_KFS_MOUNTS. m_bd (kfs_mnts sample_fs ! i) = None)"
proof -
  have ms: "kfs_mnts sample_fs = replicate 4 \<lparr>m_bd = None, m_mountpoint = None, m_bitmap = []\<rparr>"
    by (simp add: sample_fs_def)
  show "length (kfs_mnts sample_fs) = MAX_KFS_MOUNTS" by (simp add: ms MAX_KFS_MOUNTS_def)
  have "\<exists>i < MAX_KFS_MOUNTS. m_bd (kfs_mnts sample_fs ! i) = None"
    by (rule exI [of _ 0]) (simp add: ms MAX_KFS_MOUNTS_def)
  then show "kfs_mnt_for ramdisk_home_bd sample_fs \<noteq> None \<or> (\<exists>i < MAX_KFS_MOUNTS. m_bd (kfs_mnts sample_fs ! i) = None)" ..
qed

text \<open>The sample image has one file, in the blocks 3 to 66.\<close>

lemma sample_room:
  assumes "kfs_inv ramdisk_home_bd mi {2} D s" "payload_entries sample_payloads (D 2)"
  shows "can_create ramdisk_home_bd 64 D 2 [98]" "can_create ramdisk_home_bd 1 D 2 [98]"
proof -
  have len: "length (D 2) = 512" using assms(2) by (simp add: payload_entries_def)
  have live: "live_de (D 2) i \<longleftrightarrow> i = 0" if "i < 26" for i
    using payload_live [OF sample_payloads_ok assms(2) that] by (simp add: sample_payloads_def)
  have e0: "get_de (D 2) 0 = \<lparr>de_name = name_field [97], de_start_block = 3, de_size_bytes = 3\<rparr>"
    using assms(2) by (simp add: payload_entries_def sample_payloads_def)
  have cn: "cname (D 2) 0 = [97]" using payload_cname [OF sample_payloads_ok assms(2), of 0] by (simp add: sample_payloads_def)
  have ex: "de_extent (get_de (D 2) 0) = {3..<67}"
    using file_start [of 3 "name_field [97]" 3] by (simp add: e0 de_extent_def)
  have tot: "131 \<le> alloc_total ramdisk_home_bd" by (simp add: alloc_total_def ramdisk_home_bd_def consts_def)
  have "kfs_bit_get (D 1) b \<longleftrightarrow> b \<le> 2 \<or> (\<exists>h. holds D {2} h b)" if "b < alloc_total ramdisk_home_bd" for b
    using assms(1) that by (simp add: kfs_inv_def image_ok_def)
  then have "\<not> kfs_bit_get (D 1) b" if "67 \<le> b" "b < 131" for b using that tot live ex by (auto simp: holds_def)
  then have free: "run_free (D 1) 67 64" "run_free (D 1) 67 1" by (simp_all add: run_free_iff)
  have "dir_find (D 2) [98] = None"
  proof (cases "dir_find (D 2) [98]")
    case (Some e)
    then obtain i where "i < 26" "live_de (D 2) i" "cname (D 2) i = [98]"
      using dir_find_iff [OF payload_dir_ok [OF sample_payloads_ok assms(2)] len, of "[98]" e] by auto
    then show ?thesis using live [of i] cn by simp
  qed
  moreover have "\<exists>i < 26. \<not> live_de (D 2) i" using live by (intro exI [of _ 1]) simp
  ultimately show "can_create ramdisk_home_bd 64 D 2 [98]" "can_create ramdisk_home_bd 1 D 2 [98]"
    using free tot by (auto simp: can_create_def consts_def intro!: exI [of _ 67])
qed

lemma sample_system:
  obtains mi s D where "kfs_mkimage ramdisk_home_bd sample_payloads sample_fs = Some s"
    "kfs_inv ramdisk_home_bd mi {2} D s" "dir_handle ramdisk_home_bd {2} 0 sample_dir s"
    "file_entry D {2} sample_file" "file_ok ramdisk_home_bd sample_file" "reg_cursor 0 s = Some (0, 0, 0)"
    "kfiles s 0 = Some sample_file" "kmalloc_ok s = (\<lambda>_. True)" "heap_fresh s"
    "dir_find (D 2) [97] = Some \<lparr>de_name = name_field [97], de_start_block = 3, de_size_bytes = 3\<rparr>"
    "can_create ramdisk_home_bd 64 D 2 [98]" "can_create ramdisk_home_bd 1 D 2 [98]"
proof -
  obtain mi s D where m: "kfs_mkimage ramdisk_home_bd sample_payloads sample_fs = Some s"
    "kfs_inv ramdisk_home_bd mi {2} D s" "only_disk sample_fs s" "payload_entries sample_payloads (D 2)"
    "\<forall>j < length sample_payloads. dir_find (D 2) (fst (sample_payloads ! j)) = Some \<lparr>de_name = name_field (fst (sample_payloads ! j)),
          de_start_block = of_nat (3 + 64 * j), de_size_bytes = of_nat (length (snd (sample_payloads ! j)))\<rparr>"
    using kfs_mkimage_ok [OF sample_image sample_payloads_ok sample_mounts] by blast
  note od = only_diskD [OF m(3)]
  have de: "get_de (D 2) 0 = \<lparr>de_name = name_field [97], de_start_block = 3, de_size_bytes = 3\<rparr>"
    using m(4) by (simp add: payload_entries_def sample_payloads_def)
  have live: "live_de (D 2) 0" using payload_live [OF sample_payloads_ok m(4), of 0] by (simp add: sample_payloads_def)
  have fe: "file_entry D {2} sample_file"
    using live de file_start [of 3 "name_field [97]" 3]
    by (simp add: file_entry_def sample_file_def kfs_de_start_def KFS_DE_DIR_BIT_def)
  have fo: "file_ok ramdisk_home_bd sample_file"
    by (rule file_entry_ok [OF m(2) fe]) (simp_all add: sample_file_def KFS_BLOCKS_PER_FILE_def)
  have dh: "dir_handle ramdisk_home_bd {2} 0 sample_dir s"
    by (simp add: dir_handle_def kfs_dir_of_def od) (simp add: sample_fs_def sample_dir_def)
  have cu: "reg_cursor 0 s = Some (0, 0, 0)" by (simp add: reg_cursor_def od) (simp add: sample_fs_def)
  have "kfiles s 0 = Some sample_file" "kmalloc_ok s = (\<lambda>_. True)" by (simp_all add: od) (simp_all add: sample_fs_def)
  moreover have "heap_fresh s" by (simp add: od) (simp add: sample_fs_def heap_fresh_def)
  moreover note sample_room [OF m(2,4)]
  ultimately show thesis using that m(1,2,5) dh fe fo cu by (simp add: sample_payloads_def)
qed

section \<open>Properties\<close>

text \<open>
  C4. \<open>kfs_mkimage\<close> on any device with room for the payloads returns, and the image it leaves
  satisfies the on-disk invariant (no block has two owners, the bitmap marks exactly the
  reserved and the owned blocks), has one root entry per payload and holds every payload byte.
\<close>
theorem kfs_mkimage_establishes:
  assumes "disk_image (cache s) bd D" "payloads_ok bd ps" "length (kfs_mnts s) = MAX_KFS_MOUNTS"
    "kfs_mnt_for bd s \<noteq> None \<or> (\<exists>i < MAX_KFS_MOUNTS. m_bd (kfs_mnts s ! i) = None)"
  shows "\<exists>mi s' D'. kfs_mkimage bd ps s = Some s' \<and> kfs_inv bd mi {KFS_ROOT_BLOCK} D' s'
    \<and> (\<forall>j < length ps. dir_find (D' KFS_ROOT_BLOCK) (fst (ps ! j)) = Some \<lparr>de_name = name_field (fst (ps ! j)),
          de_start_block = of_nat (3 + 64 * j), de_size_bytes = of_nat (length (snd (ps ! j)))\<rparr>)
    \<and> (\<forall>j < length ps. \<forall>p < length (snd (ps ! j)). D' (3 + 64 * j + p div 512) ! (p mod 512) = snd (ps ! j) ! p)"
  using kfs_mkimage_ok [OF assms] unfolding KFS_ROOT_BLOCK_def by blast

theorem kfs_mkimage_establishes_witness:
  "\<exists>mi s' D'. kfs_mkimage ramdisk_home_bd sample_payloads sample_fs = Some s' \<and> kfs_inv ramdisk_home_bd mi {KFS_ROOT_BLOCK} D' s'
    \<and> D' 3 ! 1 = 2"
  using kfs_mkimage_establishes [OF sample_image sample_payloads_ok sample_mounts]
  by (fastforce simp: sample_payloads_def)

text \<open>
  C6. \<open>kfs_dir_creat\<close> returns 0 exactly when there is room for the name (it is short enough and new, an entry
  and a run of 64 blocks are free) and both its requests for memory are served, and -1 otherwise. With room the directory
  maps the new name to an empty file and every other name as before, also when memory then runs out; without
  room nothing on the disk changes. No other directory changes, and the on-disk invariant is kept.
\<close>
theorem kfs_creat_correct:
  assumes "kfs_inv bd mi ds D s" "dir_handle bd ds dir d s" "0 \<notin> set name" "name \<noteq> []"
  shows "\<exists>rc s' D'. kfs_dir_creat dir name s = Some (rc, s') \<and> kfs_inv bd mi ds D' s'
    \<and> rc = (if can_create bd 64 D (unat (kd_dir_block d)) name \<and> kmalloc_ok s (next_obj s) \<and> kmalloc_ok s (next_obj s + 1) then 0 else -1)
    \<and> (if can_create bd 64 D (unat (kd_dir_block d)) name
       then \<exists>st. \<forall>m. 0 \<notin> set m \<longrightarrow> dir_find (D' (unat (kd_dir_block d))) m =
         ((dir_find (D (unat (kd_dir_block d))))(name \<mapsto> \<lparr>de_name = name_field name, de_start_block = st, de_size_bytes = 0\<rparr>)) m
       else D' = D)
    \<and> (\<forall>d' \<in> ds. d' \<noteq> unat (kd_dir_block d) \<longrightarrow> D' d' = D d')"
  by (rule kfs_dir_creat_ok [OF assms])

theorem kfs_creat_correct_witness:
  "\<exists>mi s D s' D'. kfs_mkimage ramdisk_home_bd sample_payloads sample_fs = Some s \<and> kfs_inv ramdisk_home_bd mi {2} D s
    \<and> dir_find (D 2) [98] = None \<and> kfs_dir_creat 0 [98] s = Some (0, s') \<and> kfs_inv ramdisk_home_bd mi {2} D' s' \<and> dir_find (D' 2) [98] \<noteq> None"
proof -
  obtain mi s D where s: "kfs_mkimage ramdisk_home_bd sample_payloads sample_fs = Some s"
    "kfs_inv ramdisk_home_bd mi {2} D s" "dir_handle ramdisk_home_bd {2} 0 sample_dir s" "kmalloc_ok s = (\<lambda>_. True)"
    "can_create ramdisk_home_bd 64 D 2 [98]" by (rule sample_system)
  have db: "unat (kd_dir_block sample_dir) = 2" by (simp add: sample_dir_def)
  have "dir_find (D 2) [98] = None" using s(5) by (simp add: can_create_def)
  moreover from kfs_creat_correct [OF s(2,3), of "[98]"]
  obtain s' D' st where "kfs_dir_creat 0 [98] s = Some (0, s')" "kfs_inv ramdisk_home_bd mi {2} D' s'"
    "\<forall>m. 0 \<notin> set m \<longrightarrow> dir_find (D' 2) m = ((dir_find (D 2))([98] \<mapsto> \<lparr>de_name = name_field [98], de_start_block = st, de_size_bytes = 0\<rparr>)) m"
    unfolding db s(4) using s(5) by auto
  moreover from this have "dir_find (D' 2) [98] \<noteq> None" by simp
  ultimately show ?thesis using s(1,2) by blast
qed

text \<open>
  C15. \<open>kfs_dir_mkdir\<close>, which asks for memory for the name, the directory, its inode and its dentry in this
  order: it returns 0 exactly when there is room for the name (as for a file, with one free block) and the
  requests are served, and -1 otherwise, except that with the inode's request alone refused it writes through
  a NULL pointer. With room the set of directories gains one fresh block, which is empty, and the parent maps
  the new name to it and every other name as before, also when memory then runs out; without room nothing on the
  disk changes. The on-disk invariant is kept.
\<close>
theorem kfs_mkdir_correct:
  assumes "kfs_inv bd mi ds D s" "dir_handle bd ds dir d s" "0 \<notin> set name" "name \<noteq> []" "heap_fresh s"
  shows "if can_create bd 1 D (unat (kd_dir_block d)) name \<and> kmalloc_ok s (next_obj s) \<and> kmalloc_ok s (next_obj s + 1)
      \<and> \<not> kmalloc_ok s (next_obj s + 2) \<and> kmalloc_ok s (next_obj s + 3)
    then kfs_dir_mkdir dir name s = None
    else \<exists>rc s' D' ds'. kfs_dir_mkdir dir name s = Some (rc, s') \<and> kfs_inv bd mi ds' D' s'
      \<and> rc = (if can_create bd 1 D (unat (kd_dir_block d)) name \<and> kmalloc_ok s (next_obj s) \<and> kmalloc_ok s (next_obj s + 1)
           \<and> kmalloc_ok s (next_obj s + 3) then 0 else -1)
      \<and> (if can_create bd 1 D (unat (kd_dir_block d)) name
         then \<exists>st. ds' = insert (unat st) ds \<and> unat st \<notin> ds \<and> (\<forall>i < 26. \<not> live_de (D' (unat st)) i)
          \<and> (\<forall>m. 0 \<notin> set m \<longrightarrow> dir_find (D' (unat (kd_dir_block d))) m =
             ((dir_find (D (unat (kd_dir_block d))))(name \<mapsto>
               \<lparr>de_name = name_field name, de_start_block = st OR KFS_DE_DIR_BIT, de_size_bytes = 0\<rparr>)) m)
         else ds' = ds \<and> D' = D)
      \<and> (\<forall>d' \<in> ds. d' \<noteq> unat (kd_dir_block d) \<longrightarrow> D' d' = D d')"
  by (rule kfs_dir_mkdir_ok [OF assms])

theorem kfs_mkdir_correct_witness:
  "\<exists>mi s D s' D' ds'. kfs_mkimage ramdisk_home_bd sample_payloads sample_fs = Some s \<and> kfs_inv ramdisk_home_bd mi {2} D s
    \<and> kfs_dir_mkdir 0 [98] s = Some (0, s') \<and> kfs_inv ramdisk_home_bd mi ds' D' s' \<and> (\<exists>b. b \<noteq> 2 \<and> ds' = {b, 2})"
proof -
  obtain mi s D where s: "kfs_mkimage ramdisk_home_bd sample_payloads sample_fs = Some s"
    "kfs_inv ramdisk_home_bd mi {2} D s" "dir_handle ramdisk_home_bd {2} 0 sample_dir s"
    "kmalloc_ok s = (\<lambda>_. True)" "heap_fresh s" "can_create ramdisk_home_bd 1 D 2 [98]" by (rule sample_system)
  have db: "unat (kd_dir_block sample_dir) = 2" by (simp add: sample_dir_def)
  from kfs_mkdir_correct [OF s(2,3) _ _ s(5), of "[98]"]
  obtain s' D' ds' st where "kfs_dir_mkdir 0 [98] s = Some (0, s')" "kfs_inv ramdisk_home_bd mi ds' D' s'"
    "ds' = insert (unat (st :: u32)) {2}" "unat st \<notin> {2}"
    unfolding db s(4) using s(6) by auto
  then show ?thesis using s(1,2) by (intro exI [of _ mi] exI [of _ s] exI [of _ D] exI [of _ s'] exI [of _ D'] exI [of _ ds']) auto
qed

text \<open>
  C13. \<open>kfs_dir_unlink\<close> returns 0 exactly when the name is a regular file of the directory, -1
  otherwise; it removes that name and no other, and keeps the on-disk invariant, so the file's
  blocks go back to the free pool exactly once.
\<close>
theorem kfs_unlink_correct:
  assumes "kfs_inv bd mi ds D s" "dir_handle bd ds dir d s" "0 \<notin> set name"
  shows "\<exists>rc s' D'. kfs_dir_unlink dir name s = Some (rc, s') \<and> kfs_inv bd mi ds D' s'
    \<and> rc = (case dir_find (D (unat (kd_dir_block d))) name of Some e \<Rightarrow> if kfs_de_isdir e then -1 else 0 | None \<Rightarrow> -1)
    \<and> (\<forall>m. 0 \<notin> set m \<longrightarrow> dir_find (D' (unat (kd_dir_block d))) m =
         (if rc = 0 then (dir_find (D (unat (kd_dir_block d))))(name := None) else dir_find (D (unat (kd_dir_block d)))) m)
    \<and> (\<forall>d' \<in> ds. d' \<noteq> unat (kd_dir_block d) \<longrightarrow> D' d' = D d')"
  using kfs_dir_unlink_ok [OF assms] by blast

theorem kfs_unlink_correct_witness:
  "\<exists>mi s D s' D'. kfs_mkimage ramdisk_home_bd sample_payloads sample_fs = Some s \<and> kfs_inv ramdisk_home_bd mi {2} D s
    \<and> kfs_dir_unlink 0 [97] s = Some (0, s') \<and> kfs_inv ramdisk_home_bd mi {2} D' s' \<and> dir_find (D' 2) [97] = None"
proof -
  obtain mi s D where s: "kfs_mkimage ramdisk_home_bd sample_payloads sample_fs = Some s"
    "kfs_inv ramdisk_home_bd mi {2} D s" "dir_handle ramdisk_home_bd {2} 0 sample_dir s"
    "dir_find (D 2) [97] = Some \<lparr>de_name = name_field [97], de_start_block = 3, de_size_bytes = 3\<rparr>"
    by (rule sample_system)
  have nd: "\<not> kfs_de_isdir \<lparr>de_name = name_field [97], de_start_block = 3, de_size_bytes = 3\<rparr>"
    using file_start(1) [of 3 "name_field [97]" 3] by simp
  have db: "unat (kd_dir_block sample_dir) = 2" by (simp add: sample_dir_def)
  from kfs_unlink_correct [OF s(2,3), of "[97]"] obtain rc s' D' where
    r: "kfs_dir_unlink 0 [97] s = Some (rc, s')" "kfs_inv ramdisk_home_bd mi {2} D' s'" "rc = 0"
      "\<forall>m. 0 \<notin> set m \<longrightarrow> dir_find (D' 2) m = (if rc = 0 then (dir_find (D 2))([97] := None) else dir_find (D 2)) m"
    unfolding db s(4) using nd by auto
  have "dir_find (D' 2) [97] = None" using r(3) r(4) [rule_format, of "[97]"] by simp
  with r s(1,2) show ?thesis by blast
qed

text \<open>
  C16. \<open>kfs_dir_rmdir\<close> returns 0 exactly when the name is a subdirectory with no live entry, -1
  otherwise; it removes that name and no other and keeps the on-disk invariant.
\<close>
theorem kfs_rmdir_correct:
  assumes "kfs_inv bd mi ds D s" "dir_handle bd ds dir d s" "0 \<notin> set name"
  shows "\<exists>rc s' D' ds'. kfs_dir_rmdir dir name s = Some (rc, s') \<and> kfs_inv bd mi ds' D' s' \<and> ds' \<subseteq> ds
    \<and> rc = (case dir_find (D (unat (kd_dir_block d))) name of
         Some e \<Rightarrow> if kfs_de_isdir e \<and> (\<forall>i < 26. \<not> live_de (D (unat (kfs_de_start e))) i) then 0 else -1 | None \<Rightarrow> -1)
    \<and> (\<forall>m. 0 \<notin> set m \<longrightarrow> dir_find (D' (unat (kd_dir_block d))) m =
         (if rc = 0 then (dir_find (D (unat (kd_dir_block d))))(name := None) else dir_find (D (unat (kd_dir_block d)))) m)
    \<and> (\<forall>d' \<in> ds'. d' \<noteq> unat (kd_dir_block d) \<longrightarrow> D' d' = D d')"
  by (rule kfs_dir_rmdir_ok [OF assms])

theorem kfs_rmdir_correct_witness:
  "\<exists>mi s D s' D' ds'. kfs_mkimage ramdisk_home_bd sample_payloads sample_fs = Some s \<and> kfs_inv ramdisk_home_bd mi {2} D s
    \<and> kfs_dir_rmdir 0 [97] s = Some (-1, s') \<and> kfs_inv ramdisk_home_bd mi ds' D' s'"
proof -
  obtain mi s D where s: "kfs_mkimage ramdisk_home_bd sample_payloads sample_fs = Some s"
    "kfs_inv ramdisk_home_bd mi {2} D s" "dir_handle ramdisk_home_bd {2} 0 sample_dir s"
    "dir_find (D 2) [97] = Some \<lparr>de_name = name_field [97], de_start_block = 3, de_size_bytes = 3\<rparr>"
    by (rule sample_system)
  have nd: "\<not> kfs_de_isdir \<lparr>de_name = name_field [97], de_start_block = 3, de_size_bytes = 3\<rparr>"
    using file_start(1) [of 3 "name_field [97]" 3] by simp
  have db: "unat (kd_dir_block sample_dir) = 2" by (simp add: sample_dir_def)
  from kfs_rmdir_correct [OF s(2,3), of "[97]"] obtain rc s' D' ds' where
    "kfs_dir_rmdir 0 [97] s = Some (rc, s')" "kfs_inv ramdisk_home_bd mi ds' D' s'" "rc = -1"
    unfolding db s(4) using nd by auto
  with s(1,2) show ?thesis by blast
qed

lemma regfile_seek_set:
  assumes "reg_cursor f s = Some (c, k, pos)" "kfiles s k = Some kf" "0 \<le> np"
  shows "\<exists>s'. regfile_seek f np 0 s = Some (np, s') \<and> reg_cursor f s' = Some (c, k, of_int np)
    \<and> kfiles s' = kfiles s \<and> cache s' = cache s"
proof -
  let ?s' = "s\<lparr>cursors := (cursors s)(c \<mapsto> RegCursor k (of_int np))\<rparr>"
  have "regfile_seek f np 0 s = Some (np, ?s')" using assms by (simp add: regfile_seek_def)
  moreover have "reg_cursor f ?s' = Some (c, k, of_int np)" by (rule reg_cursor_upd [OF assms(1)]) simp_all
  ultimately show ?thesis by (intro exI [of _ ?s']) simp
qed

lemma map_nth_take: "k \<le> length xs \<Longrightarrow> (\<And>i. i < k \<Longrightarrow> g (a + i) = xs ! i) \<Longrightarrow> map g [a..<a + k] = take k xs"
  by (rule nth_equalityI) auto

text \<open>
  C18. \<open>regfile_write\<close> of an open file whose entry is live: it accepts exactly the bytes that fit
  the 64-block run, stores them at the position and changes no other byte of the run. Outside the run
  nothing on the disk changes but, when the write ends behind the end of the file, the size field of the
  file's own entry, which becomes the end of the write. The size in memory follows, the position advances,
  and the on-disk invariant is kept.
\<close>
theorem regfile_write_correct:
  assumes "kfs_inv bd mi ds D s" "file_entry D ds kf" "file_ok bd kf"
    "reg_cursor f s = Some (c, k, pos)" "kfiles s k = Some kf" "unat pos < 64 * 512"
  shows "\<exists>n s' D'. n = min (length src) (64 * 512 - unat pos) \<and> regfile_write f src s = Some (int n, s') \<and> kfs_inv bd mi ds D' s'
    \<and> (\<forall>i < 64 * 512. fbyte D' kf i = (if unat pos \<le> i \<and> i < unat pos + n then src ! (i - unat pos) else fbyte D kf i))
    \<and> (\<forall>b. \<not> (unat (kf_start_block kf) \<le> b \<and> b < unat (kf_start_block kf) + 64) \<longrightarrow>
         D' b = (if b = unat (kf_dir_block kf) \<and> kf_size_bytes kf < pos + of_nat n
           then put_de (D b) (unat (kf_dirent_idx kf)) ((get_de (D b) (unat (kf_dirent_idx kf)))\<lparr>de_size_bytes := pos + of_nat n\<rparr>)
           else D b))
    \<and> kfiles s' k = Some (kf\<lparr>kf_size_bytes := max (kf_size_bytes kf) (pos + of_nat n)\<rparr>)
    \<and> reg_cursor f s' = Some (c, k, pos + of_nat n)"
  using regfile_write_ok [OF assms refl, of src] by blast

theorem regfile_write_correct_witness:
  "\<exists>mi s D s' D'. kfs_mkimage ramdisk_home_bd sample_payloads sample_fs = Some s \<and> kfs_inv ramdisk_home_bd mi {2} D s
    \<and> regfile_write 0 [7, 8] s = Some (2, s') \<and> kfs_inv ramdisk_home_bd mi {2} D' s'
    \<and> fbyte D' sample_file 1 = 8 \<and> fbyte D' sample_file 2 = fbyte D sample_file 2"
proof -
  obtain mi s D where s: "kfs_mkimage ramdisk_home_bd sample_payloads sample_fs = Some s"
    "kfs_inv ramdisk_home_bd mi {2} D s" "file_entry D {2} sample_file" "file_ok ramdisk_home_bd sample_file"
    "reg_cursor 0 s = Some (0, 0, 0)" "kfiles s 0 = Some sample_file" by (rule sample_system)
  have p: "unat (0 :: u32) < 64 * 512" by simp
  from regfile_write_correct [OF s(2-6) p, of "[7, 8]"] obtain n s' D' where
    w: "n = min (length [7 :: u8, 8]) (64 * 512 - unat (0 :: u32))" "regfile_write 0 [7, 8] s = Some (int n, s')"
       "kfs_inv ramdisk_home_bd mi {2} D' s'"
       "\<forall>i < 64 * 512. fbyte D' sample_file i = (if unat (0 :: u32) \<le> i \<and> i < unat (0 :: u32) + n
          then [7, 8] ! (i - unat (0 :: u32)) else fbyte D sample_file i)" by blast
  have "n = 2" using w(1) by simp
  then have "fbyte D' sample_file 1 = 8" "fbyte D' sample_file 2 = fbyte D sample_file 2"
    using w(4) [rule_format, of 1] w(4) [rule_format, of 2] by simp_all
  moreover have "regfile_write 0 [7, 8] s = Some (2, s')" using w(2) \<open>n = 2\<close> by simp
  ultimately show ?thesis using w(3) s(1,2) by blast
qed

text \<open>
  C19. \<open>regfile_read\<close> returns the file's bytes at the position: as many as fit the request, the
  current block and the file, none at or past the end; it advances the position by that many and
  changes nothing on the disk.
\<close>
theorem regfile_read_correct:
  assumes "disk_image (cache s) bd D" "reg_cursor f s = Some (c, k, pos)" "kfiles s k = Some kf" "file_ok bd kf"
  shows "\<exists>s'. regfile_read f len s = Some (int (read_count kf pos len),
        map (fbyte D kf) [unat pos..<unat pos + read_count kf pos len], s')
    \<and> disk_image (cache s') bd D \<and> reg_cursor f s' = Some (c, k, pos + of_nat (read_count kf pos len)) \<and> kfiles s' = kfiles s"
  by (rule regfile_read_ok [OF assms refl])

theorem regfile_read_correct_witness:
  "\<exists>mi s D s'. kfs_mkimage ramdisk_home_bd sample_payloads sample_fs = Some s \<and> kfs_inv ramdisk_home_bd mi {2} D s
    \<and> regfile_read 0 100 s = Some (3, map (fbyte D sample_file) [0..<3], s') \<and> reg_cursor 0 s' = Some (0, 0, 3)"
proof -
  obtain mi s D where s: "kfs_mkimage ramdisk_home_bd sample_payloads sample_fs = Some s"
    "kfs_inv ramdisk_home_bd mi {2} D s" "file_ok ramdisk_home_bd sample_file"
    "reg_cursor 0 s = Some (0, 0, 0)" "kfiles s 0 = Some sample_file" by (rule sample_system)
  have im: "disk_image (cache s) ramdisk_home_bd D" using s(2) by (simp add: kfs_inv_def)
  have "read_count sample_file 0 100 = 3" by (simp add: read_count_def sample_file_def)
  with regfile_read_correct [OF im s(4,5,3), of 100] s(1,2) show ?thesis by fastforce
qed

text \<open>
  C22. Round trip: bytes written at a position, then read back after seeking to it, are the bytes
  written; one read returns up to the end of the 512-byte block.
\<close>
theorem write_seek_read:
  assumes "kfs_inv bd mi ds D s" "file_entry D ds kf" "file_ok bd kf"
    "reg_cursor f s = Some (c, k, pos)" "kfiles s k = Some kf" "unat pos + length src \<le> 64 * 512" "len \<le> length src" "src \<noteq> []"
  shows "\<exists>s1 s2 s3. regfile_write f src s = Some (int (length src), s1) \<and> regfile_seek f (uint pos) 0 s1 = Some (uint pos, s2)
    \<and> regfile_read f len s2 = Some (int (min len (512 - unat pos mod 512)), take (min len (512 - unat pos mod 512)) src, s3)"
proof -
  let ?kf = "kf\<lparr>kf_size_bytes := max (kf_size_bytes kf) (pos + of_nat (length src))\<rparr>"
  have p: "unat pos < 64 * 512" using assms(6,8) by (cases src) auto
  have n: "length src = min (length src) (64 * 512 - unat pos)" using assms(6) by simp
  obtain s1 D1 where w: "regfile_write f src s = Some (int (length src), s1)" "kfs_inv bd mi ds D1 s1"
    "\<forall>i < 64 * 512. fbyte D1 kf i = (if unat pos \<le> i \<and> i < unat pos + length src then src ! (i - unat pos) else fbyte D kf i)"
    "kfiles s1 k = Some ?kf" "reg_cursor f s1 = Some (c, k, pos + of_nat (length src))"
    using regfile_write_ok [OF assms(1-5) p n] by blast
  obtain s2 where sk: "regfile_seek f (uint pos) 0 s1 = Some (uint pos, s2)" "reg_cursor f s2 = Some (c, k, pos)"
    "kfiles s2 = kfiles s1" "cache s2 = cache s1"
    using regfile_seek_set [OF w(5,4), of "uint pos"] by auto
  have pn: "unat (pos + of_nat (length src)) = unat pos + length src"
    by (rule unat_plus_small) (use assms(6) in simp)
  have sz: "unat (kf_size_bytes ?kf) = max (unat (kf_size_bytes kf)) (unat pos + length src)"
    using pn by (simp add: max_def word_le_nat_alt)
  have fo: "file_ok bd ?kf" using assms(3,6) sz by (simp add: file_ok_def)
  have im: "disk_image (cache s2) bd D1" using w(2) sk(4) by (simp add: kfs_inv_def)
  have kf2: "kfiles s2 k = Some ?kf" using w(4) sk(3) by simp
  let ?m = "min len (512 - unat pos mod 512)"
  have pos0: "0 < length src" using assms(8) by simp
  have rc: "read_count ?kf pos len = ?m"
    using assms(7) pos0 unfolding read_count_def sz by (simp add: min_def)
  obtain s3 where r: "regfile_read f len s2 = Some (int ?m, map (fbyte D1 ?kf) [unat pos..<unat pos + ?m], s3)"
    using regfile_read_ok [OF im sk(2) kf2 fo refl, of len] unfolding rc by blast
  have "map (fbyte D1 ?kf) [unat pos..<unat pos + ?m] = take ?m src"
    by (rule map_nth_take) (use assms(6,7) w(3) in \<open>auto simp: fbyte_def\<close>)
  with w(1) sk(1) r show ?thesis by auto
qed

theorem write_seek_read_witness:
  "\<exists>s s1 s2 s3. kfs_mkimage ramdisk_home_bd sample_payloads sample_fs = Some s
    \<and> regfile_write 0 [7, 8, 9, 10] s = Some (4, s1) \<and> regfile_seek 0 0 0 s1 = Some (0, s2)
    \<and> regfile_read 0 4 s2 = Some (4, [7, 8, 9, 10], s3)"
proof -
  obtain mi s D where s: "kfs_mkimage ramdisk_home_bd sample_payloads sample_fs = Some s"
    "kfs_inv ramdisk_home_bd mi {2} D s" "file_entry D {2} sample_file" "file_ok ramdisk_home_bd sample_file"
    "reg_cursor 0 s = Some (0, 0, 0)" "kfiles s 0 = Some sample_file" by (rule sample_system)
  from write_seek_read [OF s(2-6), of "[7, 8, 9, 10]" 4] s(1) show ?thesis by auto
qed

text \<open>
  \<open>regfile_seek\<close> keeps 32 bits of the new position but returns it whole: a seek to 4 GiB + 5
  reports 4 GiB + 5 and leaves the position at 5.
\<close>
theorem seek_truncates:
  assumes "reg_cursor f s = Some (c, k, pos)" "kfiles s k = Some kf"
  shows "\<exists>s'. regfile_seek f (2 ^ 32 + 5) 0 s = Some (2 ^ 32 + 5, s') \<and> reg_cursor f s' = Some (c, k, 5)"
proof -
  have "(of_int (2 ^ 32 + 5) :: u32) = 5" by simp
  with regfile_seek_set [OF assms, of "2 ^ 32 + 5"] show ?thesis by (metis zero_le_numeral zero_le_power add_nonneg_nonneg)
qed

theorem seek_truncates_witness:
  "\<exists>s'. regfile_seek 0 (2 ^ 32 + 5) 0 sample_fs = Some (2 ^ 32 + 5, s') \<and> reg_cursor 0 s' = Some (0, 0, 5)"
proof -
  have "reg_cursor 0 sample_fs = Some (0, 0, 0)" "kfiles sample_fs 0 = Some sample_file"
    by (simp_all add: reg_cursor_def sample_fs_def)
  then show ?thesis by (rule seek_truncates)
qed

text \<open>
  Unlinking a file that is open: the call succeeds and marks every block of the file free, while
  the open file keeps its cursor and its file object with the same start block. The next
  allocation may hand the blocks of an open file to another file.
\<close>
theorem unlink_frees_open_file:
  assumes "kfs_inv bd mi ds D s" "dir_handle bd ds dir d s" "0 \<notin> set name"
    "dir_find (D (unat (kd_dir_block d))) name = Some e" "\<not> kfs_de_isdir e"
    "reg_cursor f s = Some (c, k, pos)" "kfiles s k = Some kf" "kf_start_block kf = kfs_de_start e"
  shows "\<exists>s' D'. kfs_dir_unlink dir name s = Some (0, s') \<and> kfs_inv bd mi ds D' s'
    \<and> reg_cursor f s' = Some (c, k, pos) \<and> kfiles s' k = Some kf
    \<and> (\<forall>b \<in> {unat (kf_start_block kf)..<unat (kf_start_block kf) + 64}. \<not> kfs_bit_get (D' 1) b)"
proof -
  obtain s' D' where u: "kfs_dir_unlink dir name s = Some (0, s')" "kfs_inv bd mi ds D' s'" "only_disk s s'"
    "\<forall>b. b \<in> de_extent e \<longrightarrow> \<not> kfs_bit_get (D' 1) b"
    using kfs_dir_unlink_ok [OF assms(1-3)] assms(4,5) by auto
  note od = only_diskD [OF u(3)]
  have "reg_cursor f s' = Some (c, k, pos)" "kfiles s' k = Some kf"
    using assms(6,7) by (simp_all add: reg_cursor_def od)
  moreover have "\<forall>b \<in> {unat (kf_start_block kf)..<unat (kf_start_block kf) + 64}. \<not> kfs_bit_get (D' 1) b"
    using u(4) assms(5,8) by (simp add: de_extent_def)
  ultimately show ?thesis using u(1,2) by blast
qed

theorem unlink_frees_open_file_witness:
  "\<exists>s s' D'. kfs_mkimage ramdisk_home_bd sample_payloads sample_fs = Some s \<and> kfs_dir_unlink 0 [97] s = Some (0, s')
    \<and> reg_cursor 0 s' = Some (0, 0, 0) \<and> kfiles s' 0 = Some sample_file \<and> disk_image (cache s') ramdisk_home_bd D'
    \<and> \<not> kfs_bit_get (D' 1) 3"
proof -
  obtain mi s D where s: "kfs_mkimage ramdisk_home_bd sample_payloads sample_fs = Some s"
    "kfs_inv ramdisk_home_bd mi {2} D s" "dir_handle ramdisk_home_bd {2} 0 sample_dir s"
    "reg_cursor 0 s = Some (0, 0, 0)" "kfiles s 0 = Some sample_file" 
    "dir_find (D 2) [97] = Some \<lparr>de_name = name_field [97], de_start_block = 3, de_size_bytes = 3\<rparr>"
    by (rule sample_system)
  let ?e = "\<lparr>de_name = name_field [97], de_start_block = 3, de_size_bytes = 3\<rparr>"
  have nd: "\<not> kfs_de_isdir ?e" using file_start(1) [of 3 "name_field [97]" 3] by simp
  have df: "dir_find (D (unat (kd_dir_block sample_dir))) [97] = Some ?e" using s(6) by (simp add: sample_dir_def)
  have st: "kf_start_block sample_file = kfs_de_start ?e" by (simp add: sample_file_def kfs_de_start_def KFS_DE_DIR_BIT_def)
  have nz: "0 \<notin> set [97 :: u8]" by simp
  from unlink_frees_open_file [OF s(2,3) nz df nd s(4,5) st] obtain s' D' where
    u: "kfs_dir_unlink 0 [97] s = Some (0, s')" "kfs_inv ramdisk_home_bd mi {2} D' s'"
      "reg_cursor 0 s' = Some (0, 0, 0)" "kfiles s' 0 = Some sample_file"
      "\<forall>b \<in> {unat (kf_start_block sample_file)..<unat (kf_start_block sample_file) + 64}. \<not> kfs_bit_get (D' 1) b" by blast
  have "\<not> kfs_bit_get (D' 1) 3" using u(5) by (simp add: sample_file_def)
  with u s(1) show ?thesis unfolding kfs_inv_def by blast
qed

end
