(* ===== verification/Uaccess.thy ===== *)
theory Uaccess
  imports Kappara_Prelude
begin

text \<open>
  The kernel/user boundary, \<open>uts/os/core/uaccess.c\<close>: the window check \<open>user_ptr_ok\<close>
  and the three copy routines every system call goes through. Memory is a total map from 64-bit
  addresses to bytes; a copy that the check refuses returns \<open>None\<close> (the C code's -1) and
  touches nothing.
\<close>

section \<open>Definitions\<close>

type_synonym memory = "u64 \<Rightarrow> u8"

definition USER_VA :: u64 where [consts_def]: "USER_VA = 0x10000000"
definition USER_SIZE :: u64 where [consts_def]: "USER_SIZE = 0x00200000"
definition EXEC_VA :: u64 where [consts_def]: "EXEC_VA = 0x20000000"
definition EXEC_TOTAL :: u64 where [consts_def]: "EXEC_TOTAL = 0x01600000"
definition ANON_VA :: u64 where [consts_def]: "ANON_VA = 0x22000000"
definition ANON_SIZE :: u64 where [consts_def]: "ANON_SIZE = 0x08000000"
definition LD_VA :: u64 where [consts_def]: "LD_VA = 0x30000000"
definition LD_SIZE :: u64 where [consts_def]: "LD_SIZE = 0x00100000"
definition LIBC_VA :: u64 where [consts_def]: "LIBC_VA = 0x38000000"
definition LIBC_SIZE :: u64 where [consts_def]: "LIBC_SIZE = 0x00200000"
definition DLOPEN_VA :: u64 where [consts_def]: "DLOPEN_VA = 0x39000000"
definition DLOPEN_SIZE :: u64 where [consts_def]: "DLOPEN_SIZE = 0x00200000"

definition user_ptr_ok :: "u64 \<Rightarrow> u64 \<Rightarrow> bool" where
  "user_ptr_ok a n =
     (if unat a + unat n \<ge> 2 ^ 64 then False
      else let e = (if n = 0 then a + 1 else a + n) in
        if a \<ge> USER_VA \<and> e \<le> USER_VA + USER_SIZE then True
        else if a \<ge> EXEC_VA \<and> e \<le> EXEC_VA + EXEC_TOTAL then True
        else if a \<ge> ANON_VA \<and> e \<le> ANON_VA + ANON_SIZE then True
        else if a \<ge> LD_VA \<and> e \<le> LD_VA + LD_SIZE then True
        else if a \<ge> LIBC_VA \<and> e \<le> LIBC_VA + LIBC_SIZE then True
        else if a \<ge> DLOPEN_VA \<and> e \<le> DLOPEN_VA + DLOPEN_SIZE then True
        else False)"

definition copy_from_user :: "memory \<Rightarrow> u64 \<Rightarrow> u64 \<Rightarrow> bytes option" where
  "copy_from_user m usrc n =
     (if \<not> user_ptr_ok usrc n then None
      else Some (map (\<lambda>i. m (usrc + of_nat i)) [0..<unat n]))"

text \<open>The byte loop of \<open>copy_to_user\<close>: store \<open>src[i..]\<close> at \<open>udst + i\<close> onwards.\<close>

fun copy_to_loop :: "memory \<Rightarrow> u64 \<Rightarrow> bytes \<Rightarrow> memory" where
  "copy_to_loop m d [] = m"
| "copy_to_loop m d (b # bs) = copy_to_loop (m(d := b)) (d + 1) bs"

definition copy_to_user :: "memory \<Rightarrow> u64 \<Rightarrow> bytes \<Rightarrow> u64 \<Rightarrow> memory option" where
  "copy_to_user m udst src n =
     (if \<not> user_ptr_ok udst n then None
      else Some (copy_to_loop m udst (take (unat n) src)))"

text \<open>
  \<open>strncpy_from_user\<close> with \<open>maxlen - i\<close> iterations left; \<open>Some s\<close> is the return of
  \<open>length s\<close> with \<open>s\<close> and a NUL in \<open>dst\<close>.
\<close>

fun strncpy_loop :: "memory \<Rightarrow> u64 \<Rightarrow> nat \<Rightarrow> bytes option" where
  "strncpy_loop m u 0 = None"
| "strncpy_loop m u (Suc k) =
     (if \<not> user_ptr_ok u 1 then None
      else if m u = 0 then Some []
      else map_option ((#) (m u)) (strncpy_loop m (u + 1) k))"

definition strncpy_from_user :: "memory \<Rightarrow> u64 \<Rightarrow> nat \<Rightarrow> bytes option" where
  "strncpy_from_user m usrc maxlen = (if maxlen = 0 then None else strncpy_loop m usrc maxlen)"

text \<open>The abstract reading of the check: the windows, and an address inside one of them.\<close>

definition user_windows :: "(u64 \<times> u64) list" where
  "user_windows = [(USER_VA, USER_SIZE), (EXEC_VA, EXEC_TOTAL), (ANON_VA, ANON_SIZE),
     (LD_VA, LD_SIZE), (LIBC_VA, LIBC_SIZE), (DLOPEN_VA, DLOPEN_SIZE)]"

definition user_addr :: "u64 \<Rightarrow> bool" where
  "user_addr x \<longleftrightarrow> (\<exists>(lo, sz) \<in> set user_windows. unat lo \<le> unat x \<and> unat x < unat lo + unat sz)"

section \<open>Lemmas\<close>

lemma unat_add_of_nat:
  "unat (a :: u64) + i < 2 ^ 64 \<Longrightarrow> unat (a + of_nat i) = unat a + i"
  by (simp add: unat_word_ariths unat_of_nat)

lemma user_ptr_ok_iff:
  assumes "n \<noteq> 0"
  shows "user_ptr_ok a n \<longleftrightarrow> unat a + unat n < 2 ^ 64 \<and>
    (\<exists>(lo, sz) \<in> set user_windows. unat lo \<le> unat a \<and> unat a + unat n \<le> unat lo + unat sz)"
proof (cases "unat a + unat n < 2 ^ 64")
  case True
  then have e: "unat (a + n) = unat a + unat n"
    by (simp add: unat_word_ariths)
  from True assms show ?thesis
    by (auto simp: user_ptr_ok_def user_windows_def word_le_nat_alt e consts_def
        simp del: unat_plus_if')
qed (simp add: user_ptr_ok_def)

lemma user_ptr_ok_in_window:
  assumes "user_ptr_ok a n" "i < unat n"
  shows "user_addr (a + of_nat i)" "unat (a + of_nat i) = unat a + i"
proof -
  from assms(2) have "n \<noteq> 0" by auto
  with assms(1) have b: "unat a + unat n < 2 ^ 64" and
    w: "\<exists>(lo, sz) \<in> set user_windows. unat lo \<le> unat a \<and> unat a + unat n \<le> unat lo + unat sz"
    by (auto simp: user_ptr_ok_iff)
  from b assms(2) show e: "unat (a + of_nat i) = unat a + i" by (intro unat_add_of_nat) simp
  from w obtain lo sz where "(lo, sz) \<in> set user_windows" "unat lo \<le> unat a"
    "unat a + unat n \<le> unat lo + unat sz" by auto
  with assms(2) show "user_addr (a + of_nat i)"
    unfolding user_addr_def e by (intro bexI [of _ "(lo, sz)"]) auto
qed

lemma user_ptr_ok_1: "user_ptr_ok a 1 \<longleftrightarrow> user_addr a"
proof -
  have "unat (1 :: u64) = 1" by simp
  moreover have "unat a < 0x40000000 \<Longrightarrow> unat a + 1 < 2 ^ 64" by simp
  ultimately show ?thesis
    by (auto simp: user_ptr_ok_iff user_addr_def user_windows_def consts_def)
qed

lemma copy_to_loop_apply:
  "unat d + length bs \<le> 2 ^ 64 \<Longrightarrow> copy_to_loop m d bs x =
     (if unat d \<le> unat x \<and> unat x < unat d + length bs then bs ! (unat x - unat d) else m x)"
proof (induction bs arbitrary: m d)
  case (Cons b bs)
  show ?case
  proof (cases "bs = []")
    case True
    then show ?thesis by (auto simp: word_unat_eq_iff)
  next
    case False
    with Cons.prems have lt: "unat d + 1 < 2 ^ 64" by (cases bs) auto
    then have d1: "unat (d + 1) = unat d + 1" using unat_add_of_nat [of d 1] by simp
    then have "unat (d + 1) + length bs \<le> 2 ^ 64" using Cons.prems by simp
    note IH = Cons.IH [OF this, of "m(d := b)"]
    show ?thesis
    proof (cases "x = d")
      case True
      then show ?thesis unfolding copy_to_loop.simps IH by (simp add: d1)
    next
      case False
      then have "unat x \<noteq> unat d" by (simp add: word_unat_eq_iff)
      with False show ?thesis by (auto simp: IH d1 nth_Cons')
    qed
  qed
qed auto

lemma copy_to_user_apply:
  assumes "copy_to_user m d src n = Some m'" "unat n \<le> length src"
  shows "m' x = (if unat d \<le> unat x \<and> unat x < unat d + unat n then src ! (unat x - unat d) else m x)"
proof (cases "n = 0")
  case True
  with assms show ?thesis by (auto simp: copy_to_user_def split: if_splits)
next
  case False
  from assms(1) have ok: "user_ptr_ok d n" and m': "m' = copy_to_loop m d (take (unat n) src)"
    by (auto simp: copy_to_user_def split: if_splits)
  from ok False have "unat d + unat n < 2 ^ 64" by (simp add: user_ptr_ok_iff)
  with assms(2) show ?thesis by (auto simp: m' copy_to_loop_apply)
qed

lemma strncpy_loop_iff:
  "strncpy_loop m u k = Some s \<longleftrightarrow>
     length s < k \<and> (\<forall>i \<le> length s. user_addr (u + of_nat i)) \<and>
     (\<forall>i < length s. s ! i = m (u + of_nat i) \<and> s ! i \<noteq> 0) \<and> m (u + of_nat (length s)) = 0"
  (is "_ \<longleftrightarrow> ?R u k s")
proof (induction k arbitrary: u s)
  case (Suc k)
  show ?case
  proof (cases s)
    case Nil
    then show ?thesis by (auto simp: user_ptr_ok_1)
  next
    case (Cons c t)
    have step: "?R u (Suc k) (c # t) \<longleftrightarrow> user_addr u \<and> c = m u \<and> c \<noteq> 0 \<and> ?R (u + 1) k t"
      by (auto simp: All_less_Suc2 less_Suc_eq_le [symmetric] algebra_simps)
    show ?thesis unfolding Cons step using Suc.IH [of "u + 1" t] by (auto simp: user_ptr_ok_1)
  qed
qed simp

section \<open>Properties\<close>

text \<open>
  C36. The window check is exact: a non-empty range is accepted iff it does not wrap around
  the address space and lies inside one of the six user windows, so every byte it covers
  is a user address.
\<close>

theorem user_ptr_ok_exact:
  assumes "n \<noteq> 0"
  shows "(user_ptr_ok a n \<longleftrightarrow> unat a + unat n < 2 ^ 64 \<and>
      (\<exists>(lo, sz) \<in> set user_windows. unat lo \<le> unat a \<and> unat a + unat n \<le> unat lo + unat sz))
    \<and> (user_ptr_ok a n \<longrightarrow> (\<forall>i < unat n. user_addr (a + of_nat i)))"
  using user_ptr_ok_iff [OF assms] user_ptr_ok_in_window(1) by blast+

theorem user_ptr_ok_exact_witness:
  "user_ptr_ok 0x10000000 0x200000 \<and> \<not> user_ptr_ok 0x10000001 0x200000 \<and>
   user_addr (0x10000000 + of_nat 0x1FFFFF)"
proof (intro conjI)
  show ok: "user_ptr_ok 0x10000000 0x200000"
    using user_ptr_ok_exact [of "0x200000" "0x10000000"] by (simp add: user_windows_def consts_def)
  show "\<not> user_ptr_ok 0x10000001 0x200000"
    using user_ptr_ok_exact [of "0x200000" "0x10000001"] by (simp add: user_windows_def consts_def)
  have "\<forall>i < 0x200000. user_addr (0x10000000 + of_nat i)"
    using user_ptr_ok_exact [of "0x200000" "0x10000000"] ok by simp
  then show "user_addr (0x10000000 + of_nat 0x1FFFFF)" by (rule allE [of _ "0x1FFFFF"]) simp
qed

text \<open>
  C37. A user-space store never reaches kernel memory, and reading the same range back
  yields exactly the bytes stored.
\<close>

theorem copy_to_user_confined:
  assumes "copy_to_user m d src n = Some m'" "length src = unat n"
  shows "(\<forall>x. \<not> user_addr x \<longrightarrow> m' x = m x) \<and> copy_from_user m' d n = Some src"
proof
  note app = copy_to_user_apply [OF assms(1)]
  from assms(1) have ok: "user_ptr_ok d n" by (auto simp: copy_to_user_def split: if_splits)
  show "\<forall>x. \<not> user_addr x \<longrightarrow> m' x = m x"
  proof (intro allI impI)
    fix x assume nu: "\<not> user_addr x"
    show "m' x = m x"
    proof (rule ccontr)
      assume "m' x \<noteq> m x"
      with app [of x] assms(2) have r: "unat d \<le> unat x" "unat x < unat d + unat n"
        by (simp_all split: if_splits)
      then have "unat (d + of_nat (unat x - unat d)) = unat x"
        using user_ptr_ok_in_window(2) [OF ok, of "unat x - unat d"] by simp
      then have "d + of_nat (unat x - unat d) = x" by (simp only: word_unat_eq_iff)
      moreover have "unat x - unat d < unat n" using r by linarith
      ultimately show False using nu user_ptr_ok_in_window(1) [OF ok, of "unat x - unat d"] by simp
    qed
  qed
  have "m' (d + of_nat i) = src ! i" if "i < unat n" for i
    using app [of "d + of_nat i"] assms(2) that user_ptr_ok_in_window(2) [OF ok that] by simp
  then show "copy_from_user m' d n = Some src"
    using ok assms(2) by (auto simp: copy_from_user_def intro: nth_equalityI)
qed

theorem copy_to_user_confined_witness:
  "\<exists>m'. copy_to_user (\<lambda>_. 0) 0x20000000 [7, 8] 2 = Some m' \<and>
     m' 0x1FFFFFFF = 0 \<and> copy_from_user m' 0x20000000 2 = Some [7, 8]"
proof -
  let ?m = "copy_to_loop (\<lambda>_. 0) 0x20000000 [7, 8]"
  have h: "copy_to_user (\<lambda>_. 0) 0x20000000 [7, 8] 2 = Some ?m"
    by (simp add: copy_to_user_def user_ptr_ok_iff user_windows_def consts_def)
  have "\<not> user_addr 0x1FFFFFFF" by (simp add: user_addr_def user_windows_def consts_def)
  with copy_to_user_confined [OF h] h show ?thesis by auto
qed

text \<open>
  A user string is accepted exactly when a NUL is found within \<open>maxlen\<close> bytes, all
  of them (the NUL included) at user addresses; the result is the bytes before the NUL.
\<close>

theorem strncpy_from_user_exact:
  "strncpy_from_user m u maxlen = Some s \<longleftrightarrow>
     length s < maxlen \<and> (\<forall>i \<le> length s. user_addr (u + of_nat i)) \<and>
     (\<forall>i < length s. s ! i = m (u + of_nat i) \<and> s ! i \<noteq> 0) \<and> m (u + of_nat (length s)) = 0"
  by (auto simp: strncpy_from_user_def strncpy_loop_iff)

theorem strncpy_from_user_exact_witness:
  "strncpy_from_user ((\<lambda>_. 0)(0x101FFFFE := 65)) 0x101FFFFE 128 = Some [65] \<and>
   strncpy_from_user (\<lambda>_. 65) 0x101FFFFE 128 = None"
proof
  show "strncpy_from_user ((\<lambda>_. 0)(0x101FFFFE := 65)) 0x101FFFFE 128 = Some [65]"
    by (simp add: strncpy_from_user_exact user_addr_def user_windows_def consts_def le_Suc_eq)
  have "strncpy_from_user (\<lambda>_. 65) 0x101FFFFE 128 \<noteq> Some s" for s
    by (simp add: strncpy_from_user_exact)
  then show "strncpy_from_user (\<lambda>_. 65) 0x101FFFFE 128 = None" by auto
qed

text \<open>
  The zero-length probe is not exact: \<open>end = a + 1\<close> is computed after the overflow
  test, so the last address of the address space, far outside every window, is accepted.
\<close>

theorem user_ptr_ok_zero_length_wrap:
  "user_ptr_ok (- 1) 0 \<and> \<not> user_addr (- 1)"
proof -
  have m1: "unat (- 1 :: u64) = 2 ^ 64 - 1" by (simp add: unsigned_minus_1_eq_mask mask_eq_exp_minus_1)
  show ?thesis by (simp add: user_ptr_ok_def user_addr_def user_windows_def consts_def m1)
qed

end
