(* ===== verification/Vfs.thy ===== *)
theory Vfs
  imports Kfs_Files Uaccess
begin

text \<open>
  The file layer of \<open>uts/os/fs/vfs.c\<close> above the tree: block-device files, the per-thread
  descriptor tables, reference counts of open files, directory listings and the \<open>sys_*_impl\<close>
  entry points, with \<open>resolve_path_kva\<close> of \<open>uts/os/proc/syscall.c\<close>. A \<open>file_ops\<close> table is a
  value of \<open>methods\<close>; \<open>vtable\<close> fills in the tables of regular files, block devices and \<open>kfs\<close>
  directories and takes those of other file systems and of STREAMS devices as an argument.
\<close>

section \<open>Definitions\<close>

definition KT_FD_MAX :: nat where [consts_def]: "KT_FD_MAX = 16"

subsection \<open>Block-device files\<close>

definition blk_cursor :: "nat \<Rightarrow> fs \<Rightarrow> (nat \<times> u64) option" where
  "blk_cursor f s =
     do { fl \<leftarrow> ofiles s f;
          c \<leftarrow> f_private fl;
          cu \<leftarrow> cursors s c;
          (case cu of BlkCursor pos \<Rightarrow> Some (c, pos) | RegCursor _ _ \<Rightarrow> None) }"

definition blk_dev :: "nat \<Rightarrow> fs \<Rightarrow> u32 option" where
  "blk_dev f s = do { fl \<leftarrow> ofiles s f; i \<leftarrow> f_inode fl; x \<leftarrow> inodes s i; Some (i_rdev x) }"

definition blkdev_open :: "nat \<Rightarrow> fs \<Rightarrow> (int \<times> fs) option" where
  "blkdev_open f s =
     (case kmalloc s of
        (None, s1) \<Rightarrow> Some (-1, s1)
      | (Some c, s1) \<Rightarrow>
          do { fl \<leftarrow> ofiles s1 f;
               Some (0, s1\<lparr>cursors := (cursors s1)(c \<mapsto> BlkCursor 0),
                           ofiles := (ofiles s1)(f \<mapsto> fl\<lparr>f_private := Some c\<rparr>)\<rparr>) })"

definition blkdev_close :: "nat \<Rightarrow> fs \<Rightarrow> (int \<times> fs) option" where
  "blkdev_close f s =
     do { fl \<leftarrow> ofiles s f;
          Some (0, s\<lparr>cursors := (case f_private fl of None \<Rightarrow> cursors s | Some c \<Rightarrow> (cursors s)(c := None)),
                     ofiles := (ofiles s)(f \<mapsto> fl\<lparr>f_private := None\<rparr>)\<rparr>) }"

text \<open>The transfer loops, with \<open>left\<close> bytes to go: the bytes moved, the new position and the cache.\<close>

function blk_read_loop :: "u32 \<Rightarrow> u64 \<Rightarrow> nat \<Rightarrow> disks bcache \<Rightarrow> (bytes \<times> u64 \<times> disks bcache) option" where
  "blk_read_loop dev pos left c =
     (if left = 0 then Some ([], pos, c)
      else let inblk = unat (pos mod 512); n = min (512 - inblk) left in
        do { (r, c1) \<leftarrow> bread dev (pos div 512) c;
             (case r of
                None \<Rightarrow> Some ([], pos, c1)
              | Some bp \<Rightarrow>
                  do { (rest, pos', c2) \<leftarrow> blk_read_loop dev (pos + of_nat n) (left - n) (brelse (Some bp) c1);
                       Some (subbytes inblk n (b_data (bufs c1 bp)) @ rest, pos', c2) }) })"
  by pat_completeness auto
termination
proof (relation "measure (\<lambda>(dev, pos, left, c). left)", goal_cases)
  case 1
  show ?case by simp
next
  case (2 dev pos left c)
  have "unat (pos mod 512) < 512" by (simp add: unat_mod_distrib)
  with 2 show ?case by auto
qed

declare blk_read_loop.simps [simp del]

definition blkdev_read :: "nat \<Rightarrow> nat \<Rightarrow> fs \<Rightarrow> (int \<times> bytes \<times> fs) option" where
  "blkdev_read f len s =
     do { (k, pos) \<leftarrow> blk_cursor f s;
          dev \<leftarrow> blk_dev f s;
          (out, pos', c) \<leftarrow> blk_read_loop dev pos len (cache s);
          Some (int (length out), out, s\<lparr>cache := c, cursors := (cursors s)(k \<mapsto> BlkCursor pos')\<rparr>) }"

text \<open>A whole block is stamped over the cache slot; a part of one is read, modified and written.\<close>

definition blk_fill :: "u32 \<Rightarrow> u64 \<Rightarrow> nat \<Rightarrow> bytes \<Rightarrow> disks bcache \<Rightarrow> (nat ptr \<times> disks bcache) option" where
  "blk_fill dev blkno inblk chunk c =
     (if inblk = 0 \<and> length chunk = 512
      then do { (r, c1) \<leftarrow> getblk dev blkno c;
                Some (case r of None \<Rightarrow> (None, c1)
                      | Some bp \<Rightarrow> (Some bp, upd_buf bp (\<lambda>b. set_flags B_VALID (b\<lparr>b_data := blit (b_data b) 0 chunk\<rparr>)) c1)) }
      else do { (r, c1) \<leftarrow> bread dev blkno c;
                Some (case r of None \<Rightarrow> (None, c1)
                      | Some bp \<Rightarrow> (Some bp, upd_buf bp (\<lambda>b. b\<lparr>b_data := blit (b_data b) inblk chunk\<rparr>) c1)) })"

function blk_write_loop :: "u32 \<Rightarrow> u64 \<Rightarrow> bytes \<Rightarrow> disks bcache \<Rightarrow> (nat \<times> u64 \<times> disks bcache) option" where
  "blk_write_loop dev pos src c =
     (if src = [] then Some (0, pos, c)
      else let inblk = unat (pos mod 512); n = min (512 - inblk) (length src) in
        do { (r, c1) \<leftarrow> blk_fill dev (pos div 512) inblk (take n src) c;
             (case r of
                None \<Rightarrow> Some (0, pos, c1)
              | Some bp \<Rightarrow>
                  do { (rc, c2) \<leftarrow> bwrite (Some bp) c1;
                       if rc < 0 then Some (0, pos, c2)
                       else do { (k, pos', c3) \<leftarrow> blk_write_loop dev (pos + of_nat n) (drop n src) c2;
                                 Some (n + k, pos', c3) } }) })"
  by pat_completeness auto
termination
proof (relation "measure (\<lambda>(dev, pos, src, c). length src)", goal_cases)
  case 1
  show ?case by simp
next
  case (2 dev pos src c)
  have "unat (pos mod 512) < 512" by (simp add: unat_mod_distrib)
  with 2 show ?case by auto
qed

declare blk_write_loop.simps [simp del]

definition blkdev_write :: "nat \<Rightarrow> bytes \<Rightarrow> fs \<Rightarrow> (int \<times> fs) option" where
  "blkdev_write f src s =
     do { (k, pos) \<leftarrow> blk_cursor f s;
          dev \<leftarrow> blk_dev f s;
          (n, pos', c) \<leftarrow> blk_write_loop dev pos src (cache s);
          Some (int n, s\<lparr>cache := c, cursors := (cursors s)(k \<mapsto> BlkCursor pos')\<rparr>) }"

definition blkdev_seek :: "nat \<Rightarrow> int \<Rightarrow> int \<Rightarrow> fs \<Rightarrow> (int \<times> fs) option" where
  "blkdev_seek f offset whence s =
     do { (k, pos) \<leftarrow> blk_cursor f s;
          let newpos = (if whence = 0 then Some offset
                        else if whence = 1 then Some (sint pos + offset) else None);
          (case newpos of
             None \<Rightarrow> Some (-1, s)
           | Some np \<Rightarrow> if np < 0 then Some (-1, s)
                       else Some (np, s\<lparr>cursors := (cursors s)(k \<mapsto> BlkCursor (of_int np))\<rparr>)) }"

subsection \<open>Method tables\<close>

type_synonym dir_method = "nat \<Rightarrow> bytes \<Rightarrow> fs \<Rightarrow> (int \<times> fs) option"

record methods =
  m_open :: "fops \<Rightarrow> (nat \<Rightarrow> fs \<Rightarrow> (int \<times> fs) option) option"
  m_close :: "fops \<Rightarrow> (nat \<Rightarrow> fs \<Rightarrow> (int \<times> fs) option) option"
  m_read :: "fops \<Rightarrow> (nat \<Rightarrow> nat \<Rightarrow> fs \<Rightarrow> (int \<times> bytes \<times> fs) option) option"
  m_write :: "fops \<Rightarrow> (nat \<Rightarrow> bytes \<Rightarrow> fs \<Rightarrow> (int \<times> fs) option) option"
  m_seek :: "fops \<Rightarrow> (nat \<Rightarrow> int \<Rightarrow> int \<Rightarrow> fs \<Rightarrow> (int \<times> fs) option) option"
  m_creat :: "fops \<Rightarrow> dir_method option"
  m_mkdir :: "fops \<Rightarrow> dir_method option"
  m_unlink :: "fops \<Rightarrow> dir_method option"
  m_rmdir :: "fops \<Rightarrow> dir_method option"
  m_size :: "fops \<Rightarrow> (nat \<Rightarrow> fs \<Rightarrow> int option) option"

text \<open>The tables \<open>regfile_fops\<close>, \<open>blkdev_fops\<close> and \<open>kfs_dir_fops\<close>; the rest is \<open>ext\<close>.\<close>

definition pick :: "'m option \<Rightarrow> 'm option \<Rightarrow> 'm option \<Rightarrow> (fops \<Rightarrow> 'm option) \<Rightarrow> fops \<Rightarrow> 'm option" where
  "pick reg blk dir ext fo = (case fo of RegfileFops \<Rightarrow> reg | BlkdevFops \<Rightarrow> blk | KfsDirFops \<Rightarrow> dir | _ \<Rightarrow> ext fo)"

definition vtable :: "methods \<Rightarrow> methods" where
  "vtable ext = \<lparr>m_open = pick (Some regfile_open) (Some blkdev_open) None (m_open ext),
     m_close = pick (Some regfile_close) (Some blkdev_close) None (m_close ext),
     m_read = pick (Some regfile_read) (Some blkdev_read) None (m_read ext),
     m_write = pick (Some regfile_write) (Some blkdev_write) None (m_write ext),
     m_seek = pick (Some regfile_seek) (Some blkdev_seek) None (m_seek ext),
     m_creat = pick None None (Some kfs_dir_creat) (m_creat ext),
     m_mkdir = pick None None (Some kfs_dir_mkdir) (m_mkdir ext),
     m_unlink = pick None None (Some kfs_dir_unlink) (m_unlink ext),
     m_rmdir = pick None None (Some kfs_dir_rmdir) (m_rmdir ext),
     m_size = pick (Some regfile_size) None None (m_size ext)\<rparr>"

text \<open>A system with no other file system and no STREAMS device.\<close>

definition no_ext :: methods where
  "no_ext = \<lparr>m_open = \<lambda>_. None, m_close = \<lambda>_. None, m_read = \<lambda>_. None, m_write = \<lambda>_. None, m_seek = \<lambda>_. None,
     m_creat = \<lambda>_. None, m_mkdir = \<lambda>_. None, m_unlink = \<lambda>_. None, m_rmdir = \<lambda>_. None, m_size = \<lambda>_. None\<rparr>"

subsection \<open>Descriptor tables and file references\<close>

text \<open>\<open>me\<close> is \<open>curthread\<close>; \<open>fdts s t\<close> is the table of thread \<open>t\<close>.\<close>

definition set_fd :: "nat \<Rightarrow> nat \<Rightarrow> nat ptr \<Rightarrow> fs \<Rightarrow> fs" where
  "set_fd t i v s = s\<lparr>fdts := (fdts s)(t := (fdts s t)(i := v))\<rparr>"

definition fd_alloc :: "nat ptr \<Rightarrow> nat \<Rightarrow> fs \<Rightarrow> int \<times> fs" where
  "fd_alloc me f s =
     (case me of None \<Rightarrow> (-1, s)
      | Some t \<Rightarrow> (case find (\<lambda>i. fdts s t i = None) [0..<KT_FD_MAX] of
                     None \<Rightarrow> (-1, s)
                   | Some i \<Rightarrow> (int i, set_fd t i (Some f) s)))"

definition fd_free :: "nat ptr \<Rightarrow> int \<Rightarrow> fs \<Rightarrow> fs" where
  "fd_free me fd s =
     (case me of None \<Rightarrow> s
      | Some t \<Rightarrow> if fd < 0 \<or> fd \<ge> int KT_FD_MAX then s else set_fd t (nat fd) None s)"

definition fd_get :: "nat ptr \<Rightarrow> int \<Rightarrow> fs \<Rightarrow> nat ptr" where
  "fd_get me fd s =
     (case me of None \<Rightarrow> None
      | Some t \<Rightarrow> if fd < 0 \<or> fd \<ge> int KT_FD_MAX then None else fdts s t (nat fd))"

definition file_get :: "nat ptr \<Rightarrow> fs \<Rightarrow> fs" where
  "file_get f s =
     (case f of None \<Rightarrow> s
      | Some k \<Rightarrow> s\<lparr>ofiles := (ofiles s)(k := map_option (f_refs_update (\<lambda>n. n + 1)) (ofiles s k))\<rparr>)"

definition file_put :: "methods \<Rightarrow> nat ptr \<Rightarrow> fs \<Rightarrow> fs option" where
  "file_put M f s =
     (case f of None \<Rightarrow> Some s
      | Some k \<Rightarrow>
          do { fl \<leftarrow> ofiles s k;
               let s1 = s\<lparr>ofiles := (ofiles s)(k \<mapsto> fl\<lparr>f_refs := f_refs fl - 1\<rparr>)\<rparr>;
               if f_refs fl - 1 \<noteq> 0 then Some s1
               else do { s2 \<leftarrow> (case Option.bind (f_ops fl) (m_close M) of
                                 None \<Rightarrow> Some s1
                               | Some cl \<Rightarrow> map_option snd (cl k s1));
                         fl2 \<leftarrow> ofiles s2 k;
                         s3 \<leftarrow> vfs_iput (f_inode fl2) s2;
                         Some (s3\<lparr>ofiles := (ofiles s3)(k := None)\<rparr>) } })"

definition inherit_one :: "nat \<Rightarrow> nat \<Rightarrow> fs \<Rightarrow> nat \<Rightarrow> fs" where
  "inherit_one child parent s i = file_get (fdts s parent i) (set_fd child i (fdts s parent i) s)"

definition kthread_inherit_fds :: "nat ptr \<Rightarrow> nat ptr \<Rightarrow> fs \<Rightarrow> fs" where
  "kthread_inherit_fds child parent s =
     (case (child, parent) of
        (Some c, Some p) \<Rightarrow> foldl (inherit_one c p) s [0..<KT_FD_MAX]
      | _ \<Rightarrow> s)"

fun drain_from :: "methods \<Rightarrow> nat \<Rightarrow> nat list \<Rightarrow> fs \<Rightarrow> fs option" where
  "drain_from M t [] s = Some s"
| "drain_from M t (i # is) s =
     (case fdts s t i of
        None \<Rightarrow> drain_from M t is s
      | Some f \<Rightarrow> do { s1 \<leftarrow> file_put M (Some f) (set_fd t i None s); drain_from M t is s1 })"

definition vfs_drain_fds :: "methods \<Rightarrow> nat ptr \<Rightarrow> fs \<Rightarrow> fs option" where
  "vfs_drain_fds M t s = (case t of None \<Rightarrow> Some s | Some k \<Rightarrow> drain_from M k [0..<KT_FD_MAX] s)"

subsection \<open>Paths\<close>

text \<open>A path argument: a user address (\<open>syscall_from_user\<close> set) or a kernel string or NULL.\<close>

datatype path_arg = UserPath memory u64 | KernPath "bytes option"

definition fetch_path :: "path_arg \<Rightarrow> nat \<Rightarrow> bytes option" where
  "fetch_path a cap = (case a of UserPath m u \<Rightarrow> strncpy_from_user m u cap | KernPath p \<Rightarrow> p)"

text \<open>The in-place pass of \<open>resolve_path_kva\<close> over "/." and "//"; 47 is the slash, 46 the dot.\<close>

fun collapse :: "bytes \<Rightarrow> bytes" where
  "collapse [] = []"
| "collapse (a # r) =
     (if a = 47 \<and> r \<noteq> [] \<and> hd r = 46 \<and> (tl r = [] \<or> hd (tl r) = 47) then 47 # collapse (tl r)
      else if a = 47 \<and> r \<noteq> [] \<and> hd r = 47 then collapse r
      else a # collapse r)"

definition trim_slash :: "bytes \<Rightarrow> bytes" where
  "trim_slash w = (if length w > 1 \<and> last w = 47 then butlast w else w)"

text \<open>\<open>vm_cwd\<close> is the current directory of the calling process, if it has an address space.\<close>

definition resolve_path_kva :: "bytes option \<Rightarrow> bytes option \<Rightarrow> nat \<Rightarrow> bytes option" where
  "resolve_path_kva vm_cwd path cap =
     (case path of None \<Rightarrow> None
      | Some p \<Rightarrow>
          if cap < 2 then None
          else let out = (if p \<noteq> [] \<and> hd p = 47 then take (cap - 1) p
                 else let cwd = (case vm_cwd of Some w \<Rightarrow> if w \<noteq> [] \<and> hd w = 47 then w else [47] | None \<Rightarrow> [47]);
                          c = take (cap - 1) cwd;
                          c' = (if length c > 1 \<and> length c + 1 < cap then c @ [47] else c)
                      in c' @ take (cap - 1 - length c') p)
               in Some (trim_slash (collapse out)))"

text \<open>Directory part and last component; \<open>last_slash\<close> is the index of the last slash.\<close>

definition last_slash :: "bytes \<Rightarrow> nat" where
  "last_slash p = length (dropWhile (\<lambda>ch. ch \<noteq> 47) (rev p)) - 1"

definition split_parent :: "bytes option \<Rightarrow> nat \<Rightarrow> (bytes \<times> bytes) option" where
  "split_parent path dirsz =
     (case path of None \<Rightarrow> None
      | Some p \<Rightarrow>
          if p = [] \<or> hd p \<noteq> 47 then None
          else let dirlen = (if last_slash p = 0 then 1 else last_slash p) in
            if dirlen \<ge> dirsz then None else Some (take dirlen p, drop (last_slash p + 1) p))"

definition resolve_parent :: "path_arg \<Rightarrow> nat \<Rightarrow> nat \<Rightarrow> (bytes \<times> bytes) option" where
  "resolve_parent a dirsz pathsz = split_parent (fetch_path a pathsz) dirsz"

subsection \<open>System calls\<close>

definition sys_open_impl :: "methods \<Rightarrow> nat ptr \<Rightarrow> bytes option \<Rightarrow> path_arg \<Rightarrow> u32 \<Rightarrow> fs \<Rightarrow> (int \<times> fs) option" where
  "sys_open_impl M me vm_cwd path flags s =
     (case Option.bind (fetch_path path 128) (\<lambda>p. resolve_path_kva vm_cwd (Some p) 128) of
        None \<Rightarrow> Some (-1, s)
      | Some p \<Rightarrow>
     do { r \<leftarrow> vfs_lookup p s;
          (case r of None \<Rightarrow> Some (-1, s)
           | Some d \<Rightarrow>
     do { e \<leftarrow> dentries s d;
          i \<leftarrow> d_inode e;
          x \<leftarrow> inodes s i;
          (case Option.bind (i_fops x) (m_open M) of
             None \<Rightarrow> Some (-1, s)
           | Some op \<Rightarrow>
     (case kmalloc s of
        (None, s1) \<Rightarrow> Some (-1, s1)
      | (Some f, s1) \<Rightarrow>
          let s2 = vfs_iget (Some i) s1;
              s3 = s2\<lparr>ofiles := (ofiles s2)(f \<mapsto> \<lparr>f_ops = i_fops x, f_inode = Some i, f_private = None,
                                               f_refs = 1, f_flags = flags\<rparr>)\<rparr> in
          do { (rc, s4) \<leftarrow> op f s3;
               if rc < 0
               then do { s5 \<leftarrow> vfs_iput (Some i) s4; Some (-1, s5\<lparr>ofiles := (ofiles s5)(f := None)\<rparr>) }
               else (case fd_alloc me f s4 of (fd, s5) \<Rightarrow>
                 if fd < 0
                 then do { s6 \<leftarrow> (case Option.bind (i_fops x) (m_close M) of
                                    None \<Rightarrow> Some s5 | Some cl \<Rightarrow> map_option snd (cl f s5));
                           s7 \<leftarrow> vfs_iput (Some i) s6;
                           Some (-1, s7\<lparr>ofiles := (ofiles s7)(f := None)\<rparr>) }
                 else Some (fd, s5)) })) }) })"

text \<open>The directory handed to a directory method: a NULL dentry or inode fails the call.\<close>

definition parent_inode :: "bytes \<Rightarrow> fs \<Rightarrow> (nat \<times> nat \<times> inode) option option" where
  "parent_inode dir s =
     do { r \<leftarrow> vfs_lookup dir s;
          (case r of None \<Rightarrow> Some None
           | Some d \<Rightarrow> do { e \<leftarrow> dentries s d;
               (case d_inode e of None \<Rightarrow> Some None
                | Some i \<Rightarrow> do { x \<leftarrow> inodes s i; Some (Some (d, i, x)) }) }) }"

definition sys_mkdir_impl :: "methods \<Rightarrow> path_arg \<Rightarrow> fs \<Rightarrow> (int \<times> fs) option" where
  "sys_mkdir_impl M path s =
     (case resolve_parent path 128 128 of None \<Rightarrow> Some (-1, s)
      | Some (dir, base) \<Rightarrow>
          if base = [] then Some (-1, s)
          else do { r \<leftarrow> parent_inode dir s;
            (case r of None \<Rightarrow> Some (-1, s)
             | Some (d, i, x) \<Rightarrow>
                 (case (if i_type x \<noteq> INODE_DIR then None else Option.bind (i_fops x) (m_mkdir M)) of
                    None \<Rightarrow> Some (-1, s) | Some op \<Rightarrow> op i base s)) })"

definition sys_creat_impl :: "methods \<Rightarrow> path_arg \<Rightarrow> fs \<Rightarrow> (int \<times> fs) option" where
  "sys_creat_impl M path s =
     (case split_parent (fetch_path path 128) 128 of None \<Rightarrow> Some (-1, s)
      | Some (dir, base) \<Rightarrow>
          if base = [] then Some (-1, s)
          else do { r \<leftarrow> parent_inode dir s;
            (case r of None \<Rightarrow> Some (-1, s)
             | Some (d, i, x) \<Rightarrow>
                 (case (if i_type x \<noteq> INODE_DIR then None else Option.bind (i_fops x) (m_creat M)) of
                    None \<Rightarrow> Some (-1, s) | Some op \<Rightarrow> op i base s)) })"

text \<open>\<open>sys_unlink_impl\<close> and \<open>sys_rmdir_impl\<close> differ in the method they call.\<close>

definition remove_name :: "(fops \<Rightarrow> dir_method option) \<Rightarrow> path_arg \<Rightarrow> fs \<Rightarrow> (int \<times> fs) option" where
  "remove_name sel path s =
     (case resolve_parent path 128 128 of None \<Rightarrow> Some (-1, s)
      | Some (dir, base) \<Rightarrow>
          if base = [] then Some (-1, s)
          else do { r \<leftarrow> parent_inode dir s;
            (case r of None \<Rightarrow> Some (-1, s)
             | Some (d, i, x) \<Rightarrow>
                 (case Option.bind (i_fops x) sel of
                    None \<Rightarrow> Some (-1, s)
                  | Some op \<Rightarrow>
                      do { (rc, s1) \<leftarrow> op i base s;
                           if rc = 0 then do { (_, s2) \<leftarrow> vfs_remove_child (Some d) base s1; Some (rc, s2) }
                           else Some (rc, s1) })) })"

definition sys_unlink_impl :: "methods \<Rightarrow> path_arg \<Rightarrow> fs \<Rightarrow> (int \<times> fs) option" where
  "sys_unlink_impl M = remove_name (m_unlink M)"

definition sys_rmdir_impl :: "methods \<Rightarrow> path_arg \<Rightarrow> fs \<Rightarrow> (int \<times> fs) option" where
  "sys_rmdir_impl M = remove_name (m_rmdir M)"

definition sys_close_impl :: "methods \<Rightarrow> nat ptr \<Rightarrow> int \<Rightarrow> fs \<Rightarrow> (int \<times> fs) option" where
  "sys_close_impl M me fd s =
     (case fd_get me fd s of None \<Rightarrow> Some (-1, s)
      | Some f \<Rightarrow> do { s1 \<leftarrow> file_put M (Some f) (fd_free me fd s); Some (0, s1) })"

definition sys_dup_impl :: "nat ptr \<Rightarrow> int \<Rightarrow> fs \<Rightarrow> int \<times> fs" where
  "sys_dup_impl me oldfd s =
     (case fd_get me oldfd s of None \<Rightarrow> (-1, s)
      | Some f \<Rightarrow> (case fd_alloc me f s of (newfd, s1) \<Rightarrow>
                     if newfd < 0 then (-1, s1) else (newfd, file_get (Some f) s1)))"

definition sys_dup2_impl :: "methods \<Rightarrow> nat ptr \<Rightarrow> int \<Rightarrow> int \<Rightarrow> fs \<Rightarrow> (int \<times> fs) option" where
  "sys_dup2_impl M me oldfd newfd s =
     (if newfd < 0 \<or> newfd \<ge> int KT_FD_MAX then Some (-1, s)
      else (case fd_get me oldfd s of None \<Rightarrow> Some (-1, s)
       | Some f \<Rightarrow>
           if oldfd = newfd then Some (newfd, s)
           else do { s1 \<leftarrow> (case fd_get me newfd s of None \<Rightarrow> Some s
                            | Some g \<Rightarrow> file_put M (Some g) (fd_free me newfd s));
                     (case me of None \<Rightarrow> Some (-1, s1)
                      | Some t \<Rightarrow> Some (newfd, file_get (Some f) (set_fd t (nat newfd) (Some f) s1))) }))"

text \<open>\<open>ubuf\<close> is the user buffer of a call from user mode.\<close>

definition sys_read_impl :: "methods \<Rightarrow> nat ptr \<Rightarrow> u64 option \<Rightarrow> int \<Rightarrow> u64 \<Rightarrow> fs \<Rightarrow> (int \<times> bytes \<times> fs) option" where
  "sys_read_impl M me ubuf fd len s =
     (if (case ubuf of None \<Rightarrow> False | Some a \<Rightarrow> \<not> user_ptr_ok a len) then Some (-1, [], s)
      else (case fd_get me fd s of None \<Rightarrow> Some (-1, [], s)
       | Some f \<Rightarrow> do { fl \<leftarrow> ofiles s f; fo \<leftarrow> f_ops fl;
           (case m_read M fo of None \<Rightarrow> Some (-1, [], s) | Some op \<Rightarrow> op f (unat len) s) }))"

definition sys_write_impl :: "methods \<Rightarrow> nat ptr \<Rightarrow> (u64 \<times> u64) option \<Rightarrow> int \<Rightarrow> bytes \<Rightarrow> fs \<Rightarrow> (int \<times> fs) option" where
  "sys_write_impl M me ubuf fd src s =
     (if (case ubuf of None \<Rightarrow> False | Some (a, len) \<Rightarrow> \<not> user_ptr_ok a len) then Some (-1, s)
      else (case fd_get me fd s of None \<Rightarrow> Some (-1, s)
       | Some f \<Rightarrow> do { fl \<leftarrow> ofiles s f; fo \<leftarrow> f_ops fl;
           (case m_write M fo of None \<Rightarrow> Some (-1, s) | Some op \<Rightarrow> op f src s) }))"

definition sys_seek_impl :: "methods \<Rightarrow> nat ptr \<Rightarrow> int \<Rightarrow> int \<Rightarrow> int \<Rightarrow> fs \<Rightarrow> (int \<times> fs) option" where
  "sys_seek_impl M me fd offset whence s =
     (case fd_get me fd s of None \<Rightarrow> Some (-1, s)
      | Some f \<Rightarrow> do { fl \<leftarrow> ofiles s f; fo \<leftarrow> f_ops fl;
           (case m_seek M fo of None \<Rightarrow> Some (-1, s) | Some op \<Rightarrow> op f offset whence s) })"

subsection \<open>Long listing\<close>

definition type_tag_short :: "inode_type \<Rightarrow> bytes" where
  "type_tag_short t = (case t of INODE_DIR \<Rightarrow> [100, 105, 114] | INODE_CHRDEV \<Rightarrow> [99, 104, 114]
     | INODE_REG \<Rightarrow> [114, 101, 103] | INODE_BLOCKDEV \<Rightarrow> [98, 108, 107])"

text \<open>The bytes written so far; \<open>append_str\<close> stops one short of \<open>cap\<close>.\<close>

definition append_str :: "bytes \<Rightarrow> nat \<Rightarrow> bytes \<Rightarrow> bytes" where
  "append_str out cap str = out @ take (cap - 1 - length out) str"

fun digits :: "nat \<Rightarrow> bytes" where
  "digits v = (if v = 0 then [] else digits (v div 10) @ [48 + of_nat (v mod 10)])"

declare digits.simps [simp del]

definition append_dec :: "bytes \<Rightarrow> nat \<Rightarrow> nat \<Rightarrow> nat \<Rightarrow> bytes" where
  "append_dec out cap v width =
     (let tmp = (if v = 0 then [48] else digits v)
      in append_str (append_str out cap (replicate (width - length tmp) 32)) cap tmp)"

definition list_row :: "methods \<Rightarrow> nat \<Rightarrow> dentry \<Rightarrow> bytes \<Rightarrow> fs \<Rightarrow> bytes option" where
  "list_row M cap e out s =
     do { ino \<leftarrow> (case d_inode e of None \<Rightarrow> Some None | Some i \<Rightarrow> map_option (\<lambda>x. Some (i, x)) (inodes s i));
          let o1 = append_str out cap (case ino of None \<Rightarrow> [63] | Some (i, x) \<Rightarrow> type_tag_short (i_type x)) @ [32];
          o2 \<leftarrow> (case ino of
                   Some (i, x) \<Rightarrow>
                     if i_type x = INODE_CHRDEV \<or> i_type x = INODE_BLOCKDEV
                     then Some (append_dec (append_dec o1 cap (unat (MAJOR (i_rdev x))) 4 @ [44]) cap (unat (MINOR (i_rdev x))) 3)
                     else (case Option.bind (i_fops x) (m_size M) of
                             None \<Rightarrow> Some (append_dec o1 cap 0 8)
                           | Some sz \<Rightarrow> map_option (\<lambda>v. append_dec o1 cap (nat v) 8) (sz i s))
                 | None \<Rightarrow> Some (append_dec o1 cap 0 8));
          Some (append_str (o2 @ [32]) cap (d_name e)) }"

partial_function (option) long_from :: "methods \<Rightarrow> nat \<Rightarrow> fs \<Rightarrow> nat ptr \<Rightarrow> bytes \<Rightarrow> bytes option" where
  [code]: "long_from M cap s p out =
     (case p of None \<Rightarrow> Some out
      | Some d \<Rightarrow> do { e \<leftarrow> dentries s d;
          o1 \<leftarrow> list_row M cap e out s;
          if length o1 + 1 \<ge> cap then Some o1 else long_from M cap s (d_sibling e) (o1 @ [10]) })"

definition vfs_listdir_long :: "methods \<Rightarrow> nat ptr \<Rightarrow> nat \<Rightarrow> fs \<Rightarrow> (int \<times> bytes) option" where
  "vfs_listdir_long M dir cap s =
     (case dir of None \<Rightarrow> Some (-1, [])
      | Some d \<Rightarrow> do { e \<leftarrow> dentries s d;
          (case d_inode e of None \<Rightarrow> Some (-1, [])
           | Some i \<Rightarrow> do { x \<leftarrow> inodes s i;
               if i_type x \<noteq> INODE_DIR then Some (-1, [])
               else map_option (\<lambda>out. (int (length out), out)) (long_from M cap s (d_child e) []) }) })"


subsection \<open>Reference-count invariant\<close>

text \<open>
  \<open>fd_bal s \<delta> ex\<close>: every descriptor names a live file, the count of a live file is the number of
  descriptors naming it (of all threads) plus \<open>\<delta>\<close>, and the inode of a live file is live with at
  least as many references as files naming it. \<open>\<delta>\<close> is zero between system calls; \<open>ex\<close> is a file
  that is being freed and may have no reference left.
\<close>

definition slots :: "fs \<Rightarrow> nat \<Rightarrow> (nat \<times> nat) set" where
  "slots s f = {p. fdts s (fst p) (snd p) = Some f}"

definition files_of :: "fs \<Rightarrow> nat \<Rightarrow> nat set" where
  "files_of s i = {f. Option.bind (ofiles s f) f_inode = Some i}"

definition fd_bal :: "fs \<Rightarrow> (nat \<Rightarrow> int) \<Rightarrow> nat option \<Rightarrow> bool" where
  "fd_bal s \<delta> ex \<longleftrightarrow> finite {p. fdts s (fst p) (snd p) \<noteq> None} \<and> (\<forall>t i. fdts s t i \<noteq> None \<longrightarrow> i < KT_FD_MAX)
     \<and> finite (dom (ofiles s)) \<and> (\<forall>n \<ge> next_obj s. ofiles s n = None)
     \<and> (\<forall>f fl. ofiles s f = Some fl \<longrightarrow> f_refs fl = int (card (slots s f)) + \<delta> f \<and> (ex = Some f \<or> 0 < f_refs fl))
     \<and> (\<forall>f. ofiles s f = None \<longrightarrow> slots s f = {} \<and> \<delta> f = 0)
     \<and> (\<forall>i. files_of s i \<noteq> {} \<longrightarrow> (\<exists>x. inodes s i = Some x \<and> int (card (files_of s i)) \<le> i_count x))
     \<and> (\<forall>i x. inodes s i = Some x \<longrightarrow> 0 \<le> i_count x)"

definition fd_inv :: "fs \<Rightarrow> bool" where
  "fd_inv s \<longleftrightarrow> fd_bal s (\<lambda>_. 0) None"

text \<open>What a driver's \<open>open\<close> and \<open>close\<close> leave alone.\<close>

definition quiet :: "fs \<Rightarrow> fs \<Rightarrow> bool" where
  "quiet s s' \<longleftrightarrow> fdts s' = fdts s \<and> inodes s' = inodes s \<and> next_obj s \<le> next_obj s'
     \<and> (\<forall>g. map_option (\<lambda>fl. (f_refs fl, f_inode fl)) (ofiles s' g) = map_option (\<lambda>fl. (f_refs fl, f_inode fl)) (ofiles s g))"

text \<open>The contract of the close methods that are not in these tables: on an open file they return, and leave the rest alone.\<close>

definition close_contract :: "methods \<Rightarrow> bool" where
  "close_contract ext \<longleftrightarrow> (\<forall>fo cl k s. m_close ext fo = Some cl \<longrightarrow> ofiles s k \<noteq> None \<longrightarrow> (\<exists>rc s'. cl k s = Some (rc, s') \<and> quiet s s'))"

text \<open>The descriptor operations a kernel performs, in any order and by any thread.\<close>

inductive fd_step :: "methods \<Rightarrow> fs \<Rightarrow> fs \<Rightarrow> bool" for M where
  open_step: "sys_open_impl M me cwd path flags s = Some (fd, s') \<Longrightarrow> fd_step M s s'"
| close_step: "sys_close_impl M me fd s = Some (rc, s') \<Longrightarrow> fd_step M s s'"
| dup_step: "sys_dup_impl me fd s = (rc, s') \<Longrightarrow> fd_step M s s'"
| dup2_step: "sys_dup2_impl M me fd fd2 s = Some (rc, s') \<Longrightarrow> fd_step M s s'"
| spawn_step: "(\<And>i. fdts s c i = None) \<Longrightarrow> c \<noteq> p \<Longrightarrow> fd_step M s (kthread_inherit_fds (Some c) (Some p) s)"
| exit_step: "vfs_drain_fds M (Some t) s = Some s' \<Longrightarrow> fd_step M s s'"

definition one_open :: fs where
  "one_open = sample_fs\<lparr>fdts := \<lambda>t i. if t = 0 \<and> i = 0 then Some 0 else None\<rparr>"

text \<open>A close of STREAMS files that forgets the private data of the file, and a descriptor of such a file, for examples.\<close>

definition sample_ext :: methods where
  "sample_ext = no_ext\<lparr>m_close := (\<lambda>fo. if fo = StreamFops
     then Some (\<lambda>k s. map_option (\<lambda>fl. (0, s\<lparr>ofiles := (ofiles s)(k \<mapsto> fl\<lparr>f_private := None\<rparr>)\<rparr>)) (ofiles s k)) else None)\<rparr>"

definition one_stream :: fs where
  "one_stream = one_open\<lparr>ofiles := (ofiles one_open)(0 := map_option (f_ops_update (\<lambda>_. Some StreamFops)) (ofiles one_open 0))\<rparr>"

section \<open>Lemmas\<close>

subsection \<open>Counting references\<close>

lemma set_fd_fields [simp]:
  "ofiles (set_fd t i v s) = ofiles s" "inodes (set_fd t i v s) = inodes s" "next_obj (set_fd t i v s) = next_obj s"
  "files_of (set_fd t i v s) = files_of s"
  "fdts (set_fd t i v s) = (fdts s)(t := (fdts s t)(i := v))"
  by (simp_all add: set_fd_def files_of_def fun_eq_iff)

lemma slots_set_fd:
  "slots (set_fd t i v s) f = (if v = Some f then insert (t, i) (slots s f) else slots s f - {(t, i)})"
  by (auto simp: slots_def split: if_splits)

lemma fd_balI:
  assumes "finite {p. fdts s (fst p) (snd p) \<noteq> None}" "\<And>t i. fdts s t i \<noteq> None \<Longrightarrow> i < KT_FD_MAX"
    "finite (dom (ofiles s))" "\<And>n. next_obj s \<le> n \<Longrightarrow> ofiles s n = None"
    "\<And>f fl. ofiles s f = Some fl \<Longrightarrow> f_refs fl = int (card (slots s f)) + \<delta> f"
    "\<And>f fl. ofiles s f = Some fl \<Longrightarrow> ex = Some f \<or> 0 < f_refs fl"
    "\<And>f. ofiles s f = None \<Longrightarrow> slots s f = {} \<and> \<delta> f = 0"
    "\<And>i. files_of s i \<noteq> {} \<Longrightarrow> \<exists>x. inodes s i = Some x \<and> int (card (files_of s i)) \<le> i_count x"
    "\<And>i x. inodes s i = Some x \<Longrightarrow> 0 \<le> i_count x"
  shows "fd_bal s \<delta> ex"
  using assms unfolding fd_bal_def by blast

lemma fd_balD:
  assumes "fd_bal s \<delta> ex"
  shows "finite {p. fdts s (fst p) (snd p) \<noteq> None}" "fdts s t i \<noteq> None \<Longrightarrow> i < KT_FD_MAX"
    "finite (dom (ofiles s))" "next_obj s \<le> n \<Longrightarrow> ofiles s n = None"
    "ofiles s f = Some fl \<Longrightarrow> f_refs fl = int (card (slots s f)) + \<delta> f"
    "ofiles s f = Some fl \<Longrightarrow> ex = Some f \<or> 0 < f_refs fl"
    "ofiles s f = None \<Longrightarrow> slots s f = {} \<and> \<delta> f = 0"
    "files_of s j \<noteq> {} \<Longrightarrow> \<exists>x. inodes s j = Some x \<and> int (card (files_of s j)) \<le> i_count x"
    "inodes s j = Some x \<Longrightarrow> 0 \<le> i_count x"
  using assms unfolding fd_bal_def by blast+

lemma finite_slots: "fd_bal s \<delta> ex \<Longrightarrow> finite (slots s f)"
  unfolding fd_bal_def slots_def by (elim conjE) (erule rev_finite_subset, auto)

lemma fd_bal_live:
  assumes "fd_bal s \<delta> ex" "fdts s t i = Some f"
  shows "\<exists>fl. ofiles s f = Some fl"
proof -
  have "(t, i) \<in> slots s f" using assms(2) by (simp add: slots_def)
  then show ?thesis using assms(1) unfolding fd_bal_def by (cases "ofiles s f") auto
qed

lemma fd_bal_fill:
  assumes b: "fd_bal s \<delta> ex" and e: "fdts s t i = None" "i < KT_FD_MAX" and l: "ofiles s f = Some fl"
  shows "fd_bal (set_fd t i (Some f) s) (\<delta>(f := \<delta> f - 1)) ex"
proof -
  have ni: "(t, i) \<notin> slots s g" for g using e(1) by (simp add: slots_def)
  have c: "card (slots (set_fd t i (Some f) s) g) = card (slots s g) + (if g = f then 1 else 0)" for g
    using ni [of g] finite_slots [OF b, of g] by (auto simp: slots_set_fd)
  have fin: "finite {p. fdts (set_fd t i (Some f) s) (fst p) (snd p) \<noteq> None}"
    by (rule finite_subset [of _ "insert (t, i) {p. fdts s (fst p) (snd p) \<noteq> None}"])
      (use b in \<open>auto simp: fd_bal_def split: if_splits\<close>)
  have emp: "slots (set_fd t i (Some f) s) g = {} \<and> (\<delta>(f := \<delta> f - 1)) g = 0" if "ofiles s g = None" for g
  proof -
    have "g \<noteq> f" using that l by auto
    then show ?thesis using b that by (auto simp: fd_bal_def slots_set_fd)
  qed
  show ?thesis
  proof (rule fd_balI)
    show "k < KT_FD_MAX" if "fdts (set_fd t i (Some f) s) u k \<noteq> None" for u k
      using that fd_balD(2) [OF b, of u k] e(2) by (auto split: if_splits)
    show "f_refs gl = int (card (slots (set_fd t i (Some f) s) g)) + (\<delta>(f := \<delta> f - 1)) g"
      if "ofiles (set_fd t i (Some f) s) g = Some gl" for g gl
      using fd_balD(5) [OF b, of g gl] that by (simp add: c)
  qed (use fd_balD [OF b] fin emp in \<open>simp_all del: fun_upd_apply\<close>)
qed

lemma fd_bal_clear:
  assumes b: "fd_bal s \<delta> ex" and e: "fdts s t i = Some f"
  shows "fd_bal (set_fd t i None s) (\<delta>(f := \<delta> f + 1)) ex"
proof -
  have ni: "(t, i) \<in> slots s g \<longleftrightarrow> g = f" for g using e by (auto simp: slots_def)
  obtain fl where l: "ofiles s f = Some fl" using fd_bal_live [OF b e] by blast
  have pos: "0 < card (slots s f)" using ni [of f] finite_slots [OF b, of f] by (auto simp: card_gt_0_iff)
  have c: "int (card (slots (set_fd t i None s) g)) = int (card (slots s g)) - (if g = f then 1 else 0)" for g
    using ni [of g] finite_slots [OF b, of g] pos by (auto simp: slots_set_fd)
  have fin: "finite {p. fdts (set_fd t i None s) (fst p) (snd p) \<noteq> None}"
    by (rule finite_subset [of _ "{p. fdts s (fst p) (snd p) \<noteq> None}"])
      (use b in \<open>auto simp: fd_bal_def split: if_splits\<close>)
  have emp: "slots (set_fd t i None s) g = {} \<and> (\<delta>(f := \<delta> f + 1)) g = 0" if "ofiles s g = None" for g
  proof -
    have "g \<noteq> f" using that l by auto
    then show ?thesis using b that by (auto simp: fd_bal_def slots_set_fd)
  qed
  show ?thesis
  proof (rule fd_balI)
    show "k < KT_FD_MAX" if "fdts (set_fd t i None s) u k \<noteq> None" for u k
      using that fd_balD(2) [OF b, of u k] by (auto split: if_splits)
    show "f_refs gl = int (card (slots (set_fd t i None s) g)) + (\<delta>(f := \<delta> f + 1)) g"
      if "ofiles (set_fd t i None s) g = Some gl" for g gl
      using fd_balD(5) [OF b, of g gl] that by (simp add: c)
  qed (use fd_balD [OF b] fin emp in \<open>simp_all del: fun_upd_apply\<close>)
qed

lemma fd_bal_get:
  assumes b: "fd_bal s \<delta> ex" and l: "ofiles s f = Some fl" and p: "0 \<le> f_refs fl"
  shows "fd_bal (file_get (Some f) s) (\<delta>(f := \<delta> f + 1)) ex"
proof -
  have sl: "slots (file_get (Some f) s) g = slots s g" "files_of (file_get (Some f) s) i = files_of s i" for g i
    using l by (auto simp: slots_def files_of_def file_get_def)
  have dm: "dom (ofiles (file_get (Some f) s)) = dom (ofiles s)" using l by (auto simp: file_get_def)
  have nx: "next_obj (file_get (Some f) s) = next_obj s" "fdts (file_get (Some f) s) = fdts s"
    "inodes (file_get (Some f) s) = inodes s" by (simp_all add: file_get_def)
  have emp: "(\<delta>(f := \<delta> f + 1)) g = 0 \<and> slots s g = {}" if "ofiles s g = None" for g
    using that l b by (cases "g = f") (auto simp: fd_bal_def)
  have og: "ofiles (file_get (Some f) s) g = (if g = f then Some (fl\<lparr>f_refs := f_refs fl + 1\<rparr>) else ofiles s g)" for g
    using l by (simp add: file_get_def)
  show ?thesis
  proof (rule fd_balI)
    show "finite (dom (ofiles (file_get (Some f) s)))" using fd_balD(3) [OF b] dm by simp
    show "f_refs gl = int (card (slots (file_get (Some f) s) g)) + (\<delta>(f := \<delta> f + 1)) g"
      if "ofiles (file_get (Some f) s) g = Some gl" for g gl
      using that fd_balD(5) [OF b, of g] l by (auto simp: og sl split: if_splits)
    show "ex = Some g \<or> 0 < f_refs gl" if "ofiles (file_get (Some f) s) g = Some gl" for g gl
      using that fd_balD(6) [OF b, of g] p by (auto simp: og split: if_splits)
    show "ofiles (file_get (Some f) s) n = None" if "next_obj (file_get (Some f) s) \<le> n" for n
      using that fd_balD(4) [OF b, of n] l by (auto simp: og nx)
    show "slots (file_get (Some f) s) g = {} \<and> (\<delta>(f := \<delta> f + 1)) g = 0" if "ofiles (file_get (Some f) s) g = None" for g
      using that emp [of g] by (auto simp: og sl split: if_splits)
  qed (use fd_balD(1,2,8,9) [OF b] in \<open>simp_all add: nx sl\<close>)
qed

lemma quiet_bal:
  assumes "quiet s s'" "fd_bal s \<delta> ex"
  shows "fd_bal s' \<delta> ex"
proof -
  have q: "fdts s' = fdts s" "inodes s' = inodes s" "next_obj s \<le> next_obj s'"
    "map_option (\<lambda>fl. (f_refs fl, f_inode fl)) (ofiles s' g) = map_option (\<lambda>fl. (f_refs fl, f_inode fl)) (ofiles s g)" for g
    using assms(1) by (simp_all add: quiet_def)
  have nn: "ofiles s' g = None \<longleftrightarrow> ofiles s g = None" for g using q(4) [of g]
    by (cases "ofiles s g"; cases "ofiles s' g") simp_all
  have some: "\<exists>fl. ofiles s g = Some fl \<and> f_refs fl = f_refs fl'" if "ofiles s' g = Some fl'" for g fl'
    using q(4) [of g] that by (cases "ofiles s g") auto
  have fo: "files_of s' = files_of s"
  proof -
    have "Option.bind (ofiles s' g) f_inode = Option.bind (ofiles s g) f_inode" for g
      using q(4) [of g] by (cases "ofiles s g"; cases "ofiles s' g") auto
    then show ?thesis by (simp add: files_of_def fun_eq_iff)
  qed
  have dm: "dom (ofiles s') = dom (ofiles s)" using nn by (auto simp: dom_def)
  have sl: "slots s' = slots s" using q(1) by (simp add: slots_def fun_eq_iff)
  note b = fd_balD [OF assms(2)]
  show ?thesis
  proof (rule fd_balI)
    show "ofiles s' n = None" if "next_obj s' \<le> n" for n using b(4) [of n] q(3) that by (simp add: nn)
    show "f_refs fl = int (card (slots s' f)) + \<delta> f" "ex = Some f \<or> 0 < f_refs fl" if "ofiles s' f = Some fl" for f fl
      using some [OF that] b(5,6) [of f] by (auto simp: sl)
  qed (use b(1,2,3,7,8,9) in \<open>simp_all add: q(1,2) nn fo dm sl\<close>)
qed

lemma quiet_refl [simp]: "quiet s s"
  by (simp add: quiet_def)

lemma vfs_iput_live:
  assumes "inodes s i = Some x"
  shows "\<exists>s'. vfs_iput (Some i) s = Some s' \<and> ofiles s' = ofiles s \<and> fdts s' = fdts s \<and> next_obj s' = next_obj s
    \<and> inodes s' = (inodes s)(i := (if i_count x = 1 then None else Some (x\<lparr>i_count := i_count x - 1\<rparr>)))"
  using assms by (auto simp: vfs_iput_def Let_def inactive_def split: priv.splits)

text \<open>The last reference is gone: dropping the inode reference and the file.\<close>

lemma drop_file:
  assumes b: "fd_bal s \<delta> (Some f)" and e: "slots s f = {}" and l: "ofiles s f = Some fl"
  obtains s' where "vfs_iput (f_inode fl) s = Some s'" "fdts s' = fdts s" "ofiles s' = ofiles s"
    "fd_bal (s'\<lparr>ofiles := (ofiles s')(f := None)\<rparr>) (\<delta>(f := 0)) None"
proof -
  note B = fd_balD [OF b]
  obtain s' where s': "vfs_iput (f_inode fl) s = Some s'" "ofiles s' = ofiles s" "fdts s' = fdts s" "next_obj s' = next_obj s"
    "\<And>j. files_of s j - {f} \<noteq> {} \<Longrightarrow> \<exists>x. inodes s' j = Some x \<and> int (card (files_of s j - {f})) \<le> i_count x"
    "\<And>j x. inodes s' j = Some x \<Longrightarrow> 0 \<le> i_count x"
  proof (cases "f_inode fl")
    case None
    have "\<exists>x. inodes s j = Some x \<and> int (card (files_of s j - {f})) \<le> i_count x" if "files_of s j - {f} \<noteq> {}" for j
    proof -
      have "f \<notin> files_of s j" using l None by (simp add: files_of_def)
      then show ?thesis using B(8) [of j] that by auto
    qed
    with None that [of s] B(9) show thesis by (simp add: vfs_iput_def)
  next
    case (Some i)
    have fi: "f \<in> files_of s j \<longleftrightarrow> j = i" for j using l Some by (auto simp: files_of_def)
    then obtain x where x: "inodes s i = Some x" "int (card (files_of s i)) \<le> i_count x" using B(8) [of i] by blast
    obtain s' where v: "vfs_iput (Some i) s = Some s'" "ofiles s' = ofiles s" "fdts s' = fdts s" "next_obj s' = next_obj s"
      "inodes s' = (inodes s)(i := (if i_count x = 1 then None else Some (x\<lparr>i_count := i_count x - 1\<rparr>)))"
      using vfs_iput_live [OF x(1)] by blast
    have fin: "finite (files_of s i)"
      by (rule finite_subset [OF _ B(3)]) (auto simp: files_of_def dom_def bind_eq_Some_conv)
    have "\<exists>x. inodes s' j = Some x \<and> int (card (files_of s j - {f})) \<le> i_count x" if ne: "files_of s j - {f} \<noteq> {}" for j
    proof (cases "j = i")
      case True
      have "card (files_of s i) = Suc (card (files_of s i - {f}))"
        by (rule card.remove [OF fin]) (simp add: fi)
      moreover have "0 < card (files_of s i - {f})" using ne True fin by (simp add: card_gt_0_iff)
      ultimately show ?thesis using x v(5) True by simp
    next
      case False
      then show ?thesis using B(8) [of j] ne fi [of j] v(5) by auto
    qed
    moreover have "0 \<le> i_count y" if "inodes s' j = Some y" for j y
    proof -
      have "0 < card (files_of s i)" using fi [of i] fin by (auto simp: card_gt_0_iff)
      then show ?thesis using that v(5) x(2) B(9) [of j y] by (auto split: if_splits)
    qed
    ultimately show thesis using v Some that [of s'] by simp
  qed
  let ?s = "s'\<lparr>ofiles := (ofiles s')(f := None)\<rparr>"
  have fo: "files_of ?s j = files_of s j - {f}" for j using s'(2) by (auto simp: files_of_def)
  have sl: "slots ?s g = slots s g" for g using s'(3) by (simp add: slots_def)
  have "fd_bal ?s (\<delta>(f := 0)) None"
  proof (rule fd_balI)
    show "finite (dom (ofiles ?s))" using B(3) s'(2) by simp
    show "f_refs gl = int (card (slots ?s g)) + (\<delta>(f := 0)) g" "None = Some g \<or> 0 < f_refs gl" if "ofiles ?s g = Some gl" for g gl
      using that B(5,6) [of g gl] s'(2) sl by (auto split: if_splits)
    show "slots ?s g = {} \<and> (\<delta>(f := 0)) g = 0" if "ofiles ?s g = None" for g
      using that B(7) [of g] e s'(2) sl by (auto split: if_splits)
    show "\<exists>x. inodes ?s j = Some x \<and> int (card (files_of ?s j)) \<le> i_count x" if "files_of ?s j \<noteq> {}" for j
      using s'(5) [of j] that by (simp add: fo)
  qed (use B(1,2,4) s'(2-4,6) in auto)
  with s'(1-3) show thesis using that by blast
qed

text \<open>The contract of a driver's \<open>close\<close>, and what the file layer guarantees over it.\<close>

locale file_closer =
  fixes M :: methods
  assumes close_quiet: "m_close M fo = Some cl \<Longrightarrow> ofiles s k \<noteq> None \<Longrightarrow> \<exists>rc s'. cl k s = Some (rc, s') \<and> quiet s s'"
begin

lemma close_call:
  assumes "ofiles s k \<noteq> None"
  obtains s' where "(case Option.bind fo (m_close M) of None \<Rightarrow> Some s | Some cl \<Rightarrow> map_option snd (cl k s)) = Some s'" "quiet s s'"
proof (cases "Option.bind fo (m_close M)")
  case None
  then show thesis using that [of s] by simp
next
  case (Some cl)
  then obtain fo' where "m_close M fo' = Some cl" by (auto simp: bind_eq_Some_conv)
  from close_quiet [OF this assms] obtain rc s' where "cl k s = Some (rc, s')" "quiet s s'" by blast
  then show thesis using that [of s'] Some by simp
qed

lemma file_put_bal:
  assumes b: "fd_bal s \<delta> None" and d: "\<delta> f = 1" and l: "ofiles s f = Some fl"
  obtains s' where "file_put M (Some f) s = Some s'" "fd_bal s' (\<delta>(f := 0)) None" "fdts s' = fdts s"
proof -
  note B = fd_balD [OF b]
  let ?s1 = "s\<lparr>ofiles := (ofiles s)(f \<mapsto> fl\<lparr>f_refs := f_refs fl - 1\<rparr>)\<rparr>"
  have sl: "slots ?s1 = slots s" "files_of ?s1 = files_of s" using l by (auto simp: slots_def files_of_def fun_eq_iff)
  have bal: "fd_bal ?s1 (\<delta>(f := 0)) (if f_refs fl = 1 then Some f else None)"
  proof (rule fd_balI)
    show "f_refs gl = int (card (slots ?s1 g)) + (\<delta>(f := 0)) g" if "ofiles ?s1 g = Some gl" for g gl
      using that B(5) [of g] d l by (auto simp: sl split: if_splits)
    show "(if f_refs fl = 1 then Some f else None) = Some g \<or> 0 < f_refs gl" if "ofiles ?s1 g = Some gl" for g gl
      using that B(6) [of g] l by (auto split: if_splits)
    show "slots ?s1 g = {} \<and> (\<delta>(f := 0)) g = 0" if "ofiles ?s1 g = None" for g
      using that B(7) [of g] l by (auto simp: sl split: if_splits)
    show "ofiles ?s1 n = None" if "next_obj ?s1 \<le> n" for n using that B(4) [of n] l by auto
  qed (use B(1,2,3,8,9) in \<open>simp_all add: sl\<close>)
  show thesis
  proof (cases "f_refs fl = 1")
    case False
    then show thesis using that [of ?s1] bal l by (simp add: file_put_def)
  next
    case True
    have "card (slots s f) = 0" using B(5) [OF l] d True by simp
    then have emp: "slots s f = {}" using finite_slots [OF b] by simp
    obtain s2 where c: "(case Option.bind (f_ops fl) (m_close M) of None \<Rightarrow> Some ?s1 | Some cl \<Rightarrow> map_option snd (cl f ?s1)) = Some s2"
      "quiet ?s1 s2" by (rule close_call [of ?s1 f]) simp
    have b2: "fd_bal s2 (\<delta>(f := 0)) (Some f)" using quiet_bal [OF c(2) bal] True by simp
    have q: "fdts s2 = fdts s" "map_option (\<lambda>fl. (f_refs fl, f_inode fl)) (ofiles s2 f) = Some (f_refs fl - 1, f_inode fl)"
      using c(2) by (simp_all add: quiet_def)
    then obtain fl2 where l2: "ofiles s2 f = Some fl2" "f_inode fl2 = f_inode fl" by auto
    have e2: "slots s2 f = {}" using emp q(1) by (simp add: slots_def)
    obtain s3 where d3: "vfs_iput (f_inode fl2) s2 = Some s3" "fdts s3 = fdts s2" "ofiles s3 = ofiles s2"
      "fd_bal (s3\<lparr>ofiles := (ofiles s3)(f := None)\<rparr>) ((\<delta>(f := 0))(f := 0)) None"
      by (rule drop_file [OF b2 e2 l2(1)])
    have "file_put M (Some f) s = Some (s3\<lparr>ofiles := (ofiles s3)(f := None)\<rparr>)"
      using l True c(1) l2(1) d3(1) by (simp add: file_put_def Let_def)
    then show thesis using that d3(2,4) q(1) by simp
  qed
qed

lemma fd_get_Some: "fd_get me fd s = Some f \<Longrightarrow> \<exists>t. me = Some t \<and> 0 \<le> fd \<and> nat fd < KT_FD_MAX \<and> fdts s t (nat fd) = Some f"
  by (auto simp: fd_get_def split: option.splits if_splits)

lemma fd_alloc_cases:
  assumes "fd_alloc me f s = (fd, s')"
  obtains "fd = -1" "s' = s"
  | t i where "me = Some t" "i < KT_FD_MAX" "fdts s t i = None" "fd = int i" "s' = set_fd t i (Some f) s"
proof (cases "me = None \<or> find (\<lambda>i. fdts s (the me) i = None) [0..<KT_FD_MAX] = None")
  case True
  then show thesis using that(1) assms by (cases me) (simp_all add: fd_alloc_def)
next
  case False
  then obtain t i where t: "me = Some t" "find (\<lambda>i. fdts s t i = None) [0..<KT_FD_MAX] = Some i" by auto
  then have "i < KT_FD_MAX" "fdts s t i = None" by (auto simp: find_Some_iff)
  then show thesis using that(2) [of t i] t assms by (simp add: fd_alloc_def)
qed

lemma delta_zero [simp]: "((\<lambda>_. 0)(f := 0)) = (\<lambda>_. (0 :: int))"
  by (simp add: fun_eq_iff)

text \<open>A further descriptor for a file that is already named.\<close>

lemma share_inv:
  assumes "fd_inv s" "fdts s u j = Some f" "fdts s t i = None" "i < KT_FD_MAX"
  shows "fd_inv (file_get (Some f) (set_fd t i (Some f) s))"
proof -
  have b: "fd_bal s (\<lambda>_. 0) None" using assms(1) by (simp add: fd_inv_def)
  obtain fl where l: "ofiles s f = Some fl" using fd_bal_live [OF b assms(2)] by blast
  have b1: "fd_bal (set_fd t i (Some f) s) ((\<lambda>_. 0)(f := 0 - 1)) None"
    using fd_bal_fill [OF b assms(3,4) l] by simp
  have "ofiles (set_fd t i (Some f) s) f = Some fl" "0 \<le> f_refs fl" using l fd_balD(6) [OF b l] by simp_all
  from fd_bal_get [OF b1 this] show ?thesis by (simp add: fd_inv_def)
qed

lemma dup_inv:
  assumes "fd_inv s" "sys_dup_impl me fd s = (rc, s')"
  shows "fd_inv s'"
proof (cases "fd_get me fd s")
  case None
  then show ?thesis using assms by (simp add: sys_dup_impl_def)
next
  case (Some f)
  then obtain t where t: "me = Some t" "fdts s t (nat fd) = Some f" using fd_get_Some by blast
  obtain nfd s1 where al: "fd_alloc me f s = (nfd, s1)" by (cases "fd_alloc me f s")
  then show ?thesis
  proof (cases rule: fd_alloc_cases)
    case 1
    then show ?thesis using assms Some al by (simp add: sys_dup_impl_def)
  next
    case (2 u i)
    then have "s' = file_get (Some f) (set_fd u i (Some f) s)" using assms(2) Some al by (simp add: sys_dup_impl_def)
    then show ?thesis using share_inv [OF assms(1) t(2) 2(3,2)] by simp
  qed
qed

lemma close_slot:
  assumes "fd_inv s" "fdts s t i = Some f"
  obtains s' where "file_put M (Some f) (set_fd t i None s) = Some s'" "fd_inv s'" "fdts s' = fdts (set_fd t i None s)"
proof -
  have b: "fd_bal s (\<lambda>_. 0) None" using assms(1) by (simp add: fd_inv_def)
  obtain fl where l: "ofiles s f = Some fl" using fd_bal_live [OF b assms(2)] by blast
  have b1: "fd_bal (set_fd t i None s) ((\<lambda>_. 0)(f := 0 + 1)) None" using fd_bal_clear [OF b assms(2)] by simp
  have l1: "((\<lambda>_. 0)(f := 0 + 1)) f = (1 :: int)" "ofiles (set_fd t i None s) f = Some fl" using l by simp_all
  obtain s' where s': "file_put M (Some f) (set_fd t i None s) = Some s'" "fd_bal s' (((\<lambda>_. 0)(f := 0 + 1))(f := 0)) None"
    "fdts s' = fdts (set_fd t i None s)" by (rule file_put_bal [OF b1 l1])
  have "((\<lambda>_. 0)(f := 0 + 1))(f := 0) = (\<lambda>_. (0 :: int))" by (simp add: fun_eq_iff)
  then have "fd_inv s'" using s'(2) by (simp only: fd_inv_def)
  then show thesis using that s'(1,3) by blast
qed

lemma close_inv:
  assumes "fd_inv s"
  shows "\<exists>s'. sys_close_impl M me fd s = Some (if fd_get me fd s = None then -1 else 0, s') \<and> fd_inv s'
    \<and> (\<forall>t. me = Some t \<longrightarrow> 0 \<le> fd \<longrightarrow> fdts s' t (nat fd) = None \<or> nat fd \<ge> KT_FD_MAX)"
proof (cases "fd_get me fd s")
  case None
  then show ?thesis using assms by (intro exI [of _ s]) (auto simp: sys_close_impl_def fd_get_def split: if_splits)
next
  case (Some f)
  then obtain t where t: "me = Some t" "0 \<le> fd" "nat fd < KT_FD_MAX" "fdts s t (nat fd) = Some f" using fd_get_Some by blast
  have fr: "fd_free me fd s = set_fd t (nat fd) None s" using t by (simp add: fd_free_def)
  obtain s' where "file_put M (Some f) (set_fd t (nat fd) None s) = Some s'" "fd_inv s'" "fdts s' = fdts (set_fd t (nat fd) None s)"
    by (rule close_slot [OF assms t(4)])
  then show ?thesis using Some fr t(1) by (intro exI [of _ s']) (simp add: sys_close_impl_def)
qed

lemma dup2_inv:
  assumes "fd_inv s"
  shows "\<exists>rc s'. sys_dup2_impl M me fd fd2 s = Some (rc, s') \<and> fd_inv s'"
proof (cases "fd2 < 0 \<or> fd2 \<ge> int KT_FD_MAX \<or> fd_get me fd s = None \<or> fd = fd2")
  case True
  then show ?thesis using assms by (auto simp: sys_dup2_impl_def split: option.splits)
next
  case False
  then obtain f where f: "fd_get me fd s = Some f" by auto
  then obtain t where t: "me = Some t" "0 \<le> fd" "fdts s t (nat fd) = Some f" using fd_get_Some by blast
  have r: "0 \<le> fd2" "nat fd2 < KT_FD_MAX" "nat fd \<noteq> nat fd2" "fd2 < int KT_FD_MAX" using False t(2) by auto
  obtain s1 where s1: "(case fd_get me fd2 s of None \<Rightarrow> Some s | Some g \<Rightarrow> file_put M (Some g) (fd_free me fd2 s)) = Some s1"
    "fd_inv s1" "fdts s1 t (nat fd2) = None" "fdts s1 t (nat fd) = Some f"
  proof (cases "fd_get me fd2 s")
    case None
    then show thesis using None that [of s] assms t r by (simp add: fd_get_def)
  next
    case (Some g)
    then have g: "fdts s t (nat fd2) = Some g" using t(1) r by (auto simp: fd_get_def split: if_splits)
    have fr: "fd_free me fd2 s = set_fd t (nat fd2) None s" using t(1) r by (simp add: fd_free_def)
    obtain s' where "file_put M (Some g) (set_fd t (nat fd2) None s) = Some s'" "fd_inv s'" "fdts s' = fdts (set_fd t (nat fd2) None s)"
      by (rule close_slot [OF assms g])
    then show thesis using that [of s'] Some fr t(3) r(3) by simp
  qed
  have "sys_dup2_impl M me fd fd2 s = Some (fd2, file_get (Some f) (set_fd t (nat fd2) (Some f) s1))"
    using False f [unfolded t(1)] s1(1) [unfolded t(1)] by (simp add: sys_dup2_impl_def t(1))
  moreover have "fd_inv (file_get (Some f) (set_fd t (nat fd2) (Some f) s1))"
    by (rule share_inv [OF s1(2,4,3) r(2)])
  ultimately show ?thesis by blast
qed

lemma inherit_inv:
  assumes "fd_inv s" "c \<noteq> p" "\<forall>i \<in> set is. fdts s c i = None" "distinct is"
  shows "fd_inv (foldl (inherit_one c p) s is)"
  using assms
proof (induction "is" arbitrary: s)
  case (Cons i js)
  have same: "fdts (inherit_one c p s i) c k = fdts s c k" if "k \<noteq> i" for k
    using that by (simp add: inherit_one_def file_get_def split: option.splits)
  have "fd_inv (inherit_one c p s i)"
  proof (cases "fdts s p i")
    case None
    have "(fdts s)(c := (fdts s c)(i := None)) = fdts s" using Cons.prems(3) by (simp add: fun_eq_iff)
    then have "inherit_one c p s i = s" using None by (simp add: inherit_one_def file_get_def set_fd_def)
    then show ?thesis using Cons.prems(1) by simp
  next
    case (Some f)
    have "i < KT_FD_MAX" using Cons.prems(1) fd_balD(2) [of s "\<lambda>_. 0" None p i] Some by (simp add: fd_inv_def)
    then show ?thesis using share_inv [OF Cons.prems(1) Some, of c i] Cons.prems(3) Some by (simp add: inherit_one_def)
  qed
  moreover have "\<forall>k \<in> set js. fdts (inherit_one c p s i) c k = None"
  proof
    fix k assume "k \<in> set js"
    with Cons.prems(3,4) same [of k] show "fdts (inherit_one c p s i) c k = None" by auto
  qed
  ultimately show ?case using Cons.IH [of "inherit_one c p s i"] Cons.prems(2,4) by simp
qed simp

lemma drain_inv:
  assumes "fd_inv s"
  shows "\<exists>s'. drain_from M t is s = Some s' \<and> fd_inv s' \<and> (\<forall>i. fdts s' t i = (if i \<in> set is then None else fdts s t i))"
  using assms
proof (induction "is" arbitrary: s)
  case (Cons i js)
  show ?case
  proof (cases "fdts s t i")
    case None
    then show ?thesis using Cons.IH [OF Cons.prems] by fastforce
  next
    case (Some f)
    obtain s1 where s1: "file_put M (Some f) (set_fd t i None s) = Some s1" "fd_inv s1" "fdts s1 = fdts (set_fd t i None s)"
      by (rule close_slot [OF Cons.prems Some])
    from Cons.IH [OF s1(2)] obtain s' where "drain_from M t js s1 = Some s'" "fd_inv s'"
      "\<forall>i. fdts s' t i = (if i \<in> set js then None else fdts s1 t i)" by blast
    then show ?thesis using Some s1 by (intro exI [of _ s']) auto
  qed
qed simp

end

text \<open>The contract of a driver's \<open>open\<close>: what opening a file adds.\<close>

locale file_driver = file_closer +
  assumes open_quiet: "m_open M fo = Some op \<Longrightarrow> op k s = Some (rc, s') \<Longrightarrow> quiet s s'"
begin

text \<open>Creating the file object of an open.\<close>

lemma new_file_bal:
  assumes i: "fd_inv s" and x: "inodes s j = Some x" and f: "f = next_obj s"
    and s3: "s3 = (vfs_iget (Some j) (s\<lparr>next_obj := f + 1\<rparr>))\<lparr>ofiles := (ofiles s)(f \<mapsto>
      \<lparr>f_ops = fo, f_inode = Some j, f_private = None, f_refs = 1, f_flags = flags\<rparr>)\<rparr>"
  shows "fd_bal s3 ((\<lambda>_. 0)(f := 1)) None" "slots s3 f = {}" "fdts s3 = fdts s"
proof -
  note B = fd_balD [OF i [unfolded fd_inv_def]]
  have fr: "ofiles s f = None" using B(4) [of f] f by simp
  have fs: "fdts s3 = fdts s" "next_obj s3 = f + 1" "inodes s3 = (inodes s)(j \<mapsto> x\<lparr>i_count := i_count x + 1\<rparr>)"
    "ofiles s3 = (ofiles s)(f \<mapsto> \<lparr>f_ops = fo, f_inode = Some j, f_private = None, f_refs = 1, f_flags = flags\<rparr>)"
    using x by (cases x; simp add: s3 vfs_iget_def)+
  have sl: "slots s3 = slots s" using fs(1) by (simp add: slots_def fun_eq_iff)
  have fo: "files_of s3 k = (if k = j then insert f (files_of s k) else files_of s k)" "f \<notin> files_of s k" for k
    using fr by (auto simp: files_of_def fs(4))
  have fin: "finite (files_of s k)" for k
    by (rule finite_subset [OF _ B(3)]) (auto simp: files_of_def dom_def bind_eq_Some_conv)
  show "slots s3 f = {}" "fdts s3 = fdts s" using B(7) [OF fr] sl fs(1) by simp_all
  show "fd_bal s3 ((\<lambda>_. 0)(f := 1)) None"
  proof (rule fd_balI)
    show "f_refs gl = int (card (slots s3 g)) + ((\<lambda>_. 0)(f := 1)) g" "None = Some g \<or> 0 < f_refs gl"
      if "ofiles s3 g = Some gl" for g gl
      using that B(5,6) [of g gl] B(7) [OF fr] by (auto simp: fs(4) sl split: if_splits)
    show "slots s3 g = {} \<and> ((\<lambda>_. 0)(f := 1)) g = 0" if "ofiles s3 g = None" for g
      using that B(7) [of g] by (auto simp: fs(4) sl split: if_splits)
    show "\<exists>y. inodes s3 k = Some y \<and> int (card (files_of s3 k)) \<le> i_count y" if ne: "files_of s3 k \<noteq> {}" for k
    proof (cases "k = j")
      case True
      have "int (card (files_of s j)) \<le> i_count x"
        using B(8) [of j] B(9) [OF x] x by (cases "files_of s j = {}") auto
      then show ?thesis using True fin fo by (simp add: fs(3))
    next
      case False
      then show ?thesis using B(8) [of k] ne fo by (simp add: fs(3))
    qed
    show "0 \<le> i_count y" if "inodes s3 k = Some y" for k y
      using that B(9) [of k y] B(9) [OF x] by (auto simp: fs(3) split: if_splits)
    show "ofiles s3 n = None" if "next_obj s3 \<le> n" for n using that B(4) [of n] f by (simp add: fs(2,4))
  qed (use B(1,2,3) in \<open>simp_all add: fs(1,4)\<close>)
qed

lemma abandon_file:
  assumes b: "fd_bal s ((\<lambda>_. 0)(f := 1)) None" "slots s f = {}" and l: "ofiles s f = Some fl" "f_inode fl = Some j"
  obtains s' where "vfs_iput (Some j) s = Some s'" "fd_inv (s'\<lparr>ofiles := (ofiles s')(f := None)\<rparr>)"
proof -
  have b1: "fd_bal s ((\<lambda>_. 0)(f := 1)) (Some f)" using b(1) unfolding fd_bal_def by blast
  obtain s' where d: "vfs_iput (f_inode fl) s = Some s'" "fdts s' = fdts s" "ofiles s' = ofiles s"
    "fd_bal (s'\<lparr>ofiles := (ofiles s')(f := None)\<rparr>) (((\<lambda>_. 0)(f := 1))(f := 0)) None"
    by (rule drop_file [OF b1 b(2) l(1)])
  have "((\<lambda>_. 0)(f := 1))(f := 0) = (\<lambda>_. (0 :: int))" by (simp add: fun_eq_iff)
  then have "fd_inv (s'\<lparr>ofiles := (ofiles s')(f := None)\<rparr>)" using d(4) by (simp only: fd_inv_def)
  then show thesis using that d(1) l(2) by simp
qed

lemma quiet_file:
  assumes "quiet s s'" "ofiles s f = Some fl" "f_inode fl = Some j"
  obtains fl' where "ofiles s' f = Some fl'" "f_inode fl' = Some j"
proof -
  have "map_option (\<lambda>fl. (f_refs fl, f_inode fl)) (ofiles s' f) = map_option (\<lambda>fl. (f_refs fl, f_inode fl)) (ofiles s f)"
    using assms(1) by (simp add: quiet_def)
  then show thesis using assms(2,3) that by (cases "ofiles s' f") auto
qed

text \<open>The open call after the lookup: \<open>x\<close> is the inode at \<open>j\<close>, \<open>op\<close> its open method.\<close>

lemma open_inv:
  assumes i: "fd_inv s" and run: "sys_open_impl M me cwd path flags s = Some (fd, s')"
  shows "fd_inv s'"
proof -
  obtain p where p: "Option.bind (fetch_path path 128) (\<lambda>p. resolve_path_kva cwd (Some p) 128) = Some p \<or> s' = s"
    using run by (cases "Option.bind (fetch_path path 128) (\<lambda>p. resolve_path_kva cwd (Some p) 128)") (auto simp: sys_open_impl_def)
  show ?thesis
  proof (cases "s' = s")
    case False
    with p run obtain d e j x where d: "dentries s d = Some e" "d_inode e = Some j" "inodes s j = Some x"
      and r: "(case Option.bind (i_fops x) (m_open M) of
             None \<Rightarrow> Some (-1, s)
           | Some op \<Rightarrow>
     (case kmalloc s of
        (None, s1) \<Rightarrow> Some (-1, s1)
      | (Some f, s1) \<Rightarrow>
          let s2 = vfs_iget (Some j) s1;
              s3 = s2\<lparr>ofiles := (ofiles s2)(f \<mapsto> \<lparr>f_ops = i_fops x, f_inode = Some j, f_private = None,
                                               f_refs = 1, f_flags = flags\<rparr>)\<rparr> in
          do { (rc, s4) \<leftarrow> op f s3;
               if rc < 0
               then do { s5 \<leftarrow> vfs_iput (Some j) s4; Some (-1, s5\<lparr>ofiles := (ofiles s5)(f := None)\<rparr>) }
               else (case fd_alloc me f s4 of (fd, s5) \<Rightarrow>
                 if fd < 0
                 then do { s6 \<leftarrow> (case Option.bind (i_fops x) (m_close M) of
                                    None \<Rightarrow> Some s5 | Some cl \<Rightarrow> map_option snd (cl f s5));
                           s7 \<leftarrow> vfs_iput (Some j) s6;
                           Some (-1, s7\<lparr>ofiles := (ofiles s7)(f := None)\<rparr>) }
                 else Some (fd, s5)) })) = Some (fd, s')"
      by (auto simp: sys_open_impl_def bind_eq_Some_conv split: option.splits)
    obtain op where op: "Option.bind (i_fops x) (m_open M) = Some op" using r False by (auto split: option.splits)
    then obtain fo where fo: "m_open M fo = Some op" by (auto simp: bind_eq_Some_conv)
    let ?f = "next_obj s"
    show ?thesis
    proof (cases "kmalloc_ok s ?f")
      case no: False
      then have "s' = s\<lparr>next_obj := ?f + 1\<rparr>" using r op by (simp add: kmalloc_def)
      then have "quiet s s'" by (simp add: quiet_def)
      then show ?thesis using i unfolding fd_inv_def by (rule quiet_bal)
    next
      case True
      define s3 where "s3 = (vfs_iget (Some j) (s\<lparr>next_obj := ?f + 1\<rparr>))\<lparr>ofiles := (ofiles s)(?f \<mapsto>
        \<lparr>f_ops = i_fops x, f_inode = Some j, f_private = None, f_refs = 1, f_flags = flags\<rparr>)\<rparr>"
      note nf = new_file_bal [OF i d(3) refl s3_def]
      have o3: "ofiles s3 ?f = Some \<lparr>f_ops = i_fops x, f_inode = Some j, f_private = None, f_refs = 1, f_flags = flags\<rparr>"
        by (simp add: s3_def)
      obtain rc s4 where o4: "op ?f s3 = Some (rc, s4)"
        and r4: "(if rc < 0
               then do { s5 \<leftarrow> vfs_iput (Some j) s4; Some (-1, s5\<lparr>ofiles := (ofiles s5)(?f := None)\<rparr>) }
               else (case fd_alloc me ?f s4 of (fd, s5) \<Rightarrow>
                 if fd < 0
                 then do { s6 \<leftarrow> (case Option.bind (i_fops x) (m_close M) of
                                    None \<Rightarrow> Some s5 | Some cl \<Rightarrow> map_option snd (cl ?f s5));
                           s7 \<leftarrow> vfs_iput (Some j) s6;
                           Some (-1, s7\<lparr>ofiles := (ofiles s7)(?f := None)\<rparr>) }
                 else Some (fd, s5))) = Some (fd, s')"
      proof -
        have "ofiles (vfs_iget (Some j) (s\<lparr>next_obj := ?f + 1\<rparr>)) = ofiles s" by (simp add: vfs_iget_def)
        then show thesis using that r op True unfolding kmalloc_def Let_def s3_def by (auto simp: bind_eq_Some_conv)
      qed
      have q: "quiet s3 s4" by (rule open_quiet [OF fo o4])
      have b4: "fd_bal s4 ((\<lambda>_. 0)(?f := 1)) None" by (rule quiet_bal [OF q nf(1)])
      have e4: "slots s4 ?f = {}" using nf(2) q by (simp add: quiet_def slots_def)
      obtain fl4 where l4: "ofiles s4 ?f = Some fl4" "f_inode fl4 = Some j" by (rule quiet_file [OF q o3, of j]) simp
      show ?thesis
      proof (cases "rc < 0")
        case True
        obtain s5 where "vfs_iput (Some j) s4 = Some s5" "fd_inv (s5\<lparr>ofiles := (ofiles s5)(?f := None)\<rparr>)"
          by (rule abandon_file [OF b4 e4 l4])
        then show ?thesis using r4 True by simp
      next
        case ge: False
        obtain nfd s5 where al: "fd_alloc me ?f s4 = (nfd, s5)" by (cases "fd_alloc me ?f s4")
        then show ?thesis
        proof (cases rule: fd_alloc_cases)
          case 1
          obtain s6 where c: "(case Option.bind (i_fops x) (m_close M) of None \<Rightarrow> Some s4 | Some cl \<Rightarrow> map_option snd (cl ?f s4)) = Some s6"
            "quiet s4 s6" by (rule close_call [of s4 ?f]) (use l4 in simp)
          obtain fl6 where l6: "ofiles s6 ?f = Some fl6" "f_inode fl6 = Some j" by (rule quiet_file [OF c(2) l4])
          have e6: "slots s6 ?f = {}" using e4 c(2) by (simp add: quiet_def slots_def)
          obtain s7 where "vfs_iput (Some j) s6 = Some s7" "fd_inv (s7\<lparr>ofiles := (ofiles s7)(?f := None)\<rparr>)"
            by (rule abandon_file [OF quiet_bal [OF c(2) b4] e6 l6])
          then show ?thesis using r4 ge al 1 c(1) by simp
        next
          case (2 t k)
          have "fd_bal s5 (((\<lambda>_. 0)(?f := 1))(?f := ((\<lambda>_. 0)(?f := 1)) ?f - 1)) None"
            unfolding 2 by (rule fd_bal_fill [OF b4 2(3,2) l4(1)])
          then show ?thesis using r4 ge al 2(4) by (simp add: fd_inv_def)
        qed
      qed
    qed
  qed (use i in simp)
qed

theorem step_inv: "fd_step M s s' \<Longrightarrow> fd_inv s \<Longrightarrow> fd_inv s'"
proof (induction rule: fd_step.induct)
  case (open_step me cwd path flags s fd s')
  then show ?case using open_inv by blast
next
  case (close_step me fd s rc s')
  then show ?case using close_inv [of s me fd] by auto
next
  case (dup_step me fd s rc s')
  then show ?case using dup_inv by blast
next
  case (dup2_step me fd fd2 s rc s')
  then show ?case using dup2_inv [of s me fd fd2] by auto
next
  case (spawn_step s c p)
  then show ?case using inherit_inv [of s c p "[0..<KT_FD_MAX]"] by (simp add: kthread_inherit_fds_def)
next
  case (exit_step t s s')
  then show ?case using drain_inv [of s t "[0..<KT_FD_MAX]"] by (auto simp: vfs_drain_fds_def)
qed

lemma steps_inv: "(fd_step M)\<^sup>*\<^sup>* s s' \<Longrightarrow> fd_inv s \<Longrightarrow> fd_inv s'"
  by (induction rule: rtranclp_induct) (auto intro: step_inv)

end

subsection \<open>The drivers of the file layer\<close>

lemma close_methods_quiet:
  assumes "cl \<in> {regfile_close, blkdev_close}" "ofiles s k \<noteq> None"
  shows "\<exists>rc s'. cl k s = Some (rc, s') \<and> quiet s s'"
  using assms by (auto simp: regfile_close_def blkdev_close_def quiet_def)

lemma rd_blk_fields: "rd_blk bd b s = Some (r, s') \<Longrightarrow> \<exists>c. s' = s\<lparr>cache := c\<rparr>"
  by (auto simp: rd_blk_def)

lemma wr_blk_fields: "wr_blk bd b x s = Some (r, s') \<Longrightarrow> \<exists>c. s' = s\<lparr>cache := c\<rparr>"
  by (auto simp: wr_blk_def)

lemma push_size_fields: "push_size kf sz s = Some s' \<Longrightarrow> \<exists>c. s' = s\<lparr>cache := c\<rparr>"
  by (auto simp: push_size_def bind_eq_Some_conv split: option.splits dest!: rd_blk_fields wr_blk_fields) (rule exI, rule refl)+

lemma regfile_open_quiet:
  assumes r: "regfile_open k s = Some (rc, s')"
  shows "quiet s s'"
proof (cases "kmalloc_ok s (next_obj s)")
  case False
  then show ?thesis using r by (auto simp: regfile_open_def kmalloc_def quiet_def)
next
  case True
  let ?c = "next_obj s"
  obtain fl j ino where f: "ofiles s k = Some fl" "f_inode fl = Some j" "inodes s j = Some ino"
    using r True by (auto simp: regfile_open_def kmalloc_def bind_eq_Some_conv)
  then obtain n where n: "i_private ino = FilePriv n"
    using r True by (cases "i_private ino") (auto simp: regfile_open_def kmalloc_def)
  let ?s = "s\<lparr>next_obj := ?c + 1, cursors := (cursors s)(?c \<mapsto> RegCursor n 0), ofiles := (ofiles s)(k \<mapsto> fl\<lparr>f_private := Some ?c\<rparr>)\<rparr>"
  have q: "quiet s (?s\<lparr>kfiles := m, cache := c\<rparr>)" for m c using f by (simp add: quiet_def)
  show ?thesis
  proof (cases "flag (f_flags fl) O_TRUNC")
    case tr: True
    obtain kf where "push_size kf 0 (?s\<lparr>kfiles := (kfiles s)(n \<mapsto> kf\<lparr>kf_size_bytes := 0\<rparr>)\<rparr>) = Some s'"
      using r True f n tr by (auto simp: regfile_open_def kmalloc_def bind_eq_Some_conv Let_def)
    then obtain c where "s' = ?s\<lparr>kfiles := (kfiles s)(n \<mapsto> kf\<lparr>kf_size_bytes := 0\<rparr>)\<rparr>\<lparr>cache := c\<rparr>"
      using push_size_fields by blast
    then show ?thesis using q by simp
  next
    case False
    then have "s' = ?s\<lparr>kfiles := kfiles ?s, cache := cache ?s\<rparr>"
      using r True f n by (simp add: regfile_open_def kmalloc_def Let_def)
    then show ?thesis using q by metis
  qed
qed

lemma blkdev_open_quiet: "blkdev_open k s = Some (rc, s') \<Longrightarrow> quiet s s'"
  by (auto simp: blkdev_open_def kmalloc_def bind_eq_Some_conv quiet_def split: if_splits)

lemma vtable_closer:
  assumes "close_contract ext"
  shows "file_closer (vtable ext)"
proof
  show "\<exists>rc s'. cl k s = Some (rc, s') \<and> quiet s s'" if c: "m_close (vtable ext) fo = Some cl" and o: "ofiles s k \<noteq> None" for fo cl s k
  proof (cases "m_close ext fo = Some cl")
    case True
    then show ?thesis using assms o unfolding close_contract_def by blast
  next
    case False
    then have "cl \<in> {regfile_close, blkdev_close}" using c by (auto simp: vtable_def pick_def split: fops.splits)
    then show ?thesis by (rule close_methods_quiet [OF _ o])
  qed
qed

interpretation closer: file_closer "vtable no_ext"
  by (rule vtable_closer) (simp add: close_contract_def no_ext_def)

interpretation native: file_driver "vtable no_ext"
proof
  show "quiet s s'" if "m_open (vtable no_ext) fo = Some op" "op k s = Some (rc, s')" for fo op k s rc s'
    using that regfile_open_quiet blkdev_open_quiet by (auto simp: vtable_def pick_def no_ext_def split: fops.splits)
qed

subsection \<open>Properties\<close>

lemma one_open_fields:
  "ofiles one_open = [0 \<mapsto> \<lparr>f_ops = Some RegfileFops, f_inode = None, f_private = Some 0, f_refs = 1, f_flags = 0\<rparr>]"
  "inodes one_open = [0 \<mapsto> \<lparr>i_type = INODE_DIR, i_fops = Some KfsDirFops, i_private = DirPriv 0, i_rdev = 0, i_count = 0\<rparr>]"
  "next_obj one_open = 1" "fdts one_open t i = (if t = 0 \<and> i = 0 then Some 0 else None)"
  by (simp_all add: one_open_def sample_fs_def)

lemma one_open_inv: "fd_inv one_open"
proof -
  have sl: "slots one_open f = (if f = 0 then {(0, 0)} else {})" for f
    by (auto simp: slots_def one_open_fields split: if_splits)
  have d: "{p. fdts one_open (fst p) (snd p) \<noteq> None} = {(0, 0)}" by (auto simp: one_open_fields split: if_splits)
  have f: "files_of one_open i = {}" for i by (auto simp: files_of_def one_open_fields split: if_splits)
  show ?thesis unfolding fd_inv_def
  proof (rule fd_balI)
    show "finite {p. fdts one_open (fst p) (snd p) \<noteq> None}" unfolding d by simp
  qed (auto simp: sl f one_open_fields KT_FD_MAX_def split: if_splits)
qed

text \<open>
  C3. Whatever sequence of open, close, dup, dup2, spawn and exit operations the threads perform, every
  descriptor in a table names a file that has not been freed, the count of that file is the number
  of descriptors that name it, and the inode behind it is live.
\<close>
theorem fd_steps_safe:
  assumes "fd_inv s" "(fd_step (vtable no_ext))\<^sup>*\<^sup>* s s'" "fdts s' t i = Some f"
  shows "\<exists>fl. ofiles s' f = Some fl \<and> f_refs fl = int (card {p. fdts s' (fst p) (snd p) = Some f})
    \<and> 0 < f_refs fl \<and> (case f_inode fl of None \<Rightarrow> True | Some j \<Rightarrow> inodes s' j \<noteq> None)"
proof -
  have b: "fd_bal s' (\<lambda>_. 0) None" using native.steps_inv [OF assms(2,1)] by (simp add: fd_inv_def)
  obtain fl where l: "ofiles s' f = Some fl" using fd_bal_live [OF b assms(3)] by blast
  have "inodes s' j \<noteq> None" if "f_inode fl = Some j" for j
  proof -
    have "f \<in> files_of s' j" using that l by (simp add: files_of_def)
    then show ?thesis using fd_balD(8) [OF b, of j] by auto
  qed
  then show ?thesis using l fd_balD(5,6) [OF b l] by (simp add: slots_def split: option.split)
qed

theorem fd_steps_safe_witness:
  "\<exists>fl. ofiles (snd (sys_dup_impl (Some 0) 0 one_open)) 0 = Some fl \<and> 0 < f_refs fl"
proof -
  have a: "(fd_step (vtable no_ext))\<^sup>*\<^sup>* one_open (snd (sys_dup_impl (Some 0) 0 one_open))"
    by (rule r_into_rtranclp, rule fd_step.dup_step, rule prod.collapse [symmetric])
  have b: "fdts (snd (sys_dup_impl (Some 0) 0 one_open)) 0 1 = Some 0"
    by (simp add: sys_dup_impl_def fd_get_def fd_alloc_def one_open_fields KT_FD_MAX_def set_fd_def file_get_def
        upt_conv_Cons)
  from fd_steps_safe [OF one_open_inv a b] show ?thesis by (elim exE conjE) (intro exI conjI)
qed

lemma sample_ext_contract: "close_contract sample_ext"
  by (auto simp: close_contract_def sample_ext_def no_ext_def quiet_def split: if_splits)

lemma one_stream_inv: "fd_inv one_stream"
proof -
  have "quiet one_open one_stream" by (simp add: quiet_def one_stream_def one_open_fields)
  then show ?thesis using quiet_bal one_open_inv unfolding fd_inv_def by blast
qed

text \<open>
  C30. Closing always returns: it fails exactly on a descriptor that is not open, and afterwards the slot
  is empty and the reference counts are exact. This holds for regular files, block devices and
  directories, and for files with any other methods (STREAMS devices) as long as their close method returns
  and leaves descriptors, inodes and reference counts alone.
\<close>
theorem close_returns:
  assumes "fd_inv s" "close_contract ext"
  shows "\<exists>s'. sys_close_impl (vtable ext) me fd s = Some (if fd_get me fd s = None then -1 else 0, s')
    \<and> fd_inv s' \<and> fd_get me fd s' = None"
  using file_closer.close_inv [OF vtable_closer [OF assms(2)] assms(1), of me fd]
proof (elim exE conjE)
  fix s' assume c: "sys_close_impl (vtable ext) me fd s = Some (if fd_get me fd s = None then -1 else 0, s')" "fd_inv s'"
    and e: "\<forall>t. me = Some t \<longrightarrow> 0 \<le> fd \<longrightarrow> fdts s' t (nat fd) = None \<or> nat fd \<ge> KT_FD_MAX"
  have "fd_get me fd s' = None" using e by (cases me) (auto simp: fd_get_def)
  with c show ?thesis by (intro exI conjI)
qed

theorem close_returns_witness: "\<exists>s'. sys_close_impl (vtable sample_ext) (Some 0) 0 one_stream = Some (0, s') \<and> fd_inv s'"
proof -
  have "fd_get (Some 0) 0 one_stream = Some 0" by (simp add: fd_get_def one_stream_def one_open_fields KT_FD_MAX_def)
  then show ?thesis using close_returns [OF one_stream_inv sample_ext_contract, of "Some 0" 0] by auto
qed

text \<open>
  C31. The closing of the descriptors of a thread when it exits, \<open>vfs_drain_fds\<close>, always returns and leaves
  every slot of its table empty, with exact reference counts for the files it shared with other threads,
  under the same condition on the close methods of other kinds of files.
\<close>
theorem drain_closes_all:
  assumes "fd_inv s" "close_contract ext"
  shows "\<exists>s'. vfs_drain_fds (vtable ext) (Some t) s = Some s' \<and> fd_inv s' \<and> (\<forall>i. fdts s' t i = None)"
proof -
  obtain s' where d: "drain_from (vtable ext) t [0..<KT_FD_MAX] s = Some s'" "fd_inv s'"
    "\<forall>i. fdts s' t i = (if i \<in> set [0..<KT_FD_MAX] then None else fdts s t i)"
    using file_closer.drain_inv [OF vtable_closer [OF assms(2)] assms(1)] by blast
  have "fdts s' t i = None" for i
    using d(3) fd_balD(2) [of s "\<lambda>_. 0" None t i] assms(1) unfolding fd_inv_def by (cases "fdts s t i") auto
  then show ?thesis using d by (simp add: vfs_drain_fds_def)
qed

theorem drain_closes_all_witness: "\<exists>s'. vfs_drain_fds (vtable sample_ext) (Some 0) one_stream = Some s' \<and> fdts s' 0 0 = None"
  using drain_closes_all [OF one_stream_inv sample_ext_contract, of 0] by blast

lemma length_collapse: "length (collapse w) \<le> length w"
proof (induction w rule: collapse.induct)
  case (2 a r)
  let ?d = "a = 47 \<and> r \<noteq> [] \<and> hd r = 46 \<and> (tl r = [] \<or> hd (tl r) = 47)"
  show ?case
  proof (cases ?d)
    case True
    then show ?thesis using 2(1) by simp
  next
    case False
    then have "length (collapse r) \<le> length r" using 2(2,3) by blast
    then show ?thesis using False by auto
  qed
qed simp

text \<open>
  Path resolution has no length failure: with room for two bytes it always gives a path that fits,
  cutting what does not fit.
\<close>
theorem resolve_never_fails:
  assumes "2 \<le> cap"
  shows "\<exists>q. resolve_path_kva cwd (Some p) cap = Some q \<and> length q < cap"
proof -
  have t: "length (trim_slash (collapse w)) < cap" if "length w < cap" for w
    using length_collapse [of w] that by (auto simp: trim_slash_def)
  have j: "length (c @ take (cap - 1 - length c) q) < cap" if "length c < cap" for c q :: bytes
    using that by simp
  have a: "length (take (cap - 1) w) < cap" for w :: bytes using assms by simp
  have c: "length (if length (take (cap - 1) w) > 1 \<and> length (take (cap - 1) w) + 1 < cap then take (cap - 1) w @ [47]
      else take (cap - 1) w) < cap" for w :: bytes
    using a [of w] by simp
  have "resolve_path_kva cwd (Some p) cap \<noteq> None" using assms by (simp add: resolve_path_kva_def Let_def)
  then obtain q where q: "resolve_path_kva cwd (Some p) cap = Some q" by blast
  show ?thesis
  proof (cases "p \<noteq> [] \<and> hd p = 47")
    case True
    then show ?thesis using q t [OF a, of p] assms by (auto simp add: resolve_path_kva_def Let_def)
  next
    case False
    then have "Some q = Some (trim_slash (collapse (let w = (case cwd of Some w \<Rightarrow> if w \<noteq> [] \<and> hd w = 47 then w else [47] | None \<Rightarrow> [47]);
        c' = (if length (take (cap - 1) w) > 1 \<and> length (take (cap - 1) w) + 1 < cap then take (cap - 1) w @ [47] else take (cap - 1) w)
      in c' @ take (cap - 1 - length c') p)))"
      using q assms unfolding resolve_path_kva_def Let_def option.case
      by (simp only: not_less [symmetric] if_False not_False_eq_True simp_thms)
    then show ?thesis using q t [OF j [OF c]] by (simp only: Let_def option.inject) blast
  qed
qed

theorem resolve_never_fails_witness:
  "resolve_path_kva None (Some [47, 97, 98, 99]) 3 = Some [47, 97]
   \<and> (\<exists>q. resolve_path_kva None (Some [47, 97, 98, 99]) 3 = Some q \<and> length q < 3)"
proof
  show "resolve_path_kva None (Some [47, 97, 98, 99]) 3 = Some [47, 97]"
    by (simp add: resolve_path_kva_def trim_slash_def)
  show "\<exists>q. resolve_path_kva None (Some [47, 97, 98, 99]) 3 = Some q \<and> length q < 3"
    by (rule resolve_never_fails) simp
qed

end
