(* ===== verification/Streams.thy ===== *)
theory Streams
  imports Kappara_Prelude "HOL-Library.Monad_Syntax"
begin

text \<open>
  The core of the STREAMS framework, \<open>uts/os/io/streams.c\<close>: message blocks that share reference
  counted data blocks, the deferred-message list of a queue with its water marks, delivery to the
  next queue, and the per-CPU list of queues whose service procedure is due. A \<open>None\<close> result is an
  access to a block that has been freed. The theorems: the count of a data block is the number of
  message blocks that use it, whatever is allocated, duplicated and freed; and a queue is a first-in
  first-out list. What a service run does with queues that enable each other is shown in \<open>Delay.thy\<close>.
\<close>

section \<open>Definitions\<close>

definition M_DATA :: u8 where [consts_def]: "M_DATA = 0"
definition M_PROTO :: u8 where [consts_def]: "M_PROTO = 1"
definition M_IOCTL :: u8 where [consts_def]: "M_IOCTL = 9"
definition M_IOCACK :: u8 where [consts_def]: "M_IOCACK = 0x0c"
definition M_IOCNAK :: u8 where [consts_def]: "M_IOCNAK = 0x10"

definition QFULL :: u32 where [consts_def]: "QFULL = 1"
definition QENAB :: u32 where [consts_def]: "QENAB = 8"

subsection \<open>Blocks and queues\<close>

text \<open>
  \<open>db_buf\<close> is the memory from \<open>db_base\<close> to \<open>db_lim\<close>; \<open>b_rptr\<close> and \<open>b_wptr\<close> are offsets into it.
\<close>

record dblk =
  db_buf :: bytes
  db_ref :: int
  db_type :: u8

record msgb =
  b_next :: "nat ptr"
  b_prev :: "nat ptr"
  b_cont :: "nat ptr"
  b_rptr :: nat
  b_wptr :: nat
  b_datap :: nat
  b_band :: u8
  b_flag :: u8

record module_info =
  mi_minpsz :: int
  mi_maxpsz :: int
  mi_hiwat :: int
  mi_lowat :: int

text \<open>Put and service procedures are numbered; what they do is an argument of the callers.\<close>

record qinit =
  qi_putp :: "nat option"
  qi_srvp :: "nat option"
  qi_minfo :: "module_info option"

record queue =
  q_qinfo :: "qinit option"
  q_first :: "nat ptr"
  q_last :: "nat ptr"
  q_next :: "nat ptr"
  q_link :: "nat ptr"
  q_runlink :: "nat ptr"
  q_count :: u64
  q_minpsz :: int
  q_maxpsz :: int
  q_hiwat :: int
  q_lowat :: int
  q_flag :: u32

text \<open>
  The state: blocks by address, the queues, the service list of each CPU, and the allocator as the
  number of the next request with an oracle for its success and for what fresh memory holds.
\<close>

record strm =
  mblks :: "nat \<rightharpoonup> msgb"
  dblks :: "nat \<rightharpoonup> dblk"
  queues :: "nat \<Rightarrow> queue"
  srvq_head :: "nat \<Rightarrow> nat ptr"
  srvq_tail :: "nat \<Rightarrow> nat ptr"
  streams_running :: "nat \<Rightarrow> bool"
  next_req :: nat
  req_ok :: "nat \<Rightarrow> bool"
  fresh_mem :: "nat \<Rightarrow> nat \<Rightarrow> u8"

definition request :: "strm \<Rightarrow> nat ptr \<times> strm" where
  "request s = (if req_ok s (next_req s) then Some (next_req s) else None, s\<lparr>next_req := next_req s + 1\<rparr>)"

subsection \<open>Message allocation\<close>

definition allocb :: "nat \<Rightarrow> strm \<Rightarrow> nat ptr \<times> strm" where
  "allocb sz s =
     (case request s of
        (None, s1) \<Rightarrow> (None, s1)
      | (Some d, s1) \<Rightarrow>
          (case (if sz > 0 then request s1 else (Some d, s1)) of
             (None, s2) \<Rightarrow> (None, s2)
           | (Some b, s2) \<Rightarrow>
               (case request s2 of
                  (None, s3) \<Rightarrow> (None, s3)
                | (Some m, s3) \<Rightarrow>
                    (Some m, s3\<lparr>dblks := (dblks s3)(d \<mapsto> \<lparr>db_buf = map (fresh_mem s3 b) [0..<sz], db_ref = 1, db_type = M_DATA\<rparr>),
                                mblks := (mblks s3)(m \<mapsto> \<lparr>b_next = None, b_prev = None, b_cont = None, b_rptr = 0, b_wptr = 0,
                                                          b_datap = d, b_band = 0, b_flag = 0\<rparr>)\<rparr>))))"

definition freeb :: "nat ptr \<Rightarrow> strm \<Rightarrow> strm option" where
  "freeb p s =
     (case p of None \<Rightarrow> Some s
      | Some m \<Rightarrow>
          do { mp \<leftarrow> mblks s m;
               db \<leftarrow> dblks s (b_datap mp);
               let db' = (if db_ref db - 1 = 0 then None else Some (db\<lparr>db_ref := db_ref db - 1\<rparr>));
               Some (s\<lparr>dblks := (dblks s)(b_datap mp := db'), mblks := (mblks s)(m := None)\<rparr>) })"

partial_function (option) freemsg :: "nat ptr \<Rightarrow> strm \<Rightarrow> strm option" where
  [code]: "freemsg p s =
     (case p of None \<Rightarrow> Some s
      | Some m \<Rightarrow> do { mp \<leftarrow> mblks s m; s1 \<leftarrow> freeb (Some m) s; freemsg (b_cont mp) s1 })"

partial_function (option) msgdsize :: "nat ptr \<Rightarrow> strm \<Rightarrow> u64 option" where
  [code]: "msgdsize p s =
     (case p of None \<Rightarrow> Some 0
      | Some m \<Rightarrow> do { mp \<leftarrow> mblks s m; n \<leftarrow> msgdsize (b_cont mp) s;
                        Some (of_nat (b_wptr mp) - of_nat (b_rptr mp) + n) })"

definition dupb :: "nat ptr \<Rightarrow> strm \<Rightarrow> (nat ptr \<times> strm) option" where
  "dupb p s =
     (case p of None \<Rightarrow> Some (None, s)
      | Some m \<Rightarrow>
          do { mp \<leftarrow> mblks s m;
               (case request s of
                  (None, s1) \<Rightarrow> Some (None, s1)
                | (Some c, s1) \<Rightarrow>
                    do { db \<leftarrow> dblks s1 (b_datap mp);
                         Some (Some c, s1\<lparr>mblks := (mblks s1)(c \<mapsto> mp\<lparr>b_next := None, b_prev := None, b_cont := None\<rparr>),
                                          dblks := (dblks s1)(b_datap mp \<mapsto> db\<lparr>db_ref := db_ref db + 1\<rparr>)\<rparr>) }) })"

definition upd_mb :: "nat ptr \<Rightarrow> (msgb \<Rightarrow> msgb) \<Rightarrow> strm \<Rightarrow> strm" where
  "upd_mb p f s = (case p of None \<Rightarrow> s | Some m \<Rightarrow> s\<lparr>mblks := (mblks s)(m := map_option f (mblks s m))\<rparr>)"

partial_function (option) dup_from :: "nat ptr \<Rightarrow> nat ptr \<Rightarrow> nat ptr \<Rightarrow> strm \<Rightarrow> (nat ptr \<times> strm) option" where
  [code]: "dup_from head tail p s =
     (case p of None \<Rightarrow> Some (head, s)
      | Some m \<Rightarrow>
          do { (cp, s1) \<leftarrow> dupb (Some m) s;
               (case cp of
                  None \<Rightarrow> do { s2 \<leftarrow> freemsg head s1; Some (None, s2) }
                | Some c \<Rightarrow>
                    do { mp \<leftarrow> mblks s1 m;
                         dup_from (if head = None then Some c else head) (Some c) (b_cont mp)
                           (upd_mb tail (\<lambda>b. b\<lparr>b_cont := Some c\<rparr>) s1) }) })"

definition dupmsg :: "nat ptr \<Rightarrow> strm \<Rightarrow> (nat ptr \<times> strm) option" where
  "dupmsg p s = dup_from None None p s"

subsection \<open>Queues\<close>

definition limits :: "qinit option \<Rightarrow> queue \<Rightarrow> queue" where
  "limits qi q =
     (case Option.bind qi qi_minfo of
        None \<Rightarrow> q
      | Some i \<Rightarrow> q\<lparr>q_minpsz := mi_minpsz i, q_maxpsz := mi_maxpsz i, q_hiwat := mi_hiwat i, q_lowat := mi_lowat i\<rparr>)"

definition zero_queue :: queue where
  "zero_queue = \<lparr>q_qinfo = None, q_first = None, q_last = None, q_next = None, q_link = None, q_runlink = None,
     q_count = 0, q_minpsz = 0, q_maxpsz = 0, q_hiwat = 0, q_lowat = 0, q_flag = 0\<rparr>"

definition queue_init_pair :: "nat \<Rightarrow> nat \<Rightarrow> qinit option \<Rightarrow> qinit option \<Rightarrow> strm \<Rightarrow> strm" where
  "queue_init_pair rq wq rinit winit s =
     s\<lparr>queues := (queues s)(rq := limits rinit (zero_queue\<lparr>q_qinfo := rinit, q_link := Some wq\<rparr>),
                           wq := limits winit (zero_queue\<lparr>q_qinfo := winit, q_link := Some rq\<rparr>))\<rparr>"

definition upd_q :: "nat \<Rightarrow> (queue \<Rightarrow> queue) \<Rightarrow> strm \<Rightarrow> strm" where
  "upd_q q f s = s\<lparr>queues := (queues s)(q := f (queues s q))\<rparr>"

definition putq :: "nat \<Rightarrow> nat \<Rightarrow> strm \<Rightarrow> strm option" where
  "putq q m s =
     (let old = q_last (queues s q);
          s1 = upd_mb (Some m) (\<lambda>b. b\<lparr>b_next := None, b_prev := old\<rparr>) s;
          s2 = upd_mb old (\<lambda>b. b\<lparr>b_next := Some m\<rparr>) s1;
          s3 = upd_q q (\<lambda>r. r\<lparr>q_first := (if old = None then Some m else q_first r), q_last := Some m\<rparr>) s2
      in do { n \<leftarrow> msgdsize (Some m) s3;
              Some (upd_q q (\<lambda>r. let c = q_count r + n in
                      r\<lparr>q_count := c, q_flag := (if sint c \<ge> q_hiwat r then q_flag r OR QFULL else q_flag r)\<rparr>) s3) })"

definition putbq :: "nat \<Rightarrow> nat \<Rightarrow> strm \<Rightarrow> strm option" where
  "putbq q m s =
     (let old = q_first (queues s q);
          s1 = upd_mb (Some m) (\<lambda>b. b\<lparr>b_prev := None, b_next := old\<rparr>) s;
          s2 = upd_mb old (\<lambda>b. b\<lparr>b_prev := Some m\<rparr>) s1;
          s3 = upd_q q (\<lambda>r. r\<lparr>q_last := (if old = None then Some m else q_last r), q_first := Some m\<rparr>) s2
      in do { n \<leftarrow> msgdsize (Some m) s3; Some (upd_q q (\<lambda>r. r\<lparr>q_count := q_count r + n\<rparr>) s3) })"

definition getq :: "nat \<Rightarrow> strm \<Rightarrow> (nat ptr \<times> strm) option" where
  "getq q s =
     (case q_first (queues s q) of None \<Rightarrow> Some (None, s)
      | Some m \<Rightarrow>
          do { mp \<leftarrow> mblks s m;
               let nx = b_next mp;
               let s1 = upd_mb nx (\<lambda>b. b\<lparr>b_prev := None\<rparr>) s;
               let s2 = upd_q q (\<lambda>r. r\<lparr>q_first := nx, q_last := (if nx = None then None else q_last r)\<rparr>) s1;
               let s3 = upd_mb (Some m) (\<lambda>b. b\<lparr>b_next := None, b_prev := None\<rparr>) s2;
               n \<leftarrow> msgdsize (Some m) s3;
               Some (Some m, upd_q q (\<lambda>r. let c = q_count r - n in
                      r\<lparr>q_count := c, q_flag := (if sint c \<le> q_lowat r then q_flag r AND NOT QFULL else q_flag r)\<rparr>) s3) })"

text \<open>\<open>putp k q m\<close> runs put procedure \<open>k\<close> on queue \<open>q\<close>.\<close>

definition put :: "(nat \<Rightarrow> nat \<Rightarrow> nat ptr \<Rightarrow> strm \<Rightarrow> (int \<times> strm) option) \<Rightarrow> nat ptr \<Rightarrow> nat ptr \<Rightarrow> strm \<Rightarrow> (int \<times> strm) option" where
  "put putp qp mp s =
     (case qp of None \<Rightarrow> map_option (Pair (-1)) (freemsg mp s)
      | Some q \<Rightarrow> (case Option.bind (q_qinfo (queues s q)) qi_putp of
                     None \<Rightarrow> map_option (Pair (-1)) (freemsg mp s)
                   | Some k \<Rightarrow> putp k q mp s))"

definition putnext :: "(nat \<Rightarrow> nat \<Rightarrow> nat ptr \<Rightarrow> strm \<Rightarrow> (int \<times> strm) option) \<Rightarrow> nat \<Rightarrow> nat ptr \<Rightarrow> strm \<Rightarrow> (int \<times> strm) option" where
  "putnext putp q mp s = put putp (q_next (queues s q)) mp s"

subsection \<open>Service procedures\<close>

definition qenable :: "nat \<Rightarrow> nat ptr \<Rightarrow> strm \<Rightarrow> strm" where
  "qenable cpu qp s =
     (case qp of None \<Rightarrow> s
      | Some q \<Rightarrow>
          if Option.bind (q_qinfo (queues s q)) qi_srvp = None \<or> flag (q_flag (queues s q)) QENAB then s
          else let s1 = upd_q q (\<lambda>r. r\<lparr>q_flag := q_flag r OR QENAB, q_runlink := None\<rparr>) s;
                   s2 = (case srvq_tail s1 cpu of
                           None \<Rightarrow> s1\<lparr>srvq_head := (srvq_head s1)(cpu := Some q)\<rparr>
                         | Some t \<Rightarrow> upd_q t (\<lambda>r. r\<lparr>q_runlink := Some q\<rparr>) s1)
               in s2\<lparr>srvq_tail := (srvq_tail s2)(cpu := Some q)\<rparr>)"

definition srvq_pop :: "nat \<Rightarrow> nat \<Rightarrow> strm \<Rightarrow> strm" where
  "srvq_pop cpu q s =
     (let h = q_runlink (queues s q);
          s1 = s\<lparr>srvq_head := (srvq_head s)(cpu := h), srvq_tail := (if h = None then (srvq_tail s)(cpu := None) else srvq_tail s)\<rparr>
      in upd_q q (\<lambda>r. r\<lparr>q_runlink := None, q_flag := q_flag r AND NOT QENAB\<rparr>) s1)"

text \<open>\<open>srvp k q\<close> runs service procedure \<open>k\<close> on queue \<open>q\<close>. A waiting queue without a \<open>q_qinfo\<close> is a NULL dereference.\<close>

partial_function (option) run_loop :: "(nat \<Rightarrow> nat \<Rightarrow> strm \<Rightarrow> strm option) \<Rightarrow> nat \<Rightarrow> strm \<Rightarrow> strm option" where
  [code]: "run_loop srvp cpu s =
     (case srvq_head s cpu of None \<Rightarrow> Some s
      | Some q \<Rightarrow>
          do { let s1 = srvq_pop cpu q s;
               qi \<leftarrow> q_qinfo (queues s1 q);
               s2 \<leftarrow> (case qi_srvp qi of None \<Rightarrow> Some s1 | Some k \<Rightarrow> srvp k q s1);
               run_loop srvp cpu s2 })"

definition streams_run :: "(nat \<Rightarrow> nat \<Rightarrow> strm \<Rightarrow> strm option) \<Rightarrow> nat \<Rightarrow> strm \<Rightarrow> strm option" where
  "streams_run srvp cpu s =
     (if streams_running s cpu then Some s
      else do { s1 \<leftarrow> run_loop srvp cpu (s\<lparr>streams_running := (streams_running s)(cpu := True)\<rparr>);
                Some (s1\<lparr>streams_running := (streams_running s1)(cpu := False)\<rparr>) })"

subsection \<open>Invariants and abstractions\<close>

text \<open>The message blocks that use a data block.\<close>

definition uses :: "strm \<Rightarrow> nat \<Rightarrow> nat set" where
  "uses s d = {m. \<exists>mb. mblks s m = Some mb \<and> b_datap mb = d}"

definition ref_inv :: "strm \<Rightarrow> bool" where
  "ref_inv s \<longleftrightarrow> finite (dom (mblks s)) \<and> (\<forall>n \<ge> next_req s. mblks s n = None \<and> dblks s n = None)
     \<and> (\<forall>d. (case dblks s d of None \<Rightarrow> uses s d = {} | Some db \<Rightarrow> uses s d \<noteq> {} \<and> db_ref db = int (card (uses s d))))"

text \<open>What callers do with messages, in any order.\<close>

inductive blk_step :: "strm \<Rightarrow> strm \<Rightarrow> bool" where
  alloc_step: "allocb n s = (p, s') \<Longrightarrow> blk_step s s'"
| free_step: "freeb (Some m) s = Some s' \<Longrightarrow> blk_step s s'"
| dup_step: "dupb (Some m) s = Some (p, s') \<Longrightarrow> blk_step s s'"
| putq_step: "putq q m s = Some s' \<Longrightarrow> blk_step s s'"
| putbq_step: "putbq q m s = Some s' \<Longrightarrow> blk_step s s'"
| getq_step: "getq q s = Some (p, s') \<Longrightarrow> blk_step s s'"

text \<open>The messages on the list of a queue.\<close>

definition mnext :: "strm \<Rightarrow> nat \<Rightarrow> nat ptr" where
  "mnext s m = Option.bind (mblks s m) b_next"

definition mprev :: "strm \<Rightarrow> nat \<Rightarrow> nat ptr" where
  "mprev s m = Option.bind (mblks s m) b_prev"

definition sendable :: "nat \<Rightarrow> strm \<Rightarrow> bool" where
  "sendable m s \<longleftrightarrow> msgdsize (Some m) s \<noteq> None"

definition qrep :: "nat \<Rightarrow> strm \<Rightarrow> nat list \<Rightarrow> bool" where
  "qrep q s ms \<longleftrightarrow> dlist (mnext s) (mprev s) (q_first (queues s q)) (q_last (queues s q)) ms \<and> (\<forall>m \<in> set ms. sendable m s)"

text \<open>The part of a block that the links of the queue do not touch.\<close>

definition core :: "strm \<Rightarrow> nat \<Rightarrow> (nat ptr \<times> nat \<times> nat \<times> nat) option" where
  "core s m = map_option (\<lambda>b. (b_cont b, b_rptr b, b_wptr b, b_datap b)) (mblks s m)"

primrec enq_all :: "('m \<Rightarrow> 's \<Rightarrow> 's option) \<Rightarrow> 'm list \<Rightarrow> 's \<Rightarrow> 's option" where
  "enq_all enq [] s = Some s"
| "enq_all enq (m # ms) s = Option.bind (enq m s) (enq_all enq ms)"

primrec deq_n :: "('s \<Rightarrow> ('m option \<times> 's) option) \<Rightarrow> nat \<Rightarrow> 's \<Rightarrow> ('m option list \<times> 's) option" where
  "deq_n deq 0 s = Some ([], s)"
| "deq_n deq (Suc n) s = do { (m, s1) \<leftarrow> deq s; (ms, s2) \<leftarrow> deq_n deq n s1; Some (m # ms, s2) }"

text \<open>The queues waiting for service on a CPU.\<close>

definition srvq :: "nat \<Rightarrow> strm \<Rightarrow> nat list \<Rightarrow> bool" where
  "srvq cpu s qs \<longleftrightarrow> slist (\<lambda>q. q_runlink (queues s q)) (srvq_head s cpu) qs
     \<and> srvq_tail s cpu = (if qs = [] then None else Some (last qs))
     \<and> (\<forall>q \<in> set qs. flag (q_flag (queues s q)) QENAB)"

text \<open>An empty heap with two queues' worth of room, for examples.\<close>

definition empty_strm :: strm where
  "empty_strm = \<lparr>mblks = Map.empty, dblks = Map.empty, queues = \<lambda>_. zero_queue, srvq_head = \<lambda>_. None, srvq_tail = \<lambda>_. None,
     streams_running = \<lambda>_. False, next_req = 0, req_ok = \<lambda>_. True, fresh_mem = \<lambda>_ _. 0\<rparr>"

section \<open>Lemmas\<close>

subsection \<open>Reference counts\<close>

lemma ref_invI:
  assumes "finite (dom (mblks s))" "\<And>n. next_req s \<le> n \<Longrightarrow> mblks s n = None \<and> dblks s n = None"
    "\<And>d. dblks s d = None \<Longrightarrow> uses s d = {}"
    "\<And>d db. dblks s d = Some db \<Longrightarrow> uses s d \<noteq> {} \<and> db_ref db = int (card (uses s d))"
  shows "ref_inv s"
  using assms unfolding ref_inv_def by (auto split: option.split)

lemma ref_invD:
  assumes "ref_inv s"
  shows "finite (dom (mblks s))" "next_req s \<le> n \<Longrightarrow> mblks s n = None" "next_req s \<le> n \<Longrightarrow> dblks s n = None"
    "dblks s d = None \<Longrightarrow> uses s d = {}"
    "dblks s d = Some db \<Longrightarrow> uses s d \<noteq> {}" "dblks s d = Some db \<Longrightarrow> db_ref db = int (card (uses s d))"
proof -
  have c: "case dblks s d of None \<Rightarrow> uses s d = {} | Some db \<Rightarrow> uses s d \<noteq> {} \<and> db_ref db = int (card (uses s d))"
    using assms unfolding ref_inv_def by blast
  show "finite (dom (mblks s))" "next_req s \<le> n \<Longrightarrow> mblks s n = None" "next_req s \<le> n \<Longrightarrow> dblks s n = None"
    using assms unfolding ref_inv_def by blast+
  show "dblks s d = None \<Longrightarrow> uses s d = {}" "dblks s d = Some db \<Longrightarrow> uses s d \<noteq> {}"
    "dblks s d = Some db \<Longrightarrow> db_ref db = int (card (uses s d))" using c by simp_all
qed

lemma finite_uses: "ref_inv s \<Longrightarrow> finite (uses s d)"
  by (rule finite_subset [of _ "dom (mblks s)"]) (auto simp: uses_def ref_invD(1))

lemma ref_inv_cong:
  assumes "ref_inv s" "mblks s' = mblks s" "dblks s' = dblks s" "next_req s \<le> next_req s'"
  shows "ref_inv s'"
proof -
  have u: "uses s' = uses s" by (simp add: uses_def assms(2) fun_eq_iff)
  show ?thesis by (rule ref_invI) (use ref_invD [OF assms(1)] assms in \<open>simp_all add: u\<close>)
qed

text \<open>A new message block that uses an existing or a new data block.\<close>

lemma ref_inv_add:
  assumes i: "ref_inv s" and f: "mblks s m = None" "m < next_req s'" "next_req s \<le> next_req s'" "b_datap mb < next_req s'"
    and s': "mblks s' = (mblks s)(m \<mapsto> mb)" "dblks s' = (dblks s)(b_datap mb \<mapsto> db)"
    and r: "db_ref db = (case dblks s (b_datap mb) of None \<Rightarrow> 1 | Some old \<Rightarrow> db_ref old + 1)"
  shows "ref_inv s'"
proof -
  have u: "uses s' d = (if d = b_datap mb then insert m (uses s d) else uses s d)" for d
    using f(1) by (auto simp: uses_def s'(1))
  have nm: "m \<notin> uses s d" for d using f(1) by (simp add: uses_def)
  show ?thesis
  proof (rule ref_invI)
    show "finite (dom (mblks s'))" using ref_invD(1) [OF i] by (simp add: s')
    show "mblks s' n = None \<and> dblks s' n = None" if "next_req s' \<le> n" for n
      using that f ref_invD(2,3) [OF i, of n] by (auto simp: s')
    show "uses s' d = {}" if "dblks s' d = None" for d
      using that ref_invD(4) [OF i, of d] by (auto simp: s' u split: if_splits)
    show "uses s' d \<noteq> {} \<and> db_ref e = int (card (uses s' d))" if "dblks s' d = Some e" for d e
    proof (cases "d = b_datap mb")
      case True
      have "db_ref db = int (card (uses s d)) + 1"
        using r True ref_invD(4,6) [OF i, of d] by (auto split: option.splits)
      then show ?thesis using that True nm [of d] finite_uses [OF i, of d] by (simp add: s' u)
    next
      case False
      then show ?thesis using that ref_invD(5,6) [OF i, of d e] by (simp add: s' u)
    qed
  qed
qed

lemma request_inv: "ref_inv s \<Longrightarrow> request s = (p, s1) \<Longrightarrow> ref_inv s1"
  by (erule ref_inv_cong) (auto simp: request_def)

lemma allocb_inv:
  assumes i: "ref_inv s" and a: "allocb n s = (p, s')"
  shows "ref_inv s'"
proof -
  obtain d s1 where r1: "request s = (d, s1)" by (cases "request s")
  have i1: "ref_inv s1" "next_req s1 = next_req s + 1" using r1 request_inv [OF i r1] by (auto simp: request_def)
  show ?thesis
  proof (cases d)
    case None
    then show ?thesis using a r1 i1 by (simp add: allocb_def)
  next
    case (Some d')
    have d': "d' = next_req s" using r1 Some by (auto simp: request_def split: if_splits)
    obtain b s2 where r2: "(if n > 0 then request s1 else (Some d', s1)) = (b, s2)" by fastforce
    have i2: "ref_inv s2" "next_req s1 \<le> next_req s2" using r2 i1 request_inv [OF i1(1)] by (auto simp: request_def split: if_splits)
    show ?thesis
    proof (cases b)
      case None
      then show ?thesis using a r1 r2 Some i2 by (simp add: allocb_def)
    next
      case (Some b')
      obtain m s3 where r3: "request s2 = (m, s3)" by (cases "request s2")
      have i3: "ref_inv s3" "next_req s3 = next_req s2 + 1" using r3 request_inv [OF i2(1) r3] by (auto simp: request_def)
      show ?thesis
      proof (cases m)
        case None
        then show ?thesis using a r1 r2 r3 \<open>d = Some d'\<close> Some i3 by (simp add: allocb_def)
      next
        case (Some m')
        have m': "m' = next_req s2" using r3 Some by (auto simp: request_def split: if_splits)
        have e: "mblks s3 = mblks s" "dblks s3 = dblks s"
          using r1 r2 r3 by (auto simp: request_def split: if_splits)
        let ?db = "\<lparr>db_buf = map (fresh_mem s3 b') [0..<n], db_ref = 1, db_type = M_DATA\<rparr>"
        let ?mb = "\<lparr>b_next = None, b_prev = None, b_cont = None, b_rptr = 0, b_wptr = 0, b_datap = d', b_band = 0, b_flag = 0\<rparr>"
        have s': "s' = s3\<lparr>dblks := (dblks s3)(d' \<mapsto> ?db), mblks := (mblks s3)(m' \<mapsto> ?mb)\<rparr>"
          using a r1 r2 r3 \<open>d = Some d'\<close> \<open>b = Some b'\<close> Some by (simp add: allocb_def)
        show ?thesis
        proof (rule ref_inv_add [OF i3(1), of m' s' ?mb ?db])
          show "mblks s3 m' = None" using ref_invD(2) [OF i, of m'] i1 i2 m' e by simp
          show "db_ref ?db = (case dblks s3 (b_datap ?mb) of None \<Rightarrow> 1 | Some old \<Rightarrow> db_ref old + 1)"
            using ref_invD(3) [OF i, of d'] d' e by simp
        qed (use i1 i2 i3 m' d' in \<open>simp_all add: s'\<close>)
      qed
    qed
  qed
qed

lemma dupb_inv:
  assumes i: "ref_inv s" and d: "dupb (Some m) s = Some (p, s')"
  shows "ref_inv s'"
proof -
  obtain mp where mp: "mblks s m = Some mp" using d by (auto simp: dupb_def bind_eq_Some_conv)
  obtain c s1 where r: "request s = (c, s1)" by (cases "request s")
  have i1: "ref_inv s1" "next_req s1 = next_req s + 1" "mblks s1 = mblks s" "dblks s1 = dblks s"
    using r request_inv [OF i r] by (auto simp: request_def)
  show ?thesis
  proof (cases c)
    case None
    then show ?thesis using d mp r i1 by (simp add: dupb_def)
  next
    case (Some c')
    have c': "c' = next_req s" using r Some by (auto simp: request_def split: if_splits)
    obtain db where db: "dblks s1 (b_datap mp) = Some db" using d mp r Some by (auto simp: dupb_def bind_eq_Some_conv)
    have s': "s' = s1\<lparr>mblks := (mblks s1)(c' \<mapsto> mp\<lparr>b_next := None, b_prev := None, b_cont := None\<rparr>),
                     dblks := (dblks s1)(b_datap mp \<mapsto> db\<lparr>db_ref := db_ref db + 1\<rparr>)\<rparr>"
      using d mp r Some db by (simp add: dupb_def)
    show ?thesis
    proof (rule ref_inv_add [OF i1(1), of c' s' "mp\<lparr>b_next := None, b_prev := None, b_cont := None\<rparr>" "db\<lparr>db_ref := db_ref db + 1\<rparr>"])
      show "mblks s1 c' = None" using ref_invD(2) [OF i, of c'] i1 c' by simp
      show "b_datap (mp\<lparr>b_next := None, b_prev := None, b_cont := None\<rparr>) < next_req s'"
        using ref_invD(3) [OF i1(1), of "b_datap mp"] db by (auto simp: s' not_le [symmetric])
    qed (use i1 c' db in \<open>simp_all add: s'\<close>)
  qed
qed

lemma freeb_inv:
  assumes i: "ref_inv s" and m: "mblks s m = Some mp"
  obtains s' where "freeb (Some m) s = Some s'" "ref_inv s'"
proof -
  let ?d = "b_datap mp"
  have mu: "m \<in> uses s ?d" using m by (simp add: uses_def)
  obtain db where db: "dblks s ?d = Some db" using ref_invD(4) [OF i, of ?d] mu by (cases "dblks s ?d") auto
  have c: "db_ref db = int (card (uses s ?d))" by (rule ref_invD(6) [OF i db])
  have cr: "card (uses s ?d) = Suc (card (uses s ?d - {m}))" using mu finite_uses [OF i] by (metis card_Suc_Diff1)
  let ?db = "if db_ref db - 1 = 0 then None else Some (db\<lparr>db_ref := db_ref db - 1\<rparr>)"
  let ?s = "s\<lparr>dblks := (dblks s)(?d := ?db), mblks := (mblks s)(m := None)\<rparr>"
  have u: "uses ?s e = (if e = ?d then uses s e - {m} else uses s e)" for e using m by (auto simp: uses_def)
  have em: "uses s ?d - {m} = {} \<longleftrightarrow> db_ref db = 1"
    using c cr finite_uses [OF i, of ?d] by (metis One_nat_def card_0_eq finite_Diff of_nat_1 of_nat_eq_iff nat.inject)
  have "ref_inv ?s"
  proof (rule ref_invI)
    show "finite (dom (mblks ?s))" using ref_invD(1) [OF i] by simp
    show "mblks ?s n = None \<and> dblks ?s n = None" if "next_req ?s \<le> n" for n
      using that ref_invD(2,3) [OF i, of n] db by auto
    show "uses ?s e = {}" if "dblks ?s e = None" for e
    proof (cases "e = ?d")
      case True
      then have "db_ref db = 1" using that by (simp split: if_splits)
      then show ?thesis using True em u [of e] by simp
    next
      case False
      then show ?thesis using that ref_invD(4) [OF i, of e] u [of e] by simp
    qed
    show "uses ?s e \<noteq> {} \<and> db_ref x = int (card (uses ?s e))" if "dblks ?s e = Some x" for e x
    proof (cases "e = ?d")
      case True
      then have "x = db\<lparr>db_ref := db_ref db - 1\<rparr>" "db_ref db \<noteq> 1" using that by (auto split: if_splits)
      then show ?thesis using True em u [of e] c cr by simp
    next
      case False
      then show ?thesis using that ref_invD(5,6) [OF i, of e x] u [of e] by simp
    qed
  qed
  moreover have "freeb (Some m) s = Some ?s" using m db by (simp add: freeb_def)
  ultimately show thesis using that by blast
qed

lemma core_upd_mb:
  assumes "\<And>b. b_cont (f b) = b_cont b" "\<And>b. b_rptr (f b) = b_rptr b" "\<And>b. b_wptr (f b) = b_wptr b" "\<And>b. b_datap (f b) = b_datap b"
  shows "core (upd_mb p f s) = core s"
  using assms by (auto simp: core_def upd_mb_def fun_eq_iff option.map_comp o_def split: option.split)

lemma upd_simps [simp]:
  "dblks (upd_mb p f s) = dblks s" "next_req (upd_mb p f s) = next_req s" "queues (upd_mb p f s) = queues s"
  "mblks (upd_q q g s) = mblks s" "dblks (upd_q q g s) = dblks s" "next_req (upd_q q g s) = next_req s"
  "core (upd_q q g s) = core s" "queues (upd_q q g s) = (queues s)(q := g (queues s q))"
  "srvq_head (upd_q q g s) = srvq_head s" "srvq_tail (upd_q q g s) = srvq_tail s"
  "srvq_head (upd_mb p f s) = srvq_head s" "srvq_tail (upd_mb p f s) = srvq_tail s"
  "streams_running (upd_mb p f s) = streams_running s" "streams_running (upd_q q g s) = streams_running s"
  by (simp_all add: upd_mb_def upd_q_def core_def fun_eq_iff split: option.split)

lemma ref_inv_core:
  assumes "ref_inv s" "core s' = core s" "dblks s' = dblks s" "next_req s' = next_req s"
  shows "ref_inv s'"
proof -
  have e: "map_option b_datap (mblks s' m) = map_option b_datap (mblks s m)" "mblks s' m = None \<longleftrightarrow> mblks s m = None" for m
    using fun_cong [OF assms(2), of m] by (cases "mblks s m"; cases "mblks s' m"; simp add: core_def)+
  have a: "uses t d = {m. map_option b_datap (mblks t m) = Some d}" for t d by (auto simp: uses_def)
  have u: "uses s' = uses s" by (rule ext) (simp only: a e(1))
  have "dom (mblks s') = dom (mblks s)" using e(2) by (auto simp: dom_def)
  then show ?thesis using ref_invD [OF assms(1)] assms(3,4) e(2) u by (intro ref_invI) simp_all
qed

lemma core_cong_msgdsize:
  assumes "msgdsize p s = Some n" "core s' = core s"
  shows "msgdsize p s' = Some n"
proof -
  have "\<forall>s'. core s' = core s \<longrightarrow> msgdsize p s' = Some n" using assms(1)
  proof (induction rule: msgdsize.raw_induct [rotated, consumes 1, case_names step])
    case (step f p s n)
    show ?case
    proof (cases p)
      case None
      then show ?thesis using step(2) by (simp add: msgdsize.simps)
    next
      case (Some m)
      then obtain mp k where m: "mblks s m = Some mp" "f (b_cont mp) s = Some k" "n = of_nat (b_wptr mp) - of_nat (b_rptr mp) + k"
        using step(2) by (auto simp: bind_eq_Some_conv)
      show ?thesis
      proof (intro allI impI)
        fix s' assume c: "core s' = core s"
        obtain mp' where m': "mblks s' m = Some mp'" "b_cont mp' = b_cont mp" "b_wptr mp' = b_wptr mp" "b_rptr mp' = b_rptr mp"
          using fun_cong [OF c, of m] m(1) by (auto simp: core_def)
        have "msgdsize (b_cont mp) s' = Some k" using step(1) [OF m(2)] c by blast
        then show "msgdsize p s' = Some n" using Some m m' by (simp add: msgdsize.simps [of "Some m"])
      qed
    qed
  qed
  then show ?thesis using assms(2) by blast
qed

lemma sendable_core: "core s' = core s \<Longrightarrow> sendable m s' \<longleftrightarrow> sendable m s"
  unfolding sendable_def using core_cong_msgdsize by (metis option.exhaust)

subsection \<open>Queues as lists\<close>

lemma upd_mb_None [simp]: "upd_mb None f s = s"
  by (simp add: upd_mb_def)

lemma mnext_upd:
  assumes "mblks s m \<noteq> None"
  shows "mnext (upd_mb (Some m) f s) = (mnext s)(m := b_next (f (the (mblks s m))))"
    "mprev (upd_mb (Some m) f s) = (mprev s)(m := b_prev (f (the (mblks s m))))"
  using assms by (auto simp: mnext_def mprev_def upd_mb_def fun_eq_iff)

lemma mblks_upd_live [simp]: "mblks (upd_mb p f s) x = None \<longleftrightarrow> mblks s x = None"
  by (auto simp: upd_mb_def split: option.split)

lemma sendable_live: "sendable m s \<Longrightarrow> mblks s m \<noteq> None"
  by (cases "mblks s m") (simp_all add: sendable_def msgdsize.simps [of "Some m"])

lemma link_upd: "mnext (upd_q q g s) = mnext s" "mprev (upd_q q g s) = mprev s"
  by (simp_all add: mnext_def mprev_def fun_eq_iff)

lemma upd_mb_links:
  assumes "mblks s m \<noteq> None"
  shows "mnext (upd_mb (Some m) (\<lambda>b. b\<lparr>b_next := x, b_prev := y\<rparr>) s) = (mnext s)(m := x)"
    "mprev (upd_mb (Some m) (\<lambda>b. b\<lparr>b_next := x, b_prev := y\<rparr>) s) = (mprev s)(m := y)"
    "mnext (upd_mb (Some m) (\<lambda>b. b\<lparr>b_prev := y, b_next := x\<rparr>) s) = (mnext s)(m := x)"
    "mprev (upd_mb (Some m) (\<lambda>b. b\<lparr>b_prev := y, b_next := x\<rparr>) s) = (mprev s)(m := y)"
    "mnext (upd_mb (Some m) (\<lambda>b. b\<lparr>b_next := x\<rparr>) s) = (mnext s)(m := x)"
    "mprev (upd_mb (Some m) (\<lambda>b. b\<lparr>b_next := x\<rparr>) s) = mprev s"
    "mprev (upd_mb (Some m) (\<lambda>b. b\<lparr>b_prev := y\<rparr>) s) = (mprev s)(m := y)"
    "mnext (upd_mb (Some m) (\<lambda>b. b\<lparr>b_prev := y\<rparr>) s) = mnext s"
  using assms by (auto simp: mnext_def mprev_def upd_mb_def fun_eq_iff)

lemma core_links [simp]:
  "core (upd_mb p (\<lambda>b. b\<lparr>b_next := x, b_prev := y\<rparr>) s) = core s" "core (upd_mb p (\<lambda>b. b\<lparr>b_prev := y, b_next := x\<rparr>) s) = core s"
  "core (upd_mb p (\<lambda>b. b\<lparr>b_next := x\<rparr>) s) = core s" "core (upd_mb p (\<lambda>b. b\<lparr>b_prev := y\<rparr>) s) = core s"
  by (rule core_upd_mb; simp)+

lemma putq_rep:
  assumes r: "qrep q s ms" and m: "sendable m s" "m \<notin> set ms"
  shows "\<exists>s'. putq q m s = Some s' \<and> qrep q s' (ms @ [m]) \<and> core s' = core s"
proof -
  let ?old = "q_last (queues s q)"
  define s1 where "s1 = upd_mb (Some m) (\<lambda>b. b\<lparr>b_next := None, b_prev := ?old\<rparr>) s"
  define s2 where "s2 = upd_mb ?old (\<lambda>b. b\<lparr>b_next := Some m\<rparr>) s1"
  define s3 where "s3 = upd_q q (\<lambda>r. r\<lparr>q_first := (if ?old = None then Some m else q_first r), q_last := Some m\<rparr>) s2"
  have d: "dlist (mnext s) (mprev s) (q_first (queues s q)) ?old ms" using r by (simp add: qrep_def)
  have c: "core s3 = core s" by (simp add: s3_def s2_def s1_def)
  have lm: "mblks s m \<noteq> None" by (rule sendable_live [OF m(1)])
  have lo: "mblks s1 l \<noteq> None" if "?old = Some l" for l
  proof -
    have "l \<in> set ms" using dlist_tail_Some [of "mnext s" "mprev s" "q_first (queues s q)" l ms] d that by auto
    then show ?thesis using r sendable_live unfolding qrep_def s1_def by auto
  qed
  have n: "mnext s2 = (case ?old of None \<Rightarrow> (mnext s)(m := None) | Some l \<Rightarrow> (mnext s)(m := None, l := Some m))"
    using upd_mb_links(1) [OF lm] upd_mb_links(5) [OF lo] by (cases ?old) (simp_all add: s2_def s1_def [symmetric], simp_all add: s1_def)
  have v: "mprev s2 = (mprev s)(m := ?old)"
    using upd_mb_links(2) [OF lm] upd_mb_links(6) [OF lo] by (cases ?old) (simp_all add: s2_def s1_def [symmetric], simp_all add: s1_def)
  have q3: "q_first (queues s3 q) = (case ?old of None \<Rightarrow> Some m | Some _ \<Rightarrow> q_first (queues s q))" "q_last (queues s3 q) = Some m"
    by (simp_all add: s3_def s2_def s1_def split: option.split)
  have d3: "dlist (mnext s3) (mprev s3) (q_first (queues s3 q)) (q_last (queues s3 q)) (ms @ [m])"
    using dlist_snoc [OF d m(2)] n v q3 by (simp add: s3_def link_upd)
  obtain k where k: "msgdsize (Some m) s3 = Some k" using m(1) sendable_core [OF c, of m] by (auto simp: sendable_def)
  let ?s = "upd_q q (\<lambda>r. let c = q_count r + k in
    r\<lparr>q_count := c, q_flag := (if sint c \<ge> q_hiwat r then q_flag r OR QFULL else q_flag r)\<rparr>) s3"
  have p: "putq q m s = Some ?s" using k by (simp add: putq_def Let_def s3_def s2_def s1_def)
  have "dlist (mnext ?s) (mprev ?s) (q_first (queues ?s q)) (q_last (queues ?s q)) (ms @ [m])"
    using d3 by (simp add: link_upd Let_def)
  moreover have "core ?s = core s" using c by simp
  ultimately show ?thesis using p r m(1) sendable_core [of ?s s] unfolding qrep_def by auto
qed

lemma getq_rep:
  assumes r: "qrep q s (m # ms)"
  shows "\<exists>s'. getq q s = Some (Some m, s') \<and> qrep q s' ms"
proof -
  have d: "dlist (mnext s) (mprev s) (q_first (queues s q)) (q_last (queues s q)) (m # ms)"
    and sd: "\<forall>x \<in> set (m # ms). sendable x s" using r by (auto simp: qrep_def)
  obtain mp where mp: "mblks s m = Some mp" using sd sendable_live [of m s] by auto
  let ?nx = "b_next mp"
  have f: "q_first (queues s q) = Some m" "mnext s m = ?nx" "mprev s m = None"
    using d dlist_prev [of "mnext s" "mprev s" _ _ "[]" m ms] mp by (auto simp: dlist_def mnext_def)
  have nh: "?nx = (case ms of [] \<Rightarrow> None | x # _ \<Rightarrow> Some x)" using dlist_next [of "mnext s" "mprev s" _ _ "[]" m ms] d f(2) by auto
  define s1 where "s1 = upd_mb ?nx (\<lambda>b. b\<lparr>b_prev := None\<rparr>) s"
  define s2 where "s2 = upd_q q (\<lambda>r. r\<lparr>q_first := ?nx, q_last := (if ?nx = None then None else q_last r)\<rparr>) s1"
  define s3 where "s3 = upd_mb (Some m) (\<lambda>b. b\<lparr>b_next := None, b_prev := None\<rparr>) s2"
  have c: "core s3 = core s" by (simp add: s3_def s2_def s1_def)
  have ln: "mblks s x \<noteq> None" if "?nx = Some x" for x
    using that nh sd sendable_live [of x s] by (auto split: list.splits)
  have l2: "mblks s2 m \<noteq> None" using mp by (simp add: s2_def s1_def)
  have n3: "mnext s3 = (mnext s)(m := None)"
    using upd_mb_links(1) [OF l2] upd_mb_links(8) [OF ln] by (cases ?nx) (simp_all add: s3_def, simp_all add: s2_def s1_def link_upd)
  have v3: "mprev s3 = (skip_link (mprev s) ?nx None)(m := None)"
    using upd_mb_links(2) [OF l2] upd_mb_links(7) [OF ln] by (cases ?nx) (simp_all add: s3_def, simp_all add: s2_def s1_def link_upd skip_link_def)
  have d3: "dlist (mnext s3) (mprev s3) (q_first (queues s3 q)) (q_last (queues s3 q)) ms"
  proof -
    have q3: "q_first (queues s3 q) = ?nx" "q_last (queues s3 q) = (if ?nx = None then None else q_last (queues s q))"
      by (simp_all add: s3_def s2_def s1_def)
    have "dlist ((skip_link (mnext s) None ?nx)(m := None)) ((skip_link (mprev s) ?nx None)(m := None)) ?nx
        (if ?nx = None then None else q_last (queues s q)) ms"
      using dlist_unlink [of "mnext s" "mprev s" "q_first (queues s q)" "q_last (queues s q)" "[]" m ms] d f(2,3)
      by (cases ?nx) simp_all
    moreover have "skip_link (mnext s) None ?nx = mnext s" by (simp add: skip_link_def)
    ultimately show ?thesis unfolding n3 v3 q3 by simp
  qed
  obtain k where k: "msgdsize (Some m) s3 = Some k" using sd sendable_core [OF c, of m] by (auto simp: sendable_def)
  let ?s = "upd_q q (\<lambda>r. let c = q_count r - k in
    r\<lparr>q_count := c, q_flag := (if sint c \<le> q_lowat r then q_flag r AND NOT QFULL else q_flag r)\<rparr>) s3"
  have g: "getq q s = Some (Some m, ?s)" using f(1) mp k by (simp add: getq_def Let_def s3_def s2_def s1_def)
  have "dlist (mnext ?s) (mprev ?s) (q_first (queues ?s q)) (q_last (queues ?s q)) ms" using d3 by (simp add: link_upd Let_def)
  moreover have "core ?s = core s" using c by simp
  ultimately show ?thesis using g sd sendable_core [of ?s s] unfolding qrep_def by auto
qed

lemma getq_empty: "qrep q s [] \<Longrightarrow> getq q s = Some (None, s)"
  by (simp add: qrep_def getq_def)

text \<open>A message queue as its users see it.\<close>

locale msg_queue =
  fixes rep :: "'s \<Rightarrow> 'm list \<Rightarrow> bool" and fit :: "'m \<Rightarrow> 's \<Rightarrow> bool" and enq :: "'m \<Rightarrow> 's \<Rightarrow> 's option"
    and deq :: "'s \<Rightarrow> ('m option \<times> 's) option"
  assumes enq_rep: "rep s ms \<Longrightarrow> fit m s \<Longrightarrow> m \<notin> set ms \<Longrightarrow> \<exists>s'. enq m s = Some s' \<and> rep s' (ms @ [m]) \<and> (\<forall>x. fit x s \<longrightarrow> fit x s')"
    and deq_rep: "rep s (m # ms) \<Longrightarrow> \<exists>s'. deq s = Some (Some m, s') \<and> rep s' ms"
    and deq_empty: "rep s [] \<Longrightarrow> deq s = Some (None, s)"
begin

lemma enq_all_rep:
  assumes "rep s ms" "distinct (ms @ xs)" "\<forall>x \<in> set xs. fit x s"
  shows "\<exists>s'. enq_all enq xs s = Some s' \<and> rep s' (ms @ xs)"
  using assms
proof (induction xs arbitrary: s ms)
  case (Cons x xs)
  obtain s1 where s1: "enq x s = Some s1" "rep s1 (ms @ [x])" "\<forall>y. fit y s \<longrightarrow> fit y s1"
    using enq_rep [OF Cons.prems(1), of x] Cons.prems by auto
  have "\<exists>s'. enq_all enq xs s1 = Some s' \<and> rep s' ((ms @ [x]) @ xs)"
    using Cons.prems s1 by (intro Cons.IH) auto
  then show ?case using s1(1) by simp
qed auto

lemma deq_n_rep: "rep s ms \<Longrightarrow> \<exists>s'. deq_n deq (length ms) s = Some (map Some ms, s') \<and> rep s' []"
proof (induction ms arbitrary: s)
  case (Cons m ms)
  obtain s1 where "deq s = Some (Some m, s1)" "rep s1 ms" using deq_rep [OF Cons.prems] by blast
  then show ?case using Cons.IH [of s1] by auto
qed auto

end

interpretation strq: msg_queue "qrep q" sendable "putq q" "getq q" for q
proof
  show "\<exists>s'. putq q m s = Some s' \<and> qrep q s' (ms @ [m]) \<and> (\<forall>x. sendable x s \<longrightarrow> sendable x s')"
    if "qrep q s ms" "sendable m s" "m \<notin> set ms" for s ms m
    using putq_rep [OF that] sendable_core by blast
qed (rule getq_rep getq_empty, assumption)+

subsection \<open>Service list\<close>

lemma pop_rep:
  assumes "srvq cpu s (q # qs)"
  shows "srvq_head s cpu = Some q" "srvq cpu (srvq_pop cpu q s) qs" "q_qinfo (queues (srvq_pop cpu q s) q) = q_qinfo (queues s q)"
proof -
  let ?s = "srvq_pop cpu q s"
  have l: "srvq_head s cpu = Some q" "slist (\<lambda>q. q_runlink (queues s q)) (q_runlink (queues s q)) qs"
    and t: "srvq_tail s cpu = Some (last (q # qs))" and f: "\<forall>x \<in> set qs. flag (q_flag (queues s x)) QENAB"
    using assms by (auto simp: srvq_def)
  have nq: "q \<notin> set qs" using slist_distinct [of "\<lambda>q. q_runlink (queues s q)" "srvq_head s cpu" "q # qs"] assms by (simp add: srvq_def)
  have e: "queues ?s x = queues s x" if "x \<noteq> q" for x using that by (simp add: srvq_pop_def Let_def)
  have "slist (\<lambda>q. q_runlink (queues ?s q)) (q_runlink (queues s q)) qs"
    using l(2) slist_cong [of qs "\<lambda>q. q_runlink (queues s q)" "\<lambda>q. q_runlink (queues ?s q)"] e nq by metis
  moreover have "srvq_head ?s cpu = q_runlink (queues s q)" by (simp add: srvq_pop_def Let_def)
  moreover have "q_runlink (queues s q) = None \<longleftrightarrow> qs = []" using l(2) by (cases qs) auto
  then have "srvq_tail ?s cpu = (if qs = [] then None else Some (last qs))" using t by (simp add: srvq_pop_def Let_def)
  moreover have "\<forall>x \<in> set qs. flag (q_flag (queues ?s x)) QENAB" using f e nq by metis
  ultimately show "srvq cpu ?s qs" by (simp add: srvq_def)
  show "srvq_head s cpu = Some q" by (rule l(1))
  show "q_qinfo (queues ?s q) = q_qinfo (queues s q)" by (simp add: srvq_pop_def Let_def)
qed

lemma srvq_running [simp]: "srvq cpu (s\<lparr>streams_running := f\<rparr>) qs = srvq cpu s qs"
  by (simp add: srvq_def)

subsection \<open>Properties\<close>

lemma empty_inv: "ref_inv empty_strm"
  by (rule ref_invI) (auto simp: empty_strm_def uses_def)

text \<open>
  C5. Whatever messages are allocated, duplicated, queued, taken off queues and freed, in any order,
  every message block uses a live data block whose count is exactly the number of message blocks
  that use it; so freeing any live block succeeds and never frees a buffer that is still in use.
\<close>
theorem blocks_safe:
  assumes "ref_inv s" "blk_step\<^sup>*\<^sup>* s s'" "mblks s' m = Some mb"
  shows "\<exists>db s2. dblks s' (b_datap mb) = Some db \<and> db_ref db = int (card (uses s' (b_datap mb)))
    \<and> freeb (Some m) s' = Some s2 \<and> (dblks s2 (b_datap mb) = None \<longleftrightarrow> uses s' (b_datap mb) = {m})"
proof -
  have step: "ref_inv t'" if i: "ref_inv t" and st: "blk_step t t'" for t t'
    using st
  proof cases
    case (alloc_step n p)
    then show ?thesis using allocb_inv [OF i] by blast
  next
    case (free_step m)
    then obtain mp where "mblks t m = Some mp" by (auto simp: freeb_def bind_eq_Some_conv)
    then show ?thesis using freeb_inv [OF i] free_step by (metis option.inject)
  next
    case (dup_step m p)
    then show ?thesis using dupb_inv [OF i] by blast
  next
    case (putq_step q m)
    then show ?thesis by (intro ref_inv_core [OF i]) (auto simp: putq_def Let_def bind_eq_Some_conv)
  next
    case (putbq_step q m)
    then show ?thesis by (intro ref_inv_core [OF i]) (auto simp: putbq_def Let_def bind_eq_Some_conv)
  next
    case (getq_step q p)
    then show ?thesis by (intro ref_inv_core [OF i]) (auto simp: getq_def Let_def bind_eq_Some_conv split: option.splits)
  qed
  have i: "ref_inv s'" using assms(2,1) by (induction rule: rtranclp_induct) (auto intro: step)
  have mu: "m \<in> uses s' (b_datap mb)" using assms(3) by (simp add: uses_def)
  then obtain db where db: "dblks s' (b_datap mb) = Some db" using ref_invD(4) [OF i] by fastforce
  have c: "db_ref db = int (card (uses s' (b_datap mb)))" by (rule ref_invD(6) [OF i db])
  have one: "db_ref db = 1 \<longleftrightarrow> uses s' (b_datap mb) = {m}"
    using c mu by (auto simp: card_1_singleton_iff)
  show ?thesis using db c one assms(3) by (auto simp: freeb_def)
qed

theorem blocks_safe_witness:
  "\<exists>db. dblks (snd (allocb 4 empty_strm)) 0 = Some db \<and> db_ref db = 1"
proof -
  let ?s = "snd (allocb 4 empty_strm)"
  have r: "blk_step\<^sup>*\<^sup>* empty_strm ?s" by (rule r_into_rtranclp, rule alloc_step, rule prod.collapse [symmetric])
  have m: "mblks ?s = [2 \<mapsto> \<lparr>b_next = None, b_prev = None, b_cont = None, b_rptr = 0, b_wptr = 0, b_datap = 0, b_band = 0, b_flag = 0\<rparr>]"
    by (simp add: allocb_def request_def empty_strm_def numeral_2_eq_2)
  have "uses ?s 0 = {2}" by (auto simp: uses_def m)
  then show ?thesis using blocks_safe [OF empty_inv r, of 2] m by auto
qed

text \<open>
  C23. A queue is first-in first-out: messages queued on it behind what was already there come off in
  exactly that order, and then the queue is empty.
\<close>
theorem queue_order:
  assumes "qrep q s ms" "distinct (ms @ xs)" "\<forall>x \<in> set xs. sendable x s"
  shows "\<exists>s1 s2. enq_all (putq q) xs s = Some s1 \<and> deq_n (getq q) (length ms + length xs) s1 = Some (map Some (ms @ xs), s2)
    \<and> getq q s2 = Some (None, s2)"
proof -
  obtain s1 where "enq_all (putq q) xs s = Some s1" "qrep q s1 (ms @ xs)" using strq.enq_all_rep [OF assms] by blast
  moreover from this(2) obtain s2 where "deq_n (getq q) (length (ms @ xs)) s1 = Some (map Some (ms @ xs), s2)" "qrep q s2 []"
    using strq.deq_n_rep by blast
  ultimately show ?thesis using getq_empty by auto
qed

theorem queue_order_witness:
  "\<exists>s1 s2. enq_all (putq 0) [2] (snd (allocb 4 empty_strm)) = Some s1 \<and> deq_n (getq 0) 1 s1 = Some ([Some 2], s2)"
proof -
  let ?s = "snd (allocb 4 empty_strm)"
  have "qrep 0 ?s []" by (simp add: qrep_def allocb_def request_def empty_strm_def zero_queue_def)
  moreover have "sendable 2 ?s" by (simp add: sendable_def msgdsize.simps allocb_def request_def empty_strm_def numeral_2_eq_2)
  ultimately show ?thesis using queue_order [of 0 ?s "[]" "[2]"] by auto
qed

end
