(* ===== verification/Delay.thy ===== *)
theory Delay
  imports Streams
begin

text \<open>
  The \<open>delay\<close> module of \<open>uts/os/io/stream_head.c\<close> and the service run over it. A delay queue keeps
  every message and enables its own service procedure, which hands the messages to the next queue;
  when that is a delay queue too, it becomes enabled while the run is going on. At the top the
  stream head keeps data messages for readers. The theorem: a run over any stack of delay queues
  ends, with every message on the stream head, in order.
\<close>

section \<open>Definitions\<close>

definition M_HANGUP :: u8 where [consts_def]: "M_HANGUP = 7"

text \<open>The numbers of the procedures of this file that a queue may name.\<close>

definition SH_RQ :: nat where "SH_RQ = 0"
definition DELAY :: nat where "DELAY = 1"

definition sh_minfo :: module_info where
  "sh_minfo = \<lparr>mi_minpsz = 0, mi_maxpsz = 4096, mi_hiwat = 16384, mi_lowat = 8192\<rparr>"

definition sh_rinit :: qinit where
  "sh_rinit = \<lparr>qi_putp = Some SH_RQ, qi_srvp = None, qi_minfo = Some sh_minfo\<rparr>"

definition delay_minfo :: module_info where
  "delay_minfo = \<lparr>mi_minpsz = 0, mi_maxpsz = 4096, mi_hiwat = 16384, mi_lowat = 8192\<rparr>"

definition delay_rinit :: qinit where
  "delay_rinit = \<lparr>qi_putp = Some DELAY, qi_srvp = Some DELAY, qi_minfo = Some delay_minfo\<rparr>"

definition delay_putp :: "nat \<Rightarrow> nat \<Rightarrow> nat ptr \<Rightarrow> strm \<Rightarrow> (int \<times> strm) option" where
  "delay_putp cpu q mp s = do { m \<leftarrow> mp; s1 \<leftarrow> putq q m s; Some (0, qenable cpu (Some q) s1) }"

text \<open>
  The read side of the stream head for a message that is queued for readers. The control messages
  (hangup and the answers to an ioctl) change the head's own state, which is not part of this model.
\<close>

definition is_data :: "nat \<Rightarrow> strm \<Rightarrow> bool" where
  "is_data m s = (case Option.bind (mblks s m) (\<lambda>mb. dblks s (b_datap mb)) of None \<Rightarrow> False
     | Some db \<Rightarrow> db_type db \<noteq> M_IOCACK \<and> db_type db \<noteq> M_IOCNAK \<and> db_type db \<noteq> M_HANGUP)"

definition sh_rq_data :: "nat \<Rightarrow> nat ptr \<Rightarrow> strm \<Rightarrow> (int \<times> strm) option" where
  "sh_rq_data q mp s = do { m \<leftarrow> mp; if is_data m s then do { s1 \<leftarrow> putq q m s; Some (0, s1) } else None }"

definition stack_putp :: "nat \<Rightarrow> nat \<Rightarrow> nat \<Rightarrow> nat ptr \<Rightarrow> strm \<Rightarrow> (int \<times> strm) option" where
  "stack_putp cpu k = (if k = DELAY then delay_putp cpu else if k = SH_RQ then sh_rq_data else (\<lambda>_ _ _. None))"

partial_function (option) delay_srvp :: "nat \<Rightarrow> nat \<Rightarrow> strm \<Rightarrow> strm option" where
  [code]: "delay_srvp cpu q s =
     do { (mp, s1) \<leftarrow> getq q s;
          (case mp of None \<Rightarrow> Some s1
           | Some m \<Rightarrow> do { (_, s2) \<leftarrow> putnext (stack_putp cpu) q (Some m) s1; delay_srvp cpu q s2 }) }"

definition stack_srvp :: "nat \<Rightarrow> nat \<Rightarrow> nat \<Rightarrow> strm \<Rightarrow> strm option" where
  "stack_srvp cpu k = (if k = DELAY then delay_srvp cpu else (\<lambda>_ _. None))"

subsection \<open>Stacks of delay queues\<close>

text \<open>Delay queues, each below the next one, with a stream head on top.\<close>

fun linked :: "strm \<Rightarrow> nat list \<Rightarrow> bool" where
  "linked s [] = False"
| "linked s [h] = (q_qinfo (queues s h) = Some sh_rinit)"
| "linked s (q # r # rs) = (q_qinfo (queues s q) = Some delay_rinit \<and> q_next (queues s q) = Some r \<and> linked s (r # rs))"

definition enabled :: "strm \<Rightarrow> nat \<Rightarrow> bool" where
  "enabled s q = flag (q_flag (queues s q)) QENAB"

text \<open>The messages of a stack in the order they reach the top.\<close>

definition flow :: "(nat \<Rightarrow> nat list) \<Rightarrow> nat list \<Rightarrow> nat list" where
  "flow c qs = concat (map c (rev qs))"

text \<open>
  The stack \<open>qs\<close> holds the messages \<open>c q\<close> on each queue \<open>q\<close>, no message twice, and the queues \<open>ps\<close>
  of it wait for service.
\<close>

definition stacked :: "nat \<Rightarrow> nat list \<Rightarrow> strm \<Rightarrow> (nat \<Rightarrow> nat list) \<Rightarrow> nat list \<Rightarrow> bool" where
  "stacked cpu qs s c ps \<longleftrightarrow> distinct qs \<and> linked s qs \<and> (\<forall>q \<in> set qs. qrep q s (c q))
     \<and> distinct (flow c qs) \<and> (\<forall>m \<in> set (flow c qs). is_data m s)
     \<and> srvq cpu s ps \<and> set ps \<subseteq> set (butlast qs) \<and> (\<forall>q \<in> set (butlast qs). enabled s q \<longleftrightarrow> q \<in> set ps)"

text \<open>Every delay queue of the stack that holds a message waits for service.\<close>

definition due :: "nat list \<Rightarrow> (nat \<Rightarrow> nat list) \<Rightarrow> nat list \<Rightarrow> bool" where
  "due qs c ps \<longleftrightarrow> (\<forall>q \<in> set (butlast qs). c q \<noteq> [] \<longrightarrow> q \<in> set ps)"

text \<open>Writing messages to a queue, one after the other.\<close>

definition put_all :: "nat \<Rightarrow> nat \<Rightarrow> nat list \<Rightarrow> strm \<Rightarrow> strm option" where
  "put_all cpu q = enq_all (\<lambda>m s. map_option snd (put (stack_putp cpu) (Some q) (Some m) s))"

text \<open>The number of moves the messages need to reach the top.\<close>

primrec moves :: "(nat \<Rightarrow> nat list) \<Rightarrow> nat list \<Rightarrow> nat" where
  "moves c [] = 0"
| "moves c (q # qs) = length qs * length (c q) + moves c qs"

text \<open>What a queue operation leaves alone: the service list and the wiring of the queues.\<close>

definition wired :: "strm \<Rightarrow> strm \<Rightarrow> bool" where
  "wired s s' \<longleftrightarrow> dblks s' = dblks s \<and> core s' = core s \<and> streams_running s' = streams_running s
     \<and> (\<forall>q. q_qinfo (queues s' q) = q_qinfo (queues s q) \<and> q_next (queues s' q) = q_next (queues s q))"

definition sched_same :: "strm \<Rightarrow> strm \<Rightarrow> bool" where
  "sched_same s s' \<longleftrightarrow> srvq_head s' = srvq_head s \<and> srvq_tail s' = srvq_tail s
     \<and> (\<forall>q. q_runlink (queues s' q) = q_runlink (queues s q) \<and> enabled s' q = enabled s q)"

text \<open>Two delay queues below a stream head, and two messages that are on no queue yet.\<close>

definition sample_stack :: strm where
  "sample_stack = snd (allocb 4 (snd (allocb 4 (empty_strm\<lparr>queues := (\<lambda>_. zero_queue)(
     0 := limits (Some delay_rinit) (zero_queue\<lparr>q_qinfo := Some delay_rinit, q_next := Some 1\<rparr>),
     1 := limits (Some delay_rinit) (zero_queue\<lparr>q_qinfo := Some delay_rinit, q_next := Some 2\<rparr>),
     2 := limits (Some sh_rinit) (zero_queue\<lparr>q_qinfo := Some sh_rinit\<rparr>))\<rparr>))))"

section \<open>Lemmas\<close>

lemma qenab_bits [simp]: "\<not> flag QFULL QENAB" "flag QENAB QENAB" "QENAB AND NOT QFULL = QENAB" "QENAB AND NOT QENAB = 0"
  by (simp_all add: consts_def flag_def)

lemma linked_split: "linked s (as @ q # r # bs) \<Longrightarrow> q_qinfo (queues s q) = Some delay_rinit \<and> q_next (queues s q) = Some r"
  by (induction s as rule: linked.induct) auto

lemma linked_top: "linked s (as @ [h]) \<Longrightarrow> q_qinfo (queues s h) = Some sh_rinit"
  by (induction s as rule: linked.induct) auto

lemma linked_wired: "wired s s' \<Longrightarrow> linked s' qs = linked s qs"
  by (induction s qs rule: linked.induct) (auto simp: wired_def)

lemma is_data_wired: "wired s s' \<Longrightarrow> is_data m s' = is_data m s"
proof -
  assume w: "wired s s'"
  then have "core s' m = core s m" "dblks s' = dblks s" by (simp_all add: wired_def)
  then show ?thesis by (cases "mblks s m"; cases "mblks s' m") (auto simp: is_data_def core_def)
qed

lemma srvq_sched: "sched_same s s' \<Longrightarrow> srvq cpu s' ps = srvq cpu s ps"
  by (simp add: sched_same_def srvq_def enabled_def)

lemma wired_trans: "wired s t \<Longrightarrow> wired t u \<Longrightarrow> wired s u"
  by (simp add: wired_def)

lemma sched_trans: "sched_same s t \<Longrightarrow> sched_same t u \<Longrightarrow> sched_same s u"
  by (simp add: sched_same_def)

lemma upd_mb_frame: "x \<notin> set_option p \<Longrightarrow> mblks (upd_mb p f s) x = mblks s x"
  by (auto simp: upd_mb_def split: option.split)

text \<open>A queue keeps its messages when neither they nor its own ends change.\<close>

lemma qrep_frame:
  assumes r: "qrep q s ms" and e: "q_first (queues s' q) = q_first (queues s q)" "q_last (queues s' q) = q_last (queues s q)"
    and m: "\<And>x. x \<in> set ms \<Longrightarrow> mblks s' x = mblks s x" and c: "core s' = core s"
  shows "qrep q s' ms"
proof -
  have "dlist (mnext s') (mprev s') (q_first (queues s q)) (q_last (queues s q)) ms"
    using r m dlist_cong [of ms "mnext s" "mnext s'" "mprev s" "mprev s'"] by (simp add: qrep_def mnext_def mprev_def)
  then show ?thesis using r e sendable_core [OF c] by (simp add: qrep_def)
qed

lemma putq_frame:
  assumes "putq q m s = Some s'"
  shows "wired s s'" "sched_same s s'" "p \<noteq> q \<Longrightarrow> queues s' p = queues s p"
    "x \<noteq> m \<Longrightarrow> q_last (queues s q) \<noteq> Some x \<Longrightarrow> mblks s' x = mblks s x"
  using assms by (auto simp: putq_def Let_def bind_eq_Some_conv wired_def sched_same_def enabled_def upd_mb_frame split: if_splits)

lemma getq_frame:
  assumes "getq q s = Some (Some m, s')"
  shows "wired s s'" "sched_same s s'" "p \<noteq> q \<Longrightarrow> queues s' p = queues s p"
    "x \<noteq> m \<Longrightarrow> mnext s m \<noteq> Some x \<Longrightarrow> mblks s' x = mblks s x"
  using assms by (auto simp: getq_def Let_def bind_eq_Some_conv wired_def sched_same_def enabled_def upd_mb_frame mnext_def
    split: option.splits if_splits)

lemma qenable_rep:
  assumes v: "srvq cpu s ps" "enabled s q \<longleftrightarrow> q \<in> set ps" and qi: "q_qinfo (queues s q) = Some delay_rinit"
  shows "srvq cpu (qenable cpu (Some q) s) (if q \<in> set ps then ps else ps @ [q])"
proof (cases "q \<in> set ps")
  case True
  then show ?thesis using v qi by (simp add: qenable_def enabled_def delay_rinit_def)
next
  case False
  let ?rl = "\<lambda>x. q_runlink (queues s x)"
  define s1 where "s1 = upd_q q (\<lambda>r. r\<lparr>q_flag := q_flag r OR QENAB, q_runlink := None\<rparr>) s"
  have e: "qenable cpu (Some q) s = (let s2 = (case srvq_tail s1 cpu of None \<Rightarrow> s1\<lparr>srvq_head := (srvq_head s1)(cpu := Some q)\<rparr>
        | Some t \<Rightarrow> upd_q t (\<lambda>r. r\<lparr>q_runlink := Some q\<rparr>) s1) in s2\<lparr>srvq_tail := (srvq_tail s2)(cpu := Some q)\<rparr>)"
    using False v(2) qi unfolding s1_def by (simp add: qenable_def enabled_def delay_rinit_def Let_def)
  have f: "\<forall>x \<in> set ps. flag (q_flag (queues s x)) QENAB" and sl: "slist ?rl (srvq_head s cpu) ps"
    and t: "srvq_tail s cpu = (if ps = [] then None else Some (last ps))" using v(1) by (auto simp: srvq_def)
  show ?thesis
  proof (cases ps rule: rev_cases)
    case Nil
    then show ?thesis using t False unfolding e by (simp add: s1_def srvq_def)
  next
    case (snoc as a)
    define s2 where "s2 = upd_q a (\<lambda>r. r\<lparr>q_runlink := Some q\<rparr>) s1"
    have e2: "qenable cpu (Some q) s = s2\<lparr>srvq_tail := (srvq_tail s2)(cpu := Some q)\<rparr>"
      using t unfolding e by (simp add: s1_def s2_def snoc)
    have "?rl(q := None, a := Some q) = (\<lambda>x. q_runlink (queues s2 x))" using False by (auto simp: s1_def s2_def snoc)
    then have "slist (\<lambda>x. q_runlink (queues s2 x)) (srvq_head s2 cpu) (as @ [a, q])"
      using slist_snoc [of ?rl "srvq_head s cpu" as a q] sl False by (simp add: snoc s1_def s2_def del: upd_simps(8))
    moreover have "\<forall>x \<in> set (as @ [a, q]). flag (q_flag (queues s2 x)) QENAB"
      using f by (auto simp: s1_def s2_def snoc)
    ultimately show ?thesis using False unfolding e2 by (simp add: srvq_def snoc)
  qed
qed

lemma qenable_frame:
  assumes "q_qinfo (queues s q) = Some delay_rinit"
  shows "wired s (qenable cpu (Some q) s)" "mblks (qenable cpu (Some q) s) = mblks s"
    "q_first (queues (qenable cpu (Some q) s) x) = q_first (queues s x)" "q_last (queues (qenable cpu (Some q) s) x) = q_last (queues s x)"
    "enabled (qenable cpu (Some q) s) x \<longleftrightarrow> x = q \<or> enabled s x"
proof -
  have c: "core s' = core s" if "mblks s' = mblks s" for s' using that by (simp add: core_def fun_eq_iff)
  show "mblks (qenable cpu (Some q) s) = mblks s" by (auto simp: qenable_def Let_def split: option.split)
  from c [OF this] show "wired s (qenable cpu (Some q) s)" by (auto simp: wired_def qenable_def Let_def split: option.split)
  show "q_first (queues (qenable cpu (Some q) s) x) = q_first (queues s x)" "q_last (queues (qenable cpu (Some q) s) x) = q_last (queues s x)"
    by (auto simp: qenable_def Let_def split: option.split)
  show "enabled (qenable cpu (Some q) s) x \<longleftrightarrow> x = q \<or> enabled s x"
    using assms by (auto simp: qenable_def Let_def enabled_def delay_rinit_def split: option.split)
qed


lemma dlist_mem_next: "dlist nx pv h t xs \<Longrightarrow> m \<in> set xs \<Longrightarrow> nx m = Some y \<Longrightarrow> y \<in> set xs"
  by (auto dest!: split_list dest: dlist_next split: list.splits)

lemma qrep_distinct: "qrep q s ms \<Longrightarrow> distinct ms"
  unfolding qrep_def by (blast dest: dlist_distinct)

lemma flow_simps [simp]: "flow c [] = []" "flow c (q # qs) = flow c qs @ c q" "flow c (as @ bs) = flow c bs @ flow c as"
  by (simp_all add: flow_def)

lemma set_flow: "set (flow c qs) = (\<Union>q \<in> set qs. set (c q))"
  by (auto simp: flow_def)

lemma flow_cong: "(\<And>q. q \<in> set qs \<Longrightarrow> c q = c' q) \<Longrightarrow> flow c qs = flow c' qs"
  by (induction qs) auto

lemma flow_upd [simp]: "q \<notin> set qs \<Longrightarrow> flow (c(q := x)) qs = flow c qs"
  by (rule flow_cong) auto

lemma moves_upd [simp]: "q \<notin> set qs \<Longrightarrow> moves (c(q := x)) qs = moves c qs"
  by (induction qs) auto

lemma flow_last: "qs \<noteq> [] \<Longrightarrow> flow c qs = c (last qs) @ flow c (butlast qs)"
  by (cases qs rule: rev_cases) auto

lemma in_butlast: "p \<in> set qs \<Longrightarrow> p \<noteq> last qs \<Longrightarrow> p \<in> set (butlast qs)"
  by (cases qs rule: rev_cases) auto

lemma butlast_split:
  assumes "q \<in> set (butlast qs)"
  obtains as n bs where "qs = as @ q # n # bs"
proof -
  obtain as rs where b: "butlast qs = as @ q # rs" using assms by (auto dest: split_list)
  then have "qs = as @ q # rs @ [last qs]" by (metis append_butlast_last_id append.assoc append_Cons butlast.simps(1) list.distinct(1) append_is_Nil_conv)
  then show ?thesis using that by (cases rs) auto
qed

lemma flow_disjoint:
  assumes "distinct (flow c qs)" "distinct qs" "p \<in> set qs" "q \<in> set qs" "p \<noteq> q"
  shows "set (c p) \<inter> set (c q) = {}"
  using assms by (induction qs) (auto simp: set_flow)

text \<open>The order of the messages does not change when a queue hands all of its messages to the next.\<close>

lemma flow_shift:
  assumes "distinct (as @ q # n # bs)"
  shows "flow (c(q := [], n := c n @ c q)) (as @ q # n # bs) = flow c (as @ q # n # bs)"
    "moves (c(q := [], n := c n @ c q)) (as @ q # n # bs) + length (c q) = moves c (as @ q # n # bs)"
  using assms by (simp, induction as) (auto simp: algebra_simps)

lemma stacked_data: "stacked cpu qs s c ps \<Longrightarrow> m \<in> set (c q) \<Longrightarrow> q \<in> set qs \<Longrightarrow> is_data m s \<and> sendable m s"
  by (auto simp: stacked_def set_flow qrep_def)

text \<open>Taking a message off a queue of the stack, and putting one on a queue.\<close>

lemma stacked_getq:
  assumes st: "stacked cpu qs s c ps" and q: "q \<in> set qs" "c q = m # ms"
  obtains s1 where "getq q s = Some (Some m, s1)" "wired s s1" "stacked cpu qs s1 (c(q := ms)) ps" "m \<notin> set (flow (c(q := ms)) qs)"
proof -
  have d: "distinct (flow c qs)" "distinct qs" and rq: "qrep q s (m # ms)" using st q by (auto simp: stacked_def)
  note dj = flow_disjoint [OF d]
  obtain s1 where s1: "getq q s = Some (Some m, s1)" "qrep q s1 ms" using getq_rep [OF rq] by blast
  note g = getq_frame [OF s1(1)]
  have mn: "y \<in> set (c q)" if "mnext s m = Some y" for y
    using rq that q(2) dlist_mem_next [of "mnext s" "mprev s" _ _ "m # ms" m y] by (auto simp: qrep_def)
  have r1: "qrep p s1 (c p)" if "p \<in> set qs" "p \<noteq> q" for p
  proof (rule qrep_frame [of p s])
    show "mblks s1 x = mblks s x" if "x \<in> set (c p)" for x
      using g(4) dj [OF \<open>p \<in> set qs\<close> q(1) \<open>p \<noteq> q\<close>] mn that q(2) by fastforce
  qed (use st that g(1,3) in \<open>auto simp: wired_def stacked_def\<close>)
  obtain as bs where qs: "qs = as @ q # bs" using q(1) by (auto dest: split_list)
  have f: "distinct (flow (c(q := ms)) qs)" "m \<notin> set (flow (c(q := ms)) qs)" "set (flow (c(q := ms)) qs) \<subseteq> set (flow c qs)"
    using d q(2) by (auto simp: qs)
  have "stacked cpu qs s1 (c(q := ms)) ps"
    using st s1(2) r1 f linked_wired [OF g(1)] is_data_wired [OF g(1)] srvq_sched [OF g(2)] g(2) unfolding stacked_def sched_same_def
    by auto
  then show ?thesis using that s1(1) g(1) f(2) by blast
qed

lemma stacked_putq:
  assumes st: "stacked cpu qs s c ps" and n: "n \<in> set qs" and m: "sendable m s" "is_data m s" "m \<notin> set (flow c qs)"
  obtains s1 where "putq n m s = Some s1" "wired s s1" "stacked cpu qs s1 (c(n := c n @ [m])) ps"
proof -
  have d: "distinct (flow c qs)" "distinct qs" and rn: "qrep n s (c n)" using st n by (auto simp: stacked_def)
  note dj = flow_disjoint [OF d]
  obtain s1 where s1: "putq n m s = Some s1" "qrep n s1 (c n @ [m])"
    using putq_rep [OF rn m(1)] m(3) n by (auto simp: set_flow)
  note f = putq_frame [OF s1(1)]
  have la: "y \<in> set (c n)" if "q_last (queues s n) = Some y" for y
    using rn that dlist_tail_Some [of "mnext s" "mprev s" "q_first (queues s n)" y "c n"] by (auto simp: qrep_def)
  have r1: "qrep p s1 (c p)" if "p \<in> set qs" "p \<noteq> n" for p
  proof (rule qrep_frame [of p s])
    show "mblks s1 x = mblks s x" if "x \<in> set (c p)" for x
      using f(4) [of x] la [of x] that m(3) \<open>p \<in> set qs\<close> dj [OF \<open>p \<in> set qs\<close> n \<open>p \<noteq> n\<close>] by (auto simp: set_flow)
  qed (use st that f(1,3) in \<open>auto simp: wired_def stacked_def\<close>)
  obtain as bs where qs: "qs = as @ n # bs" using n by (auto dest: split_list)
  have g: "distinct (flow (c(n := c n @ [m])) qs)" "set (flow (c(n := c n @ [m])) qs) = insert m (set (flow c qs))"
    using d m(3) by (auto simp: qs)
  have "stacked cpu qs s1 (c(n := c n @ [m])) ps"
    using st s1(2) r1 g m(2) linked_wired [OF f(1)] is_data_wired [OF f(1)] srvq_sched [OF f(2)] f(2) unfolding stacked_def sched_same_def
    by auto
  then show ?thesis using that s1(1) f(1) by blast
qed


text \<open>A message delivered to a queue of the stack is kept there, and a delay queue is enabled for it.\<close>

lemma stacked_put:
  assumes st: "stacked cpu (as @ n # bs) s c ps" and m: "sendable m s" "is_data m s" "m \<notin> set (flow c (as @ n # bs))"
  obtains s1 where "put (stack_putp cpu) (Some n) (Some m) s = Some (0, s1)" "wired s s1"
    "stacked cpu (as @ n # bs) s1 (c(n := c n @ [m])) (if bs = [] \<or> n \<in> set ps then ps else ps @ [n])"
proof -
  let ?qs = "as @ n # bs" and ?c = "c(n := c n @ [m])"
  obtain s1 where s1: "putq n m s = Some s1" "wired s s1" "stacked cpu ?qs s1 ?c ps" using stacked_putq [OF st _ m, of n] by auto
  have ls: "linked s ?qs" using st by (simp add: stacked_def)
  show ?thesis
  proof (cases bs)
    case Nil
    then have "q_qinfo (queues s n) = Some sh_rinit" using ls linked_top [of s as n] by simp
    then have "put (stack_putp cpu) (Some n) (Some m) s = Some (0, s1)"
      using m(2) s1(1) by (simp add: put_def sh_rinit_def stack_putp_def SH_RQ_def DELAY_def sh_rq_data_def)
    then show ?thesis using that s1(2,3) Nil by auto
  next
    case (Cons r rs)
    then have i: "q_qinfo (queues s n) = Some delay_rinit" using ls linked_split [of s as n r rs] by simp
    then have i1: "q_qinfo (queues s1 n) = Some delay_rinit" using s1(2) by (simp add: wired_def)
    define s2 where "s2 = qenable cpu (Some n) s1"
    have p: "put (stack_putp cpu) (Some n) (Some m) s = Some (0, s2)"
      using i s1(1) by (simp add: put_def delay_rinit_def stack_putp_def delay_putp_def s2_def)
    note f = qenable_frame [OF i1, of cpu, folded s2_def]
    have nb: "n \<in> set (butlast ?qs)" by (simp add: butlast_append Cons)
    have v: "srvq cpu s2 (if n \<in> set ps then ps else ps @ [n])"
      unfolding s2_def by (rule qenable_rep [OF _ _ i1]) (use s1(3) nb in \<open>auto simp: stacked_def\<close>)
    have "stacked cpu ?qs s2 ?c (if n \<in> set ps then ps else ps @ [n])"
    proof -
      have "qrep p s2 xs" if "qrep p s1 xs" for p xs
        by (rule qrep_frame [OF that f(3,4)]) (use f(1,2) in \<open>simp_all add: wired_def\<close>)
      then show ?thesis
        using s1(3) v nb f(5) linked_wired [OF f(1)] is_data_wired [OF f(1)] unfolding stacked_def by auto
    qed
    then show ?thesis using that [OF p wired_trans [OF s1(2) f(1)]] Cons by simp
  qed
qed

lemma delay_srvp_stack:
  assumes "stacked cpu (as @ q # n # bs) s c ps"
  shows "\<exists>s'. delay_srvp cpu q s = Some s' \<and> streams_running s' = streams_running s
    \<and> stacked cpu (as @ q # n # bs) s' (c(q := [], n := c n @ c q)) (if c q = [] \<or> bs = [] \<or> n \<in> set ps then ps else ps @ [n])"
  using assms
proof (induction "c q" arbitrary: s c ps)
  case Nil
  let ?qs = "as @ q # n # bs"
  have "getq q s = Some (None, s)" using Nil(2) Nil(1) getq_empty by (simp add: stacked_def)
  then have "delay_srvp cpu q s = Some s" by (simp add: delay_srvp.simps [of cpu q s])
  moreover have "c(q := [], n := c n @ c q) = c" using Nil(1) by (auto simp: fun_eq_iff)
  ultimately show ?case using Nil(1) Nil(2) by (intro exI [of _ s] conjI) (simp_all only: if_True simp_thms)
next
  case (Cons m ms)
  let ?qs = "as @ q # n # bs"
  have ne: "n \<noteq> q" using Cons.prems by (auto simp: stacked_def)
  obtain s1 where s1: "getq q s = Some (Some m, s1)" "wired s s1" "stacked cpu ?qs s1 (c(q := ms)) ps" "m \<notin> set (flow (c(q := ms)) ?qs)"
    by (rule stacked_getq [OF Cons.prems _ Cons.hyps(2) [symmetric]]) auto
  have m: "sendable m s1" "is_data m s1"
    using stacked_data [OF Cons.prems, of m q] Cons.hyps(2) [symmetric] is_data_wired [OF s1(2)] sendable_core [of s1 s m] s1(2)
    by (simp_all add: wired_def)
  let ?ps = "if bs = [] \<or> n \<in> set ps then ps else ps @ [n]"
  have st1: "stacked cpu ((as @ [q]) @ n # bs) s1 (c(q := ms)) ps" "m \<notin> set (flow (c(q := ms)) ((as @ [q]) @ n # bs))"
    using s1(3,4) by simp_all
  obtain s2 where s2': "put (stack_putp cpu) (Some n) (Some m) s1 = Some (0, s2)" "wired s1 s2"
      "stacked cpu ((as @ [q]) @ n # bs) s2 ((c(q := ms))(n := (c(q := ms)) n @ [m])) ?ps"
    by (rule stacked_put [OF st1(1) m st1(2)])
  have s2: "stacked cpu ?qs s2 ((c(q := ms))(n := c n @ [m])) ?ps" using s2'(3) ne by simp
  have "q_next (queues s1 q) = Some n" using s1(3) linked_split [of s1 as q n bs] by (simp add: stacked_def)
  then have pn: "putnext (stack_putp cpu) q (Some m) s1 = Some (0, s2)" using s2'(1) by (simp add: putnext_def)
  define c2 where "c2 = (c(q := ms))(n := c n @ [m])"
  have c2: "c2 q = ms" "c2 n = c n @ [m]" using ne by (auto simp: c2_def)
  obtain s3 where s3: "delay_srvp cpu q s2 = Some s3" "streams_running s3 = streams_running s2"
      "stacked cpu ?qs s3 (c2(q := [], n := c2 n @ c2 q)) (if c2 q = [] \<or> bs = [] \<or> n \<in> set ?ps then ?ps else ?ps @ [n])"
    using Cons.hyps(1) [of c2 s2 ?ps] c2(1) s2 unfolding c2_def by auto
  have e: "c2(q := [], n := c2 n @ c2 q) = c(q := [], n := c n @ c q)"
    using ne Cons.hyps(2) [symmetric] by (auto simp: c2_def fun_eq_iff)
  have "delay_srvp cpu q s = Some s3" using s1(1) pn s3(1) by (simp add: delay_srvp.simps [of cpu q s])
  moreover have "streams_running s3 = streams_running s" using s3(2) s1(2) s2'(2) by (simp add: wired_def)
  moreover have "(if c2 q = [] \<or> bs = [] \<or> n \<in> set ?ps then ?ps else ?ps @ [n]) = (if c q = [] \<or> bs = [] \<or> n \<in> set ps then ps else ps @ [n])"
    by (auto simp flip: Cons.hyps(2))
  ultimately show ?case using s3(3) unfolding e by auto
qed


lemma stacked_pop:
  assumes st: "stacked cpu qs s c (q # ps)"
  shows "stacked cpu qs (srvq_pop cpu q s) c ps" "streams_running (srvq_pop cpu q s) = streams_running s"
proof -
  define s1 where "s1 = srvq_pop cpu q s"
  have v: "srvq cpu s (q # ps)" using st by (simp add: stacked_def)
  have nq: "q \<notin> set ps" using v slist_distinct [of _ "srvq_head s cpu" "q # ps"] by (auto simp: srvq_def)
  have mb: "mblks s1 = mblks s" by (simp add: s1_def srvq_pop_def Let_def)
  then have "core s1 = core s" by (simp add: core_def fun_eq_iff)
  then have w: "wired s s1" by (auto simp: wired_def s1_def srvq_pop_def Let_def)
  have e: "q_first (queues s1 x) = q_first (queues s x)" "q_last (queues s1 x) = q_last (queues s x)"
      "enabled s1 x \<longleftrightarrow> x \<noteq> q \<and> enabled s x" for x
    by (auto simp: s1_def srvq_pop_def Let_def enabled_def)
  have "qrep p s1 xs" if "qrep p s xs" for p xs
    by (rule qrep_frame [OF that e(1,2)]) (use mb \<open>core s1 = core s\<close> in simp_all)
  then show "stacked cpu qs s1 c ps"
    using st nq e(3) pop_rep(2) [OF v, folded s1_def] linked_wired [OF w] is_data_wired [OF w] unfolding stacked_def by auto
  show "streams_running s1 = streams_running s" using w by (simp add: wired_def)
qed

lemma stacked_cong:
  assumes "stacked cpu qs s c ps" "\<And>q. q \<in> set qs \<Longrightarrow> c' q = c q"
  shows "stacked cpu qs s c' ps"
  using assms flow_cong [of qs c' c] by (auto simp: stacked_def)

lemma stacked_running [simp]: "stacked cpu qs (s\<lparr>streams_running := f\<rparr>) c ps = stacked cpu qs s c ps"
proof -
  have l: "linked (s\<lparr>streams_running := f\<rparr>) qs = linked s qs" by (induction s qs rule: linked.induct) auto
  have "sendable m (s\<lparr>streams_running := f\<rparr>) = sendable m s" for m
    by (rule sendable_core) (simp add: core_def fun_eq_iff)
  then show ?thesis using l
    by (simp add: stacked_def qrep_def is_data_def enabled_def mnext_def [abs_def] mprev_def [abs_def])
qed

text \<open>The run ends: every round takes a queue off the list or brings messages nearer to the top.\<close>

lemma run_loop_stack:
  assumes "stacked cpu qs s c ps" "due qs c ps"
  shows "\<exists>s' c'. run_loop (stack_srvp cpu) cpu s = Some s' \<and> streams_running s' = streams_running s
    \<and> stacked cpu qs s' c' [] \<and> due qs c' [] \<and> flow c' qs = flow c qs"
  using assms
proof (induction "2 * moves c qs + length ps" arbitrary: s c ps rule: less_induct)
  case less
  show ?case
  proof (cases ps)
    case Nil
    then have "srvq_head s cpu = None" using less.prems(1) by (simp add: stacked_def srvq_def)
    then show ?thesis using less.prems Nil by (auto simp: run_loop.simps [of _ _ s])
  next
    case (Cons q ps')
    define s1 where "s1 = srvq_pop cpu q s"
    have s1: "stacked cpu qs s1 c ps'" "streams_running s1 = streams_running s"
      using stacked_pop [of cpu qs s c q ps'] less.prems(1) Cons by (simp_all add: s1_def)
    have "q \<in> set (butlast qs)" using less.prems(1) Cons by (simp add: stacked_def)
    then obtain as n bs where qs: "qs = as @ q # n # bs" by (rule butlast_split)
    have dq: "distinct (as @ q # n # bs)" using s1(1) by (simp add: stacked_def qs)
    let ?c = "c(q := [], n := c n @ c q)" and ?ps = "if c q = [] \<or> bs = [] \<or> n \<in> set ps' then ps' else ps' @ [n]"
    obtain s2 where s2: "delay_srvp cpu q s1 = Some s2" "streams_running s2 = streams_running s1" "stacked cpu qs s2 ?c ?ps"
      using delay_srvp_stack [of cpu as q n bs s1 c ps'] s1(1) unfolding qs by blast
    have qi: "q_qinfo (queues s1 q) = Some delay_rinit" using s1(1) linked_split [of s1 as q n bs] by (simp add: stacked_def qs)
    have h: "srvq_head s cpu = Some q" using less.prems(1) Cons by (auto simp: stacked_def intro: pop_rep(1))
    have r: "run_loop (stack_srvp cpu) cpu s = run_loop (stack_srvp cpu) cpu s2"
      using h qi s2(1) unfolding s1_def by (simp add: run_loop.simps [of _ _ s] delay_rinit_def stack_srvp_def Let_def)
    note sh = flow_shift [OF dq, of c, folded qs]
    have lt: "2 * moves ?c qs + length ?ps < 2 * moves c qs + length ps" using sh(2) Cons by (cases "c q") auto
    have du: "due qs ?c ?ps" using less.prems(2) dq unfolding due_def qs Cons by (auto simp: butlast_append)
    show ?thesis using less.hyps [OF lt s2(3) du] r s2(2) s1(2) sh(1) by auto
  qed
qed


lemma put_all_stack:
  assumes "stacked cpu (q # rs) s c ps" "due (q # rs) c ps" "distinct (flow c (q # rs) @ xs)" "\<forall>x \<in> set xs. sendable x s \<and> is_data x s"
  shows "\<exists>s' ps'. put_all cpu q xs s = Some s' \<and> wired s s' \<and> stacked cpu (q # rs) s' (c(q := c q @ xs)) ps' \<and> due (q # rs) (c(q := c q @ xs)) ps'"
  using assms
proof (induction xs arbitrary: s c ps)
  case Nil
  then show ?case by (auto simp: put_all_def wired_def)
next
  case (Cons x xs)
  let ?c = "c(q := c q @ [x])" and ?ps = "if rs = [] \<or> q \<in> set ps then ps else ps @ [q]"
  have x: "stacked cpu ([] @ q # rs) s c ps" "sendable x s" "is_data x s" "x \<notin> set (flow c ([] @ q # rs))" using Cons.prems by auto
  obtain s1 where s1: "put (stack_putp cpu) (Some q) (Some x) s = Some (0, s1)" "wired s s1" "stacked cpu ([] @ q # rs) s1 ?c ?ps"
    by (rule stacked_put [OF x])
  have q: "q \<notin> set rs" using Cons.prems(1) by (simp add: stacked_def)
  have i: "stacked cpu (q # rs) s1 ?c ?ps" "due (q # rs) ?c ?ps" "distinct (flow ?c (q # rs) @ xs)"
      "\<forall>y \<in> set xs. sendable y s1 \<and> is_data y s1"
    using s1(2,3) Cons.prems q is_data_wired [OF s1(2)] sendable_core [of s1 s] by (auto simp: due_def wired_def)
  have e: "?c(q := ?c q @ xs) = c(q := c q @ x # xs)" by simp
  obtain s2 ps2 where s2: "put_all cpu q xs s1 = Some s2" "wired s1 s2" "stacked cpu (q # rs) s2 (c(q := c q @ x # xs)) ps2"
      "due (q # rs) (c(q := c q @ x # xs)) ps2"
    using Cons.IH [OF i] unfolding e by blast
  have "put_all cpu q (x # xs) s = Some s2" using s1(1) s2(1) by (simp add: put_all_def)
  then show ?case using s2(3,4) wired_trans [OF s1(2) s2(2)] by blast
qed

lemma data_types [simp]: "M_DATA \<noteq> M_IOCACK" "M_DATA \<noteq> M_IOCNAK" "M_DATA \<noteq> M_HANGUP"
  by (simp_all add: consts_def)

lemma sample_stack_ok:
  "stacked 0 [0, 1, 2] sample_stack (\<lambda>_. []) []" "\<not> streams_running sample_stack 0"
  "sendable 2 sample_stack" "sendable 5 sample_stack" "is_data 2 sample_stack" "is_data 5 sample_stack"
  by (simp_all add: sample_stack_def stacked_def qrep_def srvq_def enabled_def sendable_def is_data_def msgdsize.simps allocb_def
    request_def empty_strm_def zero_queue_def limits_def delay_rinit_def delay_minfo_def sh_rinit_def sh_minfo_def eval_nat_numeral)

subsection \<open>Properties\<close>

text \<open>
  C28. Messages put on the lowest of any number of delay queues stacked below a stream head are
  delivered by one service run, although each service procedure on the way enables the next: the
  run ends, the stream head holds first what was on its way before and then the new messages, all in
  the order they were put, every delay queue is empty, nothing waits for service, and the next
  run is not locked out. The messages are data messages (not the hangup and ioctl answers that a
  stream head treats itself), and every delay queue that held a message before was waiting for
  service, as putting a message on it makes it.
\<close>
theorem delay_stack_delivers:
  assumes "stacked cpu (q # rs) s c ps" "due (q # rs) c ps" "\<not> streams_running s cpu"
    and "distinct (flow c (q # rs) @ xs)" "\<forall>x \<in> set xs. sendable x s \<and> is_data x s"
  shows "\<exists>s1 s2. put_all cpu q xs s = Some s1 \<and> streams_run (stack_srvp cpu) cpu s1 = Some s2
    \<and> stacked cpu (q # rs) s2 ((\<lambda>_. [])(last (q # rs) := flow c (q # rs) @ xs)) [] \<and> \<not> streams_running s2 cpu"
proof -
  let ?qs = "q # rs" and ?c = "c(q := c q @ xs)"
  have nq: "q \<notin> set rs" using assms(1) by (simp add: stacked_def)
  obtain s1 ps1 where s1: "put_all cpu q xs s = Some s1" "wired s s1" "stacked cpu ?qs s1 ?c ps1" "due ?qs ?c ps1"
    using put_all_stack [OF assms(1,2,4,5)] by blast
  have r1: "\<not> streams_running s1 cpu" using s1(2) assms(3) by (simp add: wired_def)
  obtain s2 c2 where s2: "run_loop (stack_srvp cpu) cpu (s1\<lparr>streams_running := (streams_running s1)(cpu := True)\<rparr>) = Some s2"
      "stacked cpu ?qs s2 c2 []" "due ?qs c2 []" "flow c2 ?qs = flow ?c ?qs"
    using run_loop_stack [of cpu ?qs _ ?c ps1] s1(3,4) by (metis stacked_running)
  have b: "c2 p = []" if "p \<in> set (butlast ?qs)" for p using that s2(3) unfolding due_def by auto
  then have "flow c2 (butlast ?qs) = []" by (auto simp: flow_def)
  then have "c2 (last ?qs) = flow ?c ?qs" using s2(4) flow_last [of ?qs c2] by (metis append_Nil2 list.distinct(1))
  then have l: "c2 (last ?qs) = flow c ?qs @ xs" using nq by simp
  have "stacked cpu ?qs s2 ((\<lambda>_. [])(last ?qs := flow c ?qs @ xs)) []"
  proof (rule stacked_cong [OF s2(2)])
    show "((\<lambda>_. [])(last ?qs := flow c ?qs @ xs)) p = c2 p" if "p \<in> set ?qs" for p
      using l b in_butlast [OF that] unfolding fun_upd_apply by metis
  qed
  then show ?thesis using s1(1) s2(1) r1 by (auto simp: streams_run_def)
qed

theorem delay_stack_delivers_witness:
  "\<exists>s1 s2. put_all 0 0 [2, 5] sample_stack = Some s1 \<and> streams_run (stack_srvp 0) 0 s1 = Some s2
    \<and> qrep 2 s2 [2, 5] \<and> qrep 0 s2 [] \<and> qrep 1 s2 []"
  using delay_stack_delivers [of 0 0 "[1, 2]" sample_stack "\<lambda>_. []" "[]" "[2, 5]"] sample_stack_ok
  by (auto simp: due_def stacked_def flow_def)

end
