(* ===== verification/Message.thy ===== *)
theory Message
  imports Streams
begin

text \<open>
  Messages by value, the view the protocol modules have: the pieces of a \<open>b_cont\<close> chain with the
  room before \<open>b_rptr\<close> and after \<open>b_wptr\<close>. A module owns the message it is given, and what it passes
  on with \<open>putnext\<close> or \<open>put\<close> is the result of its put procedure. A procedure that ends in
  \<open>return putnext(...)\<close> returns the code of the next queue, which is its argument \<open>rc\<close>. \<open>msg_at\<close>
  relates the view to the blocks of the heap.
\<close>

section \<open>Definitions\<close>

record piece =
  p_type :: u8
  p_head :: nat
  p_body :: bytes
  p_tail :: nat

type_synonym msg = "piece list"

text \<open>The bytes of a chain, and a fresh block of \<open>allocb\<close> filled from its start.\<close>

definition msg_bytes :: "msg \<Rightarrow> bytes" where
  "msg_bytes mp = concat (map p_body mp)"

definition new_msg :: "u8 \<Rightarrow> bytes \<Rightarrow> piece" where
  "new_msg t bs = \<lparr>p_type = t, p_head = 0, p_body = bs, p_tail = 0\<rparr>"

definition piece_of :: "strm \<Rightarrow> msgb \<Rightarrow> dblk \<Rightarrow> piece" where
  "piece_of s mb db = \<lparr>p_type = db_type db, p_head = b_rptr mb,
     p_body = subbytes (b_rptr mb) (b_wptr mb - b_rptr mb) (db_buf db), p_tail = length (db_buf db) - b_wptr mb\<rparr>"

fun msg_at :: "strm \<Rightarrow> nat ptr \<Rightarrow> msg \<Rightarrow> bool" where
  "msg_at s p [] \<longleftrightarrow> p = None"
| "msg_at s p (x # xs) \<longleftrightarrow>
     (case p of None \<Rightarrow> False
      | Some m \<Rightarrow> (case mblks s m of None \<Rightarrow> False
          | Some mb \<Rightarrow> (case dblks s (b_datap mb) of None \<Rightarrow> False
              | Some db \<Rightarrow> b_rptr mb \<le> b_wptr mb \<and> b_wptr mb \<le> length (db_buf db) \<and> x = piece_of s mb db \<and> msg_at s (b_cont mb) xs)))"

section \<open>Lemmas\<close>

lemma msgdsize_msg_at: "msg_at s p mp \<Longrightarrow> msgdsize p s = Some (of_nat (length (msg_bytes mp)))"
proof (induction mp arbitrary: p)
  case Nil
  then show ?case by (simp add: msgdsize.simps msg_bytes_def)
next
  case (Cons x xs)
  then obtain m mb db where m: "p = Some m" "mblks s m = Some mb" "dblks s (b_datap mb) = Some db"
    "b_rptr mb \<le> b_wptr mb" "b_wptr mb \<le> length (db_buf db)" "x = piece_of s mb db" "msg_at s (b_cont mb) xs"
    by (auto split: option.splits)
  have "length (p_body x) = b_wptr mb - b_rptr mb" using m by (simp add: piece_of_def)
  then have "(of_nat (length (msg_bytes (x # xs))) :: u64) = of_nat (b_wptr mb) - of_nat (b_rptr mb) + of_nat (length (msg_bytes xs))"
    using m(4) by (simp add: msg_bytes_def of_nat_diff)
  then show ?case using m(1,2) Cons.IH [OF m(7)] by (simp add: msgdsize.simps [of "Some m"])
qed

end
