(* ===== verification/Slip.thy ===== *)
theory Slip
  imports Message
begin

text \<open>
  The SLIP framing module and the mini-UART leaf driver of \<open>uts/os/net/slip.c\<close>. The read side is a
  byte-at-a-time state machine over the frame being received; the write side stuffs a whole packet.
  The theorems: what one side sends the other side delivers, however the line cuts the bytes into
  messages; the output buffer is never overrun; a frame never exceeds the MTU.
\<close>

section \<open>Definitions\<close>

definition SLIP_END :: u8 where [consts_def]: "SLIP_END = 0xC0"
definition SLIP_ESC :: u8 where [consts_def]: "SLIP_ESC = 0xDB"
definition SLIP_ESC_END :: u8 where [consts_def]: "SLIP_ESC_END = 0xDC"
definition SLIP_ESC_ESC :: u8 where [consts_def]: "SLIP_ESC_ESC = 0xDD"
definition SLIP_MTU :: nat where [consts_def]: "SLIP_MTU = 296"

text \<open>
  \<open>frame\<close> is the content of the receive block, whose capacity is \<open>SLIP_MTU\<close>, or \<open>None\<close> when
  \<open>allocb\<close> failed; \<open>ok n\<close> tells whether the \<open>n\<close>-th allocation succeeds and \<open>nalloc\<close> counts them.
\<close>

record slip_state =
  frame :: "bytes option"
  in_esc :: bool
  rx_frames :: u32
  rx_runts :: u32
  rx_overflow :: u32
  tx_frames :: u32
  nalloc :: nat

definition slip_alloc :: "(nat \<Rightarrow> bool) \<Rightarrow> nat \<Rightarrow> bytes option" where
  "slip_alloc ok n = (if ok n then Some [] else None)"

definition miniuart_wq_putp :: "msg \<Rightarrow> bytes \<times> int" where
  "miniuart_wq_putp mp =
     (case mp of [] \<Rightarrow> ([], 0)
      | p # _ \<Rightarrow> if p_type p \<noteq> M_DATA then ([], 0) else (msg_bytes mp, 0))"

definition miniuart_rq_putp :: "msg \<Rightarrow> msg" where
  "miniuart_rq_putp mp = mp"

text \<open>\<open>st_ok\<close>: the allocation of the module state itself.\<close>

definition slip_qopen :: "bool \<Rightarrow> (nat \<Rightarrow> bool) \<Rightarrow> int \<times> slip_state option" where
  "slip_qopen st_ok ok =
     (if \<not> st_ok then (-1, None)
      else case slip_alloc ok 0 of
        None \<Rightarrow> (-1, None)
      | Some f \<Rightarrow> (0, Some \<lparr>frame = Some f, in_esc = False, rx_frames = 0, rx_runts = 0, rx_overflow = 0, tx_frames = 0, nalloc = 1\<rparr>))"

definition slip_qclose :: "slip_state option \<Rightarrow> int \<times> slip_state option" where
  "slip_qclose s = (0, None)"

text \<open>The packets handed up, and the new state.\<close>

definition slip_deliver_frame :: "(nat \<Rightarrow> bool) \<Rightarrow> slip_state \<Rightarrow> bytes list \<times> slip_state" where
  "slip_deliver_frame ok s =
     (let s1 = s\<lparr>frame := slip_alloc ok (nalloc s), nalloc := nalloc s + 1\<rparr> in
      case frame s of None \<Rightarrow> ([], s1)
      | Some mp \<Rightarrow> if length mp < 20 then ([], s1\<lparr>rx_runts := rx_runts s1 + 1\<rparr>)
                   else ([mp], s1\<lparr>rx_frames := rx_frames s1 + 1\<rparr>))"

definition slip_append :: "slip_state \<Rightarrow> u8 \<Rightarrow> slip_state" where
  "slip_append s c =
     (case frame s of None \<Rightarrow> s
      | Some f \<Rightarrow> if length f \<ge> SLIP_MTU then s\<lparr>rx_overflow := rx_overflow s + 1, frame := Some []\<rparr>
                  else s\<lparr>frame := Some (f @ [c])\<rparr>)"

definition slip_rx_byte :: "(nat \<Rightarrow> bool) \<Rightarrow> slip_state \<Rightarrow> u8 \<Rightarrow> bytes list \<times> slip_state" where
  "slip_rx_byte ok s c =
     (if in_esc s then
        ([], (slip_append s (if c = SLIP_ESC_END then SLIP_END else if c = SLIP_ESC_ESC then SLIP_ESC else c))\<lparr>in_esc := False\<rparr>)
      else if c = SLIP_END then
        (if \<exists>f. frame s = Some f \<and> f \<noteq> [] then slip_deliver_frame ok s else ([], s))
      else if c = SLIP_ESC then ([], s\<lparr>in_esc := True\<rparr>)
      else ([], slip_append s c))"

fun slip_rx :: "(nat \<Rightarrow> bool) \<Rightarrow> slip_state \<Rightarrow> bytes \<Rightarrow> bytes list \<times> slip_state" where
  "slip_rx ok s [] = ([], s)"
| "slip_rx ok s (c # cs) =
     (case slip_rx_byte ok s c of (up, s1) \<Rightarrow> case slip_rx ok s1 cs of (up', s2) \<Rightarrow> (up @ up', s2))"

text \<open>The put procedures: return code, packets passed on, new module state.\<close>

definition slip_rq_putp :: "(nat \<Rightarrow> bool) \<Rightarrow> slip_state option \<Rightarrow> msg \<Rightarrow> int \<times> bytes list \<times> slip_state option" where
  "slip_rq_putp ok st mp =
     (case (st, mp) of
        (Some s, p # _) \<Rightarrow>
          if p_type p \<noteq> M_DATA then (0, [], Some s)
          else (case slip_rx ok s (msg_bytes mp) of (up, s1) \<Rightarrow> (0, up, Some s1))
      | _ \<Rightarrow> (-1, [], st))"

fun slip_stuff :: "bytes \<Rightarrow> bytes" where
  "slip_stuff [] = []"
| "slip_stuff (c # cs) =
     (if c = SLIP_END then SLIP_ESC # SLIP_ESC_END # slip_stuff cs
      else if c = SLIP_ESC then SLIP_ESC # SLIP_ESC_ESC # slip_stuff cs
      else c # slip_stuff cs)"

definition slip_frame :: "bytes \<Rightarrow> bytes" where
  "slip_frame bs = SLIP_END # slip_stuff bs @ [SLIP_END]"

text \<open>\<open>slip_cap\<close> is the size asked of \<open>allocb\<close>, computed in 32 bits.\<close>

definition slip_cap :: "msg \<Rightarrow> u32" where
  "slip_cap mp = 2 * of_nat (length (msg_bytes mp)) + 2"

definition slip_wq_putp :: "int \<Rightarrow> (nat \<Rightarrow> bool) \<Rightarrow> slip_state option \<Rightarrow> msg \<Rightarrow> int \<times> bytes list \<times> slip_state option" where
  "slip_wq_putp rc ok st mp =
     (case (st, mp) of
        (Some s, p # _) \<Rightarrow>
          if p_type p \<noteq> M_DATA then (0, [], Some s)
          else if \<not> ok (nalloc s) then (-1, [], Some (s\<lparr>nalloc := nalloc s + 1\<rparr>))
          else (rc, [slip_frame (msg_bytes mp)], Some (s\<lparr>nalloc := nalloc s + 1, tx_frames := tx_frames s + 1\<rparr>))
      | _ \<Rightarrow> (-1, [], st))"

definition slip_get_stats :: "slip_state option \<Rightarrow> (u32 \<times> u32 \<times> u32 \<times> u32) option" where
  "slip_get_stats st = map_option (\<lambda>s. (rx_frames s, rx_runts s, rx_overflow s, tx_frames s)) st"

text \<open>A receiver between frames, and the frames a sequence of packets becomes on the wire.\<close>

definition slip_idle :: "slip_state \<Rightarrow> bool" where
  "slip_idle s \<longleftrightarrow> frame s = Some [] \<and> \<not> in_esc s"

definition slip_wf :: "slip_state \<Rightarrow> bool" where
  "slip_wf s \<longleftrightarrow> (case frame s of None \<Rightarrow> True | Some f \<Rightarrow> length f \<le> SLIP_MTU)"

definition slip_fresh :: slip_state where
  "slip_fresh = \<lparr>frame = Some [], in_esc = False, rx_frames = 0, rx_runts = 0, rx_overflow = 0, tx_frames = 0, nalloc = 1\<rparr>"

section \<open>Lemmas\<close>

lemma slip_rx_append:
  "slip_rx ok s (xs @ ys) = (case slip_rx ok s xs of (up, s1) \<Rightarrow> case slip_rx ok s1 ys of (up', s2) \<Rightarrow> (up @ up', s2))"
  by (induction xs arbitrary: s) (auto split: prod.split)

lemmas slip_codes = SLIP_END_def SLIP_ESC_def SLIP_ESC_END_def SLIP_ESC_ESC_def

text \<open>Receiving a stuffed packet into a frame with room for it only extends the frame.\<close>

lemma slip_rx_stuff:
  assumes "frame s = Some f" "\<not> in_esc s" "length f + length bs \<le> SLIP_MTU"
  shows "slip_rx ok s (slip_stuff bs) = ([], s\<lparr>frame := Some (f @ bs)\<rparr>)"
  using assms
proof (induction bs arbitrary: s f)
  case (Cons c cs)
  have one: "slip_append (s\<lparr>in_esc := e\<rparr>) c = s\<lparr>in_esc := e, frame := Some (f @ [c])\<rparr>" for e
    using Cons.prems by (simp add: slip_append_def)
  have one': "slip_append s c = s\<lparr>frame := Some (f @ [c])\<rparr>" using Cons.prems by (simp add: slip_append_def)
  have ne: "s\<lparr>in_esc := False\<rparr> = s" using Cons.prems(2) by (cases s) simp
  have rest: "slip_rx ok (s\<lparr>frame := Some (f @ [c])\<rparr>) (slip_stuff cs) = ([], s\<lparr>frame := Some (f @ c # cs)\<rparr>)"
    using Cons.prems Cons.IH [of "s\<lparr>frame := Some (f @ [c])\<rparr>" "f @ [c]"] by simp
  have u: "s\<lparr>frame := g, in_esc := False\<rparr> = s\<lparr>frame := g\<rparr>" for g
    using Cons.prems(2) by (cases s) simp
  show ?case using Cons.prems(1,2) rest one [of True] one'
    by (auto simp: slip_rx_byte_def slip_codes u)
qed simp

text \<open>A closing END delivers a frame of packet size and leaves the receiver between frames.\<close>

lemma slip_rx_end:
  assumes "frame s = Some f" "\<not> in_esc s" "20 \<le> length f"
  shows "slip_rx ok s [SLIP_END] = ([f], s\<lparr>frame := slip_alloc ok (nalloc s), nalloc := nalloc s + 1, rx_frames := rx_frames s + 1\<rparr>)"
  using assms by (auto simp: slip_rx_byte_def slip_deliver_frame_def Let_def)

lemma slip_rx_frame:
  assumes i: "slip_idle s" and l: "20 \<le> length bs" "length bs \<le> SLIP_MTU"
  shows "slip_rx ok s (slip_frame bs)
    = ([bs], s\<lparr>frame := slip_alloc ok (nalloc s), nalloc := nalloc s + 1, rx_frames := rx_frames s + 1\<rparr>)"
proof -
  have s: "frame s = Some []" "\<not> in_esc s" using i by (auto simp: slip_idle_def)
  have "slip_rx ok s [SLIP_END] = ([], s)" using s by (simp add: slip_rx_byte_def)
  moreover have "slip_rx ok s (slip_stuff bs) = ([], s\<lparr>frame := Some bs\<rparr>)" using slip_rx_stuff [OF s] l by simp
  moreover have "slip_rx ok (s\<lparr>frame := Some bs\<rparr>) [SLIP_END]
      = ([bs], s\<lparr>frame := slip_alloc ok (nalloc s), nalloc := nalloc s + 1, rx_frames := rx_frames s + 1\<rparr>)"
    using slip_rx_end [of "s\<lparr>frame := Some bs\<rparr>" bs ok] s l by simp
  ultimately show ?thesis
    unfolding slip_frame_def using slip_rx_append [of ok s "[SLIP_END]" "slip_stuff bs @ [SLIP_END]"]
    by (simp add: slip_rx_append)
qed

lemma length_slip_stuff: "length bs \<le> length (slip_stuff bs) \<and> length (slip_stuff bs) \<le> 2 * length bs"
  by (induction bs) auto

lemma slip_append_wf: "slip_wf s \<Longrightarrow> slip_wf (slip_append s c)"
  by (auto simp: slip_wf_def slip_append_def split: option.splits)

lemma slip_rx_byte_wf:
  assumes "slip_wf s" "slip_rx_byte ok s c = (up, s')"
  shows "slip_wf s' \<and> (\<forall>p \<in> set up. 20 \<le> length p \<and> length p \<le> SLIP_MTU)"
proof -
  have e: "slip_wf (slip_append s d\<lparr>in_esc := b\<rparr>)" for d b using slip_append_wf [OF assms(1), of d] by (simp add: slip_wf_def)
  have d: "slip_wf (snd (slip_deliver_frame ok s)) \<and> (\<forall>p \<in> set (fst (slip_deliver_frame ok s)). 20 \<le> length p \<and> length p \<le> SLIP_MTU)"
    using assms(1) by (auto simp: slip_deliver_frame_def slip_wf_def slip_alloc_def Let_def split: option.splits)
  show ?thesis using assms e d slip_append_wf [OF assms(1)]
    by (auto simp: slip_rx_byte_def slip_wf_def split: if_splits)
qed

subsection \<open>Properties\<close>

text \<open>
  C24. Any sequence of packets of legal size, framed by the write side, concatenated on the wire and cut
  into messages anywhere, comes out of the read side unchanged, in order, each exactly once.
\<close>
theorem slip_wire_roundtrip:
  assumes "slip_idle s" "\<And>n. ok n" "\<forall>p \<in> set pkts. 20 \<le> length p \<and> length p \<le> SLIP_MTU"
    "concat chunks = concat (map slip_frame pkts)"
  shows "concat (fst (foldl (\<lambda>(up, t) c. (up @ [fst (slip_rx ok t c)], snd (slip_rx ok t c))) ([], s) chunks)) = pkts"
proof -
  have chunk: "concat (fst (foldl (\<lambda>(up, t) c. (up @ [fst (slip_rx ok t c)], snd (slip_rx ok t c))) (us, t) cs))
      = concat us @ fst (slip_rx ok t (concat cs))" for us t cs
    by (induction cs arbitrary: us t) (auto simp: slip_rx_append split: prod.split)
  have "fst (slip_rx ok t (concat (map slip_frame ps))) = ps"
    if "slip_idle t" "\<forall>p \<in> set ps. 20 \<le> length p \<and> length p \<le> SLIP_MTU" for t ps
    using that
  proof (induction ps arbitrary: t)
    case (Cons p ps)
    let ?t = "t\<lparr>frame := slip_alloc ok (nalloc t), nalloc := nalloc t + 1, rx_frames := rx_frames t + 1\<rparr>"
    have "slip_idle ?t" using Cons.prems(1) assms(2) by (simp add: slip_idle_def slip_alloc_def)
    from Cons.IH [OF this] Cons.prems slip_rx_frame [OF Cons.prems(1), of p ok]
    show ?case by (auto simp: slip_rx_append split: prod.split)
  qed simp
  then show ?thesis using assms chunk [of "[]" s chunks] by simp
qed

theorem slip_wire_roundtrip_witness:
  "concat (fst (foldl (\<lambda>(up, t) c. (up @ [fst (slip_rx (\<lambda>_. True) t c)], snd (slip_rx (\<lambda>_. True) t c))) ([], slip_fresh)
     [slip_frame (replicate 20 SLIP_ESC), slip_frame (replicate 30 SLIP_END)])) = [replicate 20 SLIP_ESC, replicate 30 SLIP_END]"
  by (rule slip_wire_roundtrip) (simp_all add: slip_idle_def slip_fresh_def SLIP_MTU_def)

text \<open>The framed packet fits the block that was allocated for it, for every packet below 2 GiB.\<close>
theorem slip_out_fits:
  assumes "length (msg_bytes mp) < 2 ^ 31 - 1"
  shows "length (slip_frame (msg_bytes mp)) \<le> unat (slip_cap mp)"
proof -
  have l: "2 * length (msg_bytes mp) + 2 < 2 ^ 32" using assms by simp
  have "slip_cap mp = of_nat (2 * length (msg_bytes mp) + 2)" by (simp add: slip_cap_def)
  then have "unat (slip_cap mp) = (2 * length (msg_bytes mp) + 2) mod 2 ^ 32" by (simp only: unat_of_nat) simp
  then have "unat (slip_cap mp) = 2 * length (msg_bytes mp) + 2" using l by (simp only: mod_less)
  then show ?thesis using length_slip_stuff [of "msg_bytes mp"] by (simp add: slip_frame_def)
qed

theorem slip_out_fits_witness: "length (slip_frame (msg_bytes [new_msg M_DATA [SLIP_END]])) \<le> unat (slip_cap [new_msg M_DATA [SLIP_END]])"
  by (rule slip_out_fits) (simp add: msg_bytes_def new_msg_def)

text \<open>
  C32. Whatever arrives on the line, the receive frame stays within its block and every packet handed up
  is at least an IPv4 header and at most the MTU.
\<close>
theorem slip_rx_bounds:
  assumes "slip_wf s" "slip_rx ok s bs = (up, s')"
  shows "slip_wf s' \<and> (\<forall>p \<in> set up. 20 \<le> length p \<and> length p \<le> SLIP_MTU)"
  using assms
proof (induction bs arbitrary: s up)
  case (Cons c cs)
  obtain u1 s1 u2 where b: "slip_rx_byte ok s c = (u1, s1)" "slip_rx ok s1 cs = (u2, s')" "up = u1 @ u2"
    using Cons.prems(2) by (auto split: prod.splits)
  from slip_rx_byte_wf [OF Cons.prems(1) b(1)] have w: "slip_wf s1"
    and u: "\<forall>p \<in> set u1. 20 \<le> length p \<and> length p \<le> SLIP_MTU" by auto
  from Cons.IH [OF w b(2)] u show ?case by (auto simp: b(3))
qed simp

theorem slip_rx_bounds_witness: "slip_wf (snd (slip_rx (\<lambda>_. True) slip_fresh [SLIP_ESC, 1]))"
proof -
  have "slip_wf slip_fresh" by (simp add: slip_wf_def slip_fresh_def)
  from slip_rx_bounds [OF this prod.collapse [symmetric]] show ?thesis by (rule conjunct1)
qed

end
