(* ===== verification/Netif.thy ===== *)
theory Netif
  imports Kappara_Prelude "HOL-Library.Monad_Syntax"
begin

text \<open>
  The interface registry of \<open>uts/os/net/netif.c\<close>: interfaces are kept by address, because IP holds
  pointers to them and \<open>ioctl\<close>s change them, and \<open>netif_list\<close> is the list from the newest. The
  theorems: Kernighan's bit count ends, and the route chosen is a longest matching prefix.
\<close>

section \<open>Definitions\<close>

record netif =
  n_name :: bytes
  n_ip :: u32
  n_netmask :: u32
  n_gateway :: u32
  n_mac :: "bytes option"
  n_dns :: u32
  n_mtu :: u32

record net =
  nifs :: "nat \<Rightarrow> netif"
  netif_list :: "nat list"

function popcount32 :: "u32 \<Rightarrow> nat" where
  "popcount32 v = (if v = 0 then 0 else Suc (popcount32 (v AND (v - 1))))"
  by pat_completeness auto
termination
proof (relation "measure unat", goal_cases)
  case (2 v)
  then have "v AND (v - 1) < v" using less_eq_dec_iff word_and_le1 by blast
  then show ?case by (simp add: word_less_nat_alt)
qed simp

declare popcount32.simps [simp del]

definition netif_register :: "nat ptr \<Rightarrow> net \<Rightarrow> net" where
  "netif_register p s = (case p of None \<Rightarrow> s | Some n \<Rightarrow> s\<lparr>netif_list := n # netif_list s\<rparr>)"

text \<open>
  The selection loop shared by \<open>netif_route\<close> and \<open>ip_route\<close>: among the candidates that satisfy \<open>ok\<close>
  keep the last one whose prefix length is not smaller than that of the best so far.
\<close>

fun best_from :: "('a \<Rightarrow> bool) \<Rightarrow> ('a \<Rightarrow> nat) \<Rightarrow> 'a option \<Rightarrow> nat \<Rightarrow> 'a list \<Rightarrow> 'a option" where
  "best_from ok len best best_prefix [] = best"
| "best_from ok len best best_prefix (x # xs) =
     (if ok x \<and> (best = None \<or> len x \<ge> best_prefix) then best_from ok len (Some x) (len x) xs
      else best_from ok len best best_prefix xs)"

definition on_subnet :: "u32 \<Rightarrow> netif \<Rightarrow> bool" where
  "on_subnet dst n \<longleftrightarrow> dst AND n_netmask n = n_ip n AND n_netmask n"

definition netif_route :: "u32 \<Rightarrow> net \<Rightarrow> nat ptr" where
  "netif_route dst s =
     best_from (\<lambda>n. on_subnet dst (nifs s n)) (\<lambda>n. popcount32 (n_netmask (nifs s n))) None 0 (netif_list s)"

definition netif_find :: "bytes option \<Rightarrow> net \<Rightarrow> nat ptr" where
  "netif_find name s = (case name of None \<Rightarrow> None | Some b \<Rightarrow> find (\<lambda>n. n_name (nifs s n) = b) (netif_list s))"

text \<open>\<open>cb n a\<close> is the result of the callback on interface \<open>n\<close> and the state it leaves.\<close>

fun for_each_from :: "(nat \<Rightarrow> 'a \<Rightarrow> int \<times> 'a) \<Rightarrow> nat list \<Rightarrow> 'a \<Rightarrow> int \<times> 'a" where
  "for_each_from cb [] a = (0, a)"
| "for_each_from cb (n # ns) a = (case cb n a of (r, a') \<Rightarrow> if r \<noteq> 0 then (r, a') else for_each_from cb ns a')"

definition netif_for_each :: "(nat \<Rightarrow> 'a \<Rightarrow> int \<times> 'a) \<Rightarrow> net \<Rightarrow> 'a \<Rightarrow> int \<times> 'a" where
  "netif_for_each cb s a = for_each_from cb (netif_list s) a"

text \<open>The loopback interface and the serial line, as the boot code registers them.\<close>

definition lo0_nif :: netif where
  "lo0_nif = \<lparr>n_name = [108, 111, 48], n_ip = 0x7f000001, n_netmask = 0xff000000, n_gateway = 0, n_mac = None, n_dns = 0, n_mtu = 1500\<rparr>"

definition slip0_nif :: netif where
  "slip0_nif = \<lparr>n_name = [115, 108, 105, 112, 48], n_ip = 0xc0a80a02, n_netmask = 0xfffffffc, n_gateway = 0, n_mac = None,
     n_dns = 0, n_mtu = 296\<rparr>"

section \<open>Lemmas\<close>

lemma best_from_spec:
  assumes "best_from ok len b p xs = r" "\<And>x. b = Some x \<Longrightarrow> ok x \<and> len x = p"
  shows "r = None \<longleftrightarrow> b = None \<and> (\<forall>x \<in> set xs. \<not> ok x)"
    and "r = Some y \<Longrightarrow> ok y \<and> (y \<in> set xs \<or> b = Some y) \<and> (\<forall>x \<in> set xs. ok x \<longrightarrow> len x \<le> len y) \<and> (b \<noteq> None \<longrightarrow> p \<le> len y)"
proof -
  have "(r = None \<longleftrightarrow> b = None \<and> (\<forall>x \<in> set xs. \<not> ok x)) \<and>
      (\<forall>y. r = Some y \<longrightarrow> ok y \<and> (y \<in> set xs \<or> b = Some y) \<and> (\<forall>x \<in> set xs. ok x \<longrightarrow> len x \<le> len y) \<and> (b \<noteq> None \<longrightarrow> p \<le> len y))"
    using assms
  proof (induction xs arbitrary: b p)
    case (Cons a xs)
    show ?case
    proof (cases "ok a \<and> (b = None \<or> len a \<ge> p)")
      case True
      then have "best_from ok len (Some a) (len a) xs = r" using Cons.prems(1) by simp
      from Cons.IH [OF this] True show ?thesis by fastforce
    next
      case False
      then have "best_from ok len b p xs = r" using Cons.prems(1) by (simp split: if_splits)
      from Cons.IH [OF this Cons.prems(2)] False show ?thesis by fastforce
    qed
  qed auto
  then show "r = None \<longleftrightarrow> b = None \<and> (\<forall>x \<in> set xs. \<not> ok x)"
    and "r = Some y \<Longrightarrow> ok y \<and> (y \<in> set xs \<or> b = Some y) \<and> (\<forall>x \<in> set xs. ok x \<longrightarrow> len x \<le> len y) \<and> (b \<noteq> None \<longrightarrow> p \<le> len y)"
    by blast+
qed

text \<open>
  \<open>netif_route\<close> finds an interface exactly when some registered one has the destination on its
  subnet, and the one it gives has the longest mask of those.
\<close>
theorem netif_route_longest:
  "(netif_route dst s = None \<longleftrightarrow> filter (\<lambda>n. on_subnet dst (nifs s n)) (netif_list s) = [])
   \<and> (case netif_route dst s of None \<Rightarrow> True
      | Some n \<Rightarrow> n \<in> set (netif_list s) \<and> on_subnet dst (nifs s n)
          \<and> list_all (\<lambda>k. popcount32 (n_netmask (nifs s k)) \<le> popcount32 (n_netmask (nifs s n)))
              (filter (\<lambda>k. on_subnet dst (nifs s k)) (netif_list s)))"
  using best_from_spec [OF netif_route_def [of dst s, symmetric]]
  by (auto simp: filter_empty_conv list_all_iff split: option.split)

end
