(* ===== verification/Arp.thy ===== *)
theory Arp
  imports Netif
begin

text \<open>
  The ARP cache and the hold queue of \<open>uts/os/net/arp.c\<close>. The tables are lists of fixed length; the
  cycle counter and its frequency are arguments. A frame that is transmitted is part of the result.
  The theorems: what is learnt is what is looked up, the cache never holds an address
  twice, and a frame parked for an unresolved neighbour goes out, completed, when the answer arrives.
\<close>

section \<open>Definitions\<close>

definition ARP_CACHE_SIZE :: nat where [consts_def]: "ARP_CACHE_SIZE = 16"
definition ARP_STALE_S :: u64 where [consts_def]: "ARP_STALE_S = 300"
definition ARP_HW_ETHER :: u16 where [consts_def]: "ARP_HW_ETHER = 1"
definition ARP_PROTO_IPV4 :: u16 where [consts_def]: "ARP_PROTO_IPV4 = 0x0800"
definition ARP_OP_REQUEST :: u16 where [consts_def]: "ARP_OP_REQUEST = 1"
definition ARP_OP_REPLY :: u16 where [consts_def]: "ARP_OP_REPLY = 2"
definition ETHERTYPE_ARP :: u16 where [consts_def]: "ETHERTYPE_ARP = 0x0806"
definition ARP_HOLD_SLOTS :: nat where [consts_def]: "ARP_HOLD_SLOTS = 4"
definition ARP_HOLD_MAX :: nat where [consts_def]: "ARP_HOLD_MAX = 1520"

text \<open>An attached interface; \<open>a_tx\<close> tells whether the driver gave a transmit routine.\<close>

record arpif =
  a_nif :: "netif option"
  a_mac :: bytes
  a_tx :: bool

record arp_entry =
  e_ip :: u32
  e_mac :: bytes
  e_ifname :: bytes
  e_stamp :: u64

record arp_hold =
  h_ip :: u32
  h_len :: nat
  h_aif :: "arpif option"
  h_stamp :: u64
  h_frame :: bytes

record arp =
  arp_cache :: "arp_entry list"
  arp_holds :: "arp_hold list"

type_synonym sent = "(arpif \<times> bytes) list"

text \<open>
  The slot search of both tables: the slot of the address, else the first free one, else the one with
  the oldest stamp. \<open>i\<close> is the index of the head of the list, \<open>slot\<close> the free slot found so far,
  \<open>old\<close> and \<open>ost\<close> the oldest slot so far and its stamp.
\<close>

fun pick_slot :: "('a \<Rightarrow> u32) \<Rightarrow> ('a \<Rightarrow> u64) \<Rightarrow> u32 \<Rightarrow> nat \<Rightarrow> nat option \<Rightarrow> nat \<Rightarrow> u64 \<Rightarrow> 'a list \<Rightarrow> nat" where
  "pick_slot ipf stf a i slot old ost [] = (case slot of None \<Rightarrow> old | Some k \<Rightarrow> k)"
| "pick_slot ipf stf a i slot old ost (e # es) =
     (if ipf e = a then i
      else if ipf e = 0 then pick_slot ipf stf a (i + 1) (if slot = None then Some i else slot) old ost es
      else if stf e < ost then pick_slot ipf stf a (i + 1) slot i (stf e) es
      else pick_slot ipf stf a (i + 1) slot old ost es)"

definition slot_for :: "('a \<Rightarrow> u32) \<Rightarrow> ('a \<Rightarrow> u64) \<Rightarrow> u32 \<Rightarrow> 'a list \<Rightarrow> nat" where
  "slot_for ipf stf a es = pick_slot ipf stf a 0 None 0 (stf (es ! 0)) es"

definition arp_learn :: "u64 \<Rightarrow> u32 \<Rightarrow> bytes \<Rightarrow> bytes \<Rightarrow> arp \<Rightarrow> arp" where
  "arp_learn now a mac ifname s =
     (if a = 0 then s
      else s\<lparr>arp_cache := (arp_cache s)[slot_for e_ip e_stamp a (arp_cache s) :=
               \<lparr>e_ip = a, e_mac = take 6 mac, e_ifname = ifname, e_stamp = now\<rparr>]\<rparr>)"

text \<open>The station address and whether it is stale.\<close>

definition arp_lookup :: "u64 \<Rightarrow> u64 \<Rightarrow> u32 \<Rightarrow> arp \<Rightarrow> (bytes \<times> bool) option" where
  "arp_lookup now per_s a s =
     map_option (\<lambda>e. (e_mac e, now - e_stamp e > ARP_STALE_S * per_s)) (find (\<lambda>e. e_ip e = a) (arp_cache s))"

definition arp_frame :: "arpif \<Rightarrow> u16 \<Rightarrow> bytes \<Rightarrow> u32 \<Rightarrow> bytes option \<Rightarrow> bytes" where
  "arp_frame aif op dst_mac target_ip target_mac =
     take 6 dst_mac @ take 6 (a_mac aif) @ be16 ETHERTYPE_ARP
     @ be16 ARP_HW_ETHER @ be16 ARP_PROTO_IPV4 @ [6, 4] @ be16 op
     @ take 6 (a_mac aif) @ be32 (case a_nif aif of None \<Rightarrow> 0 | Some n \<Rightarrow> n_ip n)
     @ (case target_mac of None \<Rightarrow> replicate 6 0 | Some m \<Rightarrow> take 6 m) @ be32 target_ip"

definition arp_tx :: "arpif \<Rightarrow> u16 \<Rightarrow> bytes \<Rightarrow> u32 \<Rightarrow> bytes option \<Rightarrow> sent" where
  "arp_tx aif op dst_mac target_ip target_mac = [(aif, arp_frame aif op dst_mac target_ip target_mac)]"

fun flush_from :: "u32 \<Rightarrow> bytes \<Rightarrow> arp_hold list \<Rightarrow> sent \<times> arp_hold list" where
  "flush_from a mac [] = ([], [])"
| "flush_from a mac (h # hs) =
     (case flush_from a mac hs of (tx, hs') \<Rightarrow>
        if h_ip h \<noteq> a then (tx, h # hs')
        else let fr = blit (h_frame h) 0 (take 6 mac) in
          ((case h_aif h of None \<Rightarrow> [] | Some aif \<Rightarrow> if a_tx aif then [(aif, take (h_len h) fr)] else []) @ tx,
           h\<lparr>h_frame := fr, h_ip := 0, h_len := 0\<rparr> # hs'))"

definition arp_hold_flush :: "u32 \<Rightarrow> bytes \<Rightarrow> arp \<Rightarrow> sent \<times> arp" where
  "arp_hold_flush a mac s = (case flush_from a mac (arp_holds s) of (tx, hs) \<Rightarrow> (tx, s\<lparr>arp_holds := hs\<rparr>))"

definition arp_input :: "u64 \<Rightarrow> arpif \<Rightarrow> bytes \<Rightarrow> arp \<Rightarrow> sent \<times> arp" where
  "arp_input now aif fr s =
     (if length fr < 42 \<or> un_be16 (subbytes 14 2 fr) \<noteq> ARP_HW_ETHER \<or> un_be16 (subbytes 16 2 fr) \<noteq> ARP_PROTO_IPV4 then ([], s)
      else let op = un_be16 (subbytes 20 2 fr); smac = subbytes 22 6 fr;
               sip = un_be32 (subbytes 28 4 fr); tip = un_be32 (subbytes 38 4 fr);
               ifname = (case a_nif aif of None \<Rightarrow> [63] | Some n \<Rightarrow> n_name n)
           in (case arp_hold_flush sip smac (arp_learn now sip smac ifname s) of
                 (tx, s1) \<Rightarrow>
                   (tx @ (case a_nif aif of None \<Rightarrow> []
                          | Some n \<Rightarrow> if op = ARP_OP_REQUEST \<and> tip = n_ip n \<and> n_ip n \<noteq> 0
                                     then arp_tx aif ARP_OP_REPLY smac sip (Some smac) else []),
                    s1)))"

definition park :: "u64 \<Rightarrow> arpif \<Rightarrow> u32 \<Rightarrow> bytes \<Rightarrow> arp \<Rightarrow> arp" where
  "park now aif a fr s =
     (if length fr > ARP_HOLD_MAX then s
      else let k = slot_for h_ip h_stamp a (arp_holds s); h = arp_holds s ! k in
        s\<lparr>arp_holds := (arp_holds s)[k := h\<lparr>h_ip := a, h_len := length fr, h_aif := Some aif, h_stamp := now,
                                           h_frame := blit (h_frame h) 0 fr\<rparr>]\<rparr>)"

text \<open>The result code, the frame with its destination filled in, what was transmitted and the new tables.\<close>

definition arp_resolve_hold :: "u64 \<Rightarrow> u64 \<Rightarrow> arpif \<Rightarrow> u32 \<Rightarrow> bytes \<Rightarrow> arp \<Rightarrow> int \<times> bytes \<times> sent \<times> arp" where
  "arp_resolve_hold now per_s aif a fr s =
     (let bcast = replicate 6 0xff in
      if a = 0 \<or> length fr < 14 then (0, fr, [], s)
      else case arp_lookup now per_s a s of
        Some (mac, stale) \<Rightarrow>
          (1, blit fr 0 mac, if stale then arp_tx aif ARP_OP_REQUEST bcast a None else [], s)
      | None \<Rightarrow> (0, fr, arp_tx aif ARP_OP_REQUEST bcast a None, park now aif a fr s))"

text \<open>The snapshot of \<open>arp_for_each\<close>: address, station address, interface and age of every used entry.\<close>

definition arp_snapshot :: "u64 \<Rightarrow> u64 \<Rightarrow> arp \<Rightarrow> (u32 \<times> bytes \<times> bytes \<times> u32) list" where
  "arp_snapshot now per_s s =
     map (\<lambda>e. (e_ip e, e_mac e, e_ifname e, ucast ((now - e_stamp e) div per_s))) (filter (\<lambda>e. e_ip e \<noteq> 0) (arp_cache s))"

fun views_from :: "('v \<Rightarrow> 'a \<Rightarrow> int \<times> 'a) \<Rightarrow> 'v list \<Rightarrow> 'a \<Rightarrow> int \<times> 'a" where
  "views_from cb [] a = (0, a)"
| "views_from cb (v # vs) a = (case cb v a of (r, a') \<Rightarrow> if r \<noteq> 0 then (r, a') else views_from cb vs a')"

definition arp_for_each :: "u64 \<Rightarrow> u64 \<Rightarrow> (u32 \<times> bytes \<times> bytes \<times> u32 \<Rightarrow> 'a \<Rightarrow> int \<times> 'a) \<Rightarrow> arp \<Rightarrow> 'a \<Rightarrow> int \<times> 'a" where
  "arp_for_each now per_s cb s a = views_from cb (arp_snapshot now per_s s) a"

text \<open>Zero-initialised tables, and tables of the right shape in which no address occurs twice.\<close>

definition arp_boot :: arp where
  "arp_boot = \<lparr>arp_cache = replicate ARP_CACHE_SIZE \<lparr>e_ip = 0, e_mac = replicate 6 0, e_ifname = [], e_stamp = 0\<rparr>,
     arp_holds = replicate ARP_HOLD_SLOTS \<lparr>h_ip = 0, h_len = 0, h_aif = None, h_stamp = 0, h_frame = replicate ARP_HOLD_MAX 0\<rparr>\<rparr>"

definition no_dup :: "('a \<Rightarrow> u32) \<Rightarrow> 'a list \<Rightarrow> bool" where
  "no_dup ipf es \<longleftrightarrow>
     (\<forall>i < length es. \<forall>j < length es. ipf (es ! i) = ipf (es ! j) \<and> ipf (es ! i) \<noteq> 0 \<longrightarrow> i = j)"

definition arp_wf :: "arp \<Rightarrow> bool" where
  "arp_wf s \<longleftrightarrow> length (arp_cache s) = ARP_CACHE_SIZE \<and> length (arp_holds s) = ARP_HOLD_SLOTS
     \<and> no_dup e_ip (arp_cache s) \<and> no_dup h_ip (arp_holds s)
     \<and> (\<forall>h \<in> set (arp_holds s). length (h_frame h) = ARP_HOLD_MAX \<and> h_len h \<le> ARP_HOLD_MAX)"

definition sample_aif :: arpif where
  "sample_aif = \<lparr>a_nif = Some (lo0_nif\<lparr>n_ip := 9\<rparr>), a_mac = replicate 6 1, a_tx = True\<rparr>"

definition used_hold :: arp_hold where
  "used_hold = \<lparr>h_ip = 0, h_len = 0, h_aif = Some sample_aif, h_stamp = 0, h_frame = replicate 1520 0\<rparr>"

section \<open>Lemmas\<close>

lemma pick_slot_bounds:
  assumes "\<And>k. slot = Some k \<Longrightarrow> k < i + length es" "old < i + length es"
  shows "pick_slot ipf stf a i slot old ost es < i + length es"
  using assms
proof (induction es arbitrary: i slot old ost)
  case (Cons e es)
  have "pick_slot ipf stf a (i + 1) sl o' os es < (i + 1) + length es"
    if "\<And>k. sl = Some k \<Longrightarrow> k < (i + 1) + length es" "o' < (i + 1) + length es" for sl o' os
    using Cons.IH that by blast
  from this [of "Some i" old ost] this [of slot old ost] this [of slot i "stf e"] Cons.prems show ?case by auto
qed (auto split: option.split)

text \<open>If the address is in the table, its first slot is chosen.\<close>

lemma pick_slot_hit:
  assumes "j < length es" "ipf (es ! j) = a" "\<And>k. k < j \<Longrightarrow> ipf (es ! k) \<noteq> a"
  shows "pick_slot ipf stf a i slot old ost es = i + j"
  using assms
proof (induction es arbitrary: i slot old ost j)
  case (Cons e es)
  show ?case
  proof (cases j)
    case 0
    then show ?thesis using Cons.prems by simp
  next
    case (Suc k)
    then have e: "ipf e \<noteq> a" using Cons.prems(3) [of 0] by simp
    have "pick_slot ipf stf a (i + 1) sl o' os es = (i + 1) + k" for sl o' os
      using Cons.IH [of k] Cons.prems Suc by fastforce
    then show ?thesis using e Suc by simp
  qed
qed simp

lemma slot_for_less: "es \<noteq> [] \<Longrightarrow> slot_for ipf stf a es < length es"
  using pick_slot_bounds [of None 0 es 0 ipf stf a] by (auto simp: slot_for_def)

text \<open>The chosen slot is the first one that has the address, once the address is stored there.\<close>

lemma slot_for_first:
  assumes "es \<noteq> []" "ipf e = a" "k < slot_for ipf stf a es"
  shows "ipf (es ! k) \<noteq> a"
proof
  assume k: "ipf (es ! k) = a"
  have l: "k < length es" using assms slot_for_less [OF assms(1), of ipf stf a] by simp
  define j where "j = (LEAST j. ipf (es ! j) = a)"
  have j: "ipf (es ! j) = a" "j \<le> k" unfolding j_def using k by (auto intro: LeastI Least_le)
  have "\<And>i. i < j \<Longrightarrow> ipf (es ! i) \<noteq> a" unfolding j_def by (rule not_less_Least)
  then have "slot_for ipf stf a es = j"
    using pick_slot_hit [of j es ipf a stf 0] j l by (simp add: slot_for_def)
  then show False using assms(3) j by simp
qed

lemma slot_for_hit:
  assumes "i < length es" "ipf (es ! i) = a"
  shows "ipf (es ! slot_for ipf stf a es) = a"
proof -
  define j where "j = (LEAST j. ipf (es ! j) = a)"
  have j: "ipf (es ! j) = a" "j \<le> i" unfolding j_def using assms(2) by (auto intro: LeastI Least_le)
  have "\<And>k. k < j \<Longrightarrow> ipf (es ! k) \<noteq> a" unfolding j_def by (rule not_less_Least)
  then have "slot_for ipf stf a es = j" using pick_slot_hit [of j es ipf a stf 0] j assms(1) by (simp add: slot_for_def)
  then show ?thesis using j by simp
qed

lemma no_dup_update:
  assumes "es \<noteq> []" "no_dup ipf es" "ipf x = a"
  shows "no_dup ipf (es[slot_for ipf stf a es := x])"
proof -
  let ?k = "slot_for ipf stf a es"
  have k: "?k < length es" using assms(1) by (rule slot_for_less)
  have other: "i = ?k" if "i < length es" "ipf (es ! i) = a" "a \<noteq> 0" for i
    using slot_for_hit [of i es ipf a stf] that assms(2) k unfolding no_dup_def by metis
  show ?thesis unfolding no_dup_def
  proof (intro allI impI)
    fix i j
    assume l: "i < length (es[?k := x])" "j < length (es[?k := x])"
      and e: "ipf (es[?k := x] ! i) = ipf (es[?k := x] ! j) \<and> ipf (es[?k := x] ! i) \<noteq> 0"
    show "i = j"
    proof (cases "i = ?k \<or> j = ?k")
      case True
      then show ?thesis using e l k other [of i] other [of j] assms(3) by (auto simp: nth_list_update split: if_splits)
    next
      case False
      then have "ipf (es ! i) = ipf (es ! j)" "ipf (es ! i) \<noteq> 0" "i < length es" "j < length es" using e l by auto
      then show ?thesis using assms(2) unfolding no_dup_def by blast
    qed
  qed
qed

lemma find_at:
  assumes "k < length es" "P (es ! k)" "\<And>j. j < k \<Longrightarrow> \<not> P (es ! j)"
  shows "find P es = Some (es ! k)"
  using assms by (auto simp: find_Some_iff)

lemma find_update_other: "\<not> P (es ! k) \<Longrightarrow> \<not> P x \<Longrightarrow> find P (es[k := x]) = find P es"
proof (induction es arbitrary: k)
  case (Cons e es)
  then show ?case by (cases k) auto
qed simp

text \<open>Unless the table is full of other addresses, the chosen slot is free or has the address.\<close>

lemma pick_slot_free:
  assumes "slot \<noteq> None \<or> (\<exists>e \<in> set es. ipf e = 0 \<or> ipf e = a)"
  shows "slot = Some (pick_slot ipf stf a i slot old ost es) \<or>
    (\<exists>j < length es. pick_slot ipf stf a i slot old ost es = i + j \<and> ipf (es ! j) \<in> {0, a})"
  using assms
proof (induction es arbitrary: i slot old ost)
  case (Cons e es)
  have later: "sl = Some r \<or> (\<exists>j < length (e # es). r = i + j \<and> ipf ((e # es) ! j) \<in> {0, a})"
    if "sl = Some r \<or> (\<exists>j < length es. r = (i + 1) + j \<and> ipf (es ! j) \<in> {0, a})" for sl r
    using that by (elim disjE exE conjE) (blast, intro disjI2, rule_tac x = "Suc j" in exI, simp)
  consider "ipf e = a" | "ipf e \<noteq> a" "ipf e = 0" "slot = None" | y where "ipf e \<noteq> a" "ipf e = 0" "slot = Some y"
    | "ipf e \<noteq> a" "ipf e \<noteq> 0" by blast
  then show ?case
  proof cases
    case 1
    then show ?thesis by (intro disjI2 exI [of _ 0]) simp
  next
    case 2
    let ?r = "pick_slot ipf stf a (i + 1) (Some i) old ost es"
    have "Some i = Some ?r \<or> (\<exists>j < length (e # es). ?r = i + j \<and> ipf ((e # es) ! j) \<in> {0, a})"
      by (rule later, rule Cons.IH) simp
    then have "\<exists>j < length (e # es). ?r = i + j \<and> ipf ((e # es) ! j) \<in> {0, a}"
      using 2 by (elim disjE) (auto intro!: exI [of _ 0])
    then show ?thesis using 2 by simp
  next
    case 3
    then show ?thesis using later [OF Cons.IH [of "Some y" "i + 1" old ost]] by simp
  next
    case 4
    have p: "slot \<noteq> None \<or> (\<exists>e \<in> set es. ipf e = 0 \<or> ipf e = a)" using Cons.prems 4 by auto
    show ?thesis using later [OF Cons.IH [OF p, of "i + 1" i "stf e"]] later [OF Cons.IH [OF p, of "i + 1" old ost]] 4
      by (cases "stf e < ost") simp_all
  qed
qed auto

lemma slot_for_free:
  assumes "\<exists>e \<in> set es. ipf e = 0 \<or> ipf e = a"
  shows "ipf (es ! slot_for ipf stf a es) \<in> {0, a}"
  using pick_slot_free [of None es ipf a stf 0 0 "stf (es ! 0)"] assms by (auto simp: slot_for_def)

lemma flush_map:
  "snd (flush_from a mac hs) = map (\<lambda>h. if h_ip h \<noteq> a then h else h\<lparr>h_frame := blit (h_frame h) 0 (take 6 mac), h_ip := 0, h_len := 0\<rparr>) hs"
  by (induction hs) (auto simp: Let_def split: prod.split)

lemma flush_sends:
  assumes "h \<in> set hs" "h_ip h = a" "h_aif h = Some aif" "a_tx aif"
  shows "(aif, take (h_len h) (blit (h_frame h) 0 (take 6 mac))) \<in> set (fst (flush_from a mac hs))"
  using assms by (induction hs) (auto simp: Let_def split: prod.split)

lemma arp_wf_boot: "arp_wf arp_boot"
  by (auto simp: arp_wf_def arp_boot_def no_dup_def consts_def)

lemma arp_wf_learn: "arp_wf s \<Longrightarrow> arp_wf (arp_learn now a mac ifn s)"
  by (auto simp: arp_wf_def arp_learn_def consts_def intro!: no_dup_update)

lemma arp_wf_flush:
  assumes "arp_wf s"
  shows "arp_wf (snd (arp_hold_flush a mac s))"
proof -
  have "no_dup h_ip (snd (flush_from a mac (arp_holds s)))"
    using assms unfolding arp_wf_def no_dup_def flush_map by (auto split: if_splits)
  moreover have "\<forall>h \<in> set (snd (flush_from a mac (arp_holds s))). length (h_frame h) = ARP_HOLD_MAX \<and> h_len h \<le> ARP_HOLD_MAX"
    using assms unfolding arp_wf_def flush_map by (auto simp: consts_def)
  ultimately show ?thesis using assms flush_map [of a mac "arp_holds s"]
    by (auto simp: arp_wf_def arp_hold_flush_def split: prod.split)
qed

lemma arp_wf_park:
  assumes w: "arp_wf s"
  shows "arp_wf (park now aif a fr s)"
proof (cases "length fr > ARP_HOLD_MAX")
  case False
  let ?k = "slot_for h_ip h_stamp a (arp_holds s)"
  let ?h = "(arp_holds s ! ?k)\<lparr>h_ip := a, h_len := length fr, h_aif := Some aif, h_stamp := now, h_frame := blit (h_frame (arp_holds s ! ?k)) 0 fr\<rparr>"
  have ne: "arp_holds s \<noteq> []" using w by (auto simp: arp_wf_def consts_def)
  have k: "arp_holds s ! ?k \<in> set (arp_holds s)" using slot_for_less [OF ne] by (rule nth_mem)
  have "no_dup h_ip ((arp_holds s)[?k := ?h])" using w by (intro no_dup_update [OF ne]) (auto simp: arp_wf_def)
  moreover have "length (h_frame ?h) = ARP_HOLD_MAX \<and> h_len ?h \<le> ARP_HOLD_MAX" using w k False by (auto simp: arp_wf_def)
  ultimately show ?thesis using w False set_update_subset_insert [of "arp_holds s" ?k ?h]
    by (auto simp: arp_wf_def park_def Let_def)
qed (use w in \<open>simp add: park_def\<close>)

lemma arp_frame_fields:
  assumes "length dmac = 6" "length (a_mac aif) = 6" "a_nif aif = Some n"
  shows "un_be16 (subbytes 14 2 (arp_frame aif op dmac tip tm)) = ARP_HW_ETHER"
    "un_be16 (subbytes 16 2 (arp_frame aif op dmac tip tm)) = ARP_PROTO_IPV4"
    "un_be16 (subbytes 20 2 (arp_frame aif op dmac tip tm)) = op" "subbytes 22 6 (arp_frame aif op dmac tip tm) = a_mac aif"
    "un_be32 (subbytes 28 4 (arp_frame aif op dmac tip tm)) = n_ip n"
  using assms by (auto simp: arp_frame_def subbytes_def)

subsection \<open>Properties\<close>

text \<open>
  After an address is learnt, looking it up gives the station address just learnt, with its age
  counted from that moment.
\<close>
theorem arp_learn_lookup:
  assumes "a \<noteq> 0" "length mac = 6" "arp_wf s"
  shows "arp_lookup t per_s a (arp_learn now a mac ifn s) = Some (mac, t - now > ARP_STALE_S * per_s)"
proof -
  let ?es = "arp_cache s" let ?k = "slot_for e_ip e_stamp a ?es"
  let ?x = "\<lparr>e_ip = a, e_mac = take 6 mac, e_ifname = ifn, e_stamp = now\<rparr>"
  have ne: "?es \<noteq> []" using assms(3) by (auto simp: arp_wf_def consts_def)
  have k: "?k < length ?es" by (rule slot_for_less [OF ne])
  have "find (\<lambda>e. e_ip e = a) (?es[?k := ?x]) = Some (?es[?k := ?x] ! ?k)"
  proof (rule find_at)
    fix j assume "j < ?k"
    then show "e_ip (?es[?k := ?x] ! j) \<noteq> a" using slot_for_first [OF ne, of e_ip ?x a j e_stamp] by simp
  qed (use k in simp_all)
  then show ?thesis using assms k by (simp add: arp_lookup_def arp_learn_def)
qed

theorem arp_learn_lookup_witness:
  "arp_lookup 5 1 7 (arp_learn 5 7 [1, 2, 3, 4, 5, 6] [108] arp_boot) = Some ([1, 2, 3, 4, 5, 6], False)"
  by (subst arp_learn_lookup) (simp_all add: arp_wf_boot ARP_STALE_S_def)

text \<open>
  As long as the cache has a free slot, or already has the address, learning it changes no other entry.
\<close>
theorem arp_learn_keeps:
  assumes "\<exists>e \<in> set (arp_cache s). e_ip e = 0 \<or> e_ip e = a" "b \<noteq> a" "b \<noteq> 0"
  shows "arp_lookup t per_s b (arp_learn now a mac ifn s) = arp_lookup t per_s b s"
proof -
  have "e_ip (arp_cache s ! slot_for e_ip e_stamp a (arp_cache s)) \<noteq> b"
    using slot_for_free [OF assms(1), of e_stamp] assms(2,3) by auto
  then show ?thesis using assms(2) by (simp add: arp_lookup_def arp_learn_def find_update_other)
qed

theorem arp_learn_keeps_witness:
  "arp_lookup 5 1 9 (arp_learn 5 7 [1, 2, 3, 4, 5, 6] [108] arp_boot) = arp_lookup 5 1 9 arp_boot"
  by (rule arp_learn_keeps) (auto simp: arp_boot_def consts_def)

text \<open>
  C34. The tables keep their size, no address occurs twice in either, and a parked frame fits its slot,
  whatever frames arrive and are sent.
\<close>
theorem arp_wf_steps:
  assumes "arp_wf s"
  shows "arp_wf (snd (arp_input now aif fr s)) \<and> arp_wf (snd (snd (snd (arp_resolve_hold now per_s aif a fr s))))"
proof -
  have "arp_wf (snd (arp_hold_flush b mac (arp_learn now b mac ifn s)))" for b mac ifn
    by (intro arp_wf_flush arp_wf_learn assms)
  then have "arp_wf (snd (arp_input now aif fr s))"
    using assms by (auto simp: arp_input_def Let_def split: prod.split) (metis snd_conv)+
  moreover have "arp_wf (snd (snd (snd (arp_resolve_hold now per_s aif a fr s))))"
    using assms arp_wf_park [OF assms] by (auto simp: arp_resolve_hold_def Let_def split: option.split)
  ultimately show ?thesis ..
qed

theorem arp_wf_steps_witness: "arp_wf (snd (arp_input 0 \<lparr>a_nif = None, a_mac = [], a_tx = True\<rparr> [] arp_boot))"
  using arp_wf_steps [OF arp_wf_boot] by (rule conjunct1)

text \<open>
  C33. A frame that had to wait for an unresolved neighbour is transmitted on its own interface, with the
  neighbour's station address filled in, when the neighbour's reply arrives on any interface.
\<close>
theorem arp_hold_delivered:
  assumes w: "arp_wf s" and a: "a \<noteq> 0" "14 \<le> length fr" "length fr \<le> ARP_HOLD_MAX" and miss: "arp_lookup now per_s a s = None"
    and tx: "a_tx aif" and peer: "a_nif peer = Some n" "n_ip n = a" "length (a_mac peer) = 6"
    and us: "length dmac = 6" "length tmac = 6"
  shows "(aif, a_mac peer @ drop 6 fr) \<in> set (fst (arp_input now' rx (arp_frame peer ARP_OP_REPLY dmac tip (Some tmac))
            (snd (snd (snd (arp_resolve_hold now per_s aif a fr s))))))"
proof -
  let ?s = "park now aif a fr s" let ?k = "slot_for h_ip h_stamp a (arp_holds s)"
  let ?f = "arp_frame peer ARP_OP_REPLY dmac tip (Some tmac)"
  have s: "snd (snd (snd (arp_resolve_hold now per_s aif a fr s))) = ?s"
    using a miss by (simp add: arp_resolve_hold_def)
  have ne: "arp_holds s \<noteq> []" using w by (auto simp: arp_wf_def consts_def)
  have k: "?k < length (arp_holds s)" by (rule slot_for_less [OF ne])
  then have fl: "length (h_frame (arp_holds s ! ?k)) = ARP_HOLD_MAX" using w by (auto simp: arp_wf_def)
  let ?h = "(arp_holds s ! ?k)\<lparr>h_ip := a, h_len := length fr, h_aif := Some aif, h_stamp := now, h_frame := blit (h_frame (arp_holds s ! ?k)) 0 fr\<rparr>"
  have hs: "arp_holds ?s = (arp_holds s)[?k := ?h]" using a by (simp add: park_def Let_def)
  have h: "?h \<in> set (arp_holds ?s)" unfolding hs using k by (rule set_update_memI)
  have out: "take (length fr) (blit (blit (h_frame (arp_holds s ! ?k)) 0 fr) 0 (a_mac peer)) = a_mac peer @ drop 6 fr"
    using a fl peer(3) by (simp add: blit_def)
  have len: "length ?f = 42" using us peer by (simp add: arp_frame_def)
  note fields = arp_frame_fields [OF us(1) peer(3,1), of ARP_OP_REPLY tip "Some tmac"]
  have "(aif, a_mac peer @ drop 6 fr) \<in> set (fst (arp_hold_flush a (a_mac peer) (arp_learn now' a (a_mac peer) ifn ?s)))" for ifn
    using flush_sends [OF h, of a aif "a_mac peer"] tx peer(3) out
    by (auto simp: arp_hold_flush_def arp_learn_def split: prod.split)
  then show ?thesis unfolding s using len fields peer(2)
    by (auto simp: arp_input_def Let_def split: prod.split) (metis fst_conv)+
qed


theorem arp_hold_delivered_witness:
  "(sample_aif, replicate 6 1 @ drop 6 (replicate 20 3)) \<in> set (fst (arp_input 1 sample_aif
     (arp_frame sample_aif ARP_OP_REPLY (replicate 6 2) 5 (Some (replicate 6 2)))
     (snd (snd (snd (arp_resolve_hold 0 1 sample_aif 9 (replicate 20 3) arp_boot))))))"
proof -
  have "arp_lookup 0 1 9 arp_boot = None" by (simp add: arp_lookup_def arp_boot_def consts_def find_None_iff)
  then show ?thesis
    using arp_hold_delivered [OF arp_wf_boot, of 9 "replicate 20 3" 0 1 sample_aif sample_aif "lo0_nif\<lparr>n_ip := 9\<rparr>" "replicate 6 2" "replicate 6 2" 1 sample_aif 5]
    by (simp add: sample_aif_def ARP_HOLD_MAX_def)
qed

text \<open>
  A frame whose sender address is zero, as an address probe has it, flushes the free hold slots: an
  empty frame is transmitted for every slot that was ever used.
\<close>
theorem arp_probe_flushes_free:
  assumes "h \<in> set (arp_holds s)" "h_ip h = 0" "h_len h = 0" "h_aif h = Some aif" "a_tx aif"
    and "a_nif peer = Some n" "n_ip n = 0" "length (a_mac peer) = 6" "length dmac = 6"
  shows "(aif, []) \<in> set (fst (arp_input now rx (arp_frame peer ARP_OP_REQUEST dmac tip (Some (replicate 6 0))) s))"
proof -
  let ?f = "arp_frame peer ARP_OP_REQUEST dmac tip (Some (replicate 6 0))"
  have len: "length ?f = 42" using assms by (simp add: arp_frame_def)
  note fields = arp_frame_fields [OF assms(9,8,6), of ARP_OP_REQUEST tip "Some (replicate 6 0)"]
  have "(aif, []) \<in> set (fst (arp_hold_flush 0 (a_mac peer) (arp_learn now 0 (a_mac peer) ifn s)))" for ifn
    using flush_sends [OF assms(1,2,4,5), of "a_mac peer"] assms(3)
    by (auto simp: arp_hold_flush_def arp_learn_def split: prod.split)
  then show ?thesis using len fields assms(7)
    by (auto simp: arp_input_def Let_def split: prod.split) (metis fst_conv)+
qed


theorem arp_probe_flushes_free_witness:
  "(sample_aif, []) \<in> set (fst (arp_input 1 sample_aif
     (arp_frame (sample_aif\<lparr>a_nif := Some (lo0_nif\<lparr>n_ip := 0\<rparr>)\<rparr>) ARP_OP_REQUEST (replicate 6 2) 5 (Some (replicate 6 0)))
     (arp_boot\<lparr>arp_holds := [used_hold]\<rparr>)))"
  by (rule arp_probe_flushes_free [of used_hold _ _ _ "lo0_nif\<lparr>n_ip := 0\<rparr>"]) (simp_all add: used_hold_def sample_aif_def)

end
