(* ===== verification/Ipv4.thy ===== *)
theory Ipv4
  imports Message Netif
begin

text \<open>
  The IPv4 multiplexor of \<open>uts/os/net/ipv4.c\<close>: checksum, the tables of linked lower streams and bound
  upper modules, routing, the send and bind requests and \<open>ioctl\<close>s of the write side, and the demultiplexer of the
  read side. A put procedure yields its return code, the messages it passes on and the new state; a
  \<open>None\<close> result reads outside a message block or passes on a block whose read pointer is beyond its write pointer.
  The theorems: a packet that is sent is accepted by the receiver with the same addresses,
  protocol and payload; routing takes a longest prefix; demultiplexing reaches every bound module
  once.
\<close>

section \<open>Definitions\<close>

definition IP_HDR_LEN :: nat where [consts_def]: "IP_HDR_LEN = 20"
definition IP_DEFAULT_TTL :: u8 where [consts_def]: "IP_DEFAULT_TTL = 64"
definition IP_MAX_LOWERS :: nat where [consts_def]: "IP_MAX_LOWERS = 4"
definition IP_MAX_UPPERS :: nat where [consts_def]: "IP_MAX_UPPERS = 16"

definition IP_T_SEND_REQ :: u8 where [consts_def]: "IP_T_SEND_REQ = 1"
definition IP_T_BIND_REQ :: u8 where [consts_def]: "IP_T_BIND_REQ = 2"
definition IP_T_BIND_ACK :: u8 where [consts_def]: "IP_T_BIND_ACK = 3"
definition IP_T_BIND_NAK :: u8 where [consts_def]: "IP_T_BIND_NAK = 4"
definition IP_T_UNBIND_REQ :: u8 where [consts_def]: "IP_T_UNBIND_REQ = 5"
definition IP_T_UNBIND_ACK :: u8 where [consts_def]: "IP_T_UNBIND_ACK = 6"
definition IP_T_UNITDATA_IND :: u8 where [consts_def]: "IP_T_UNITDATA_IND = 7"

definition I_LINK :: u32 where [consts_def]: "I_LINK = 4"
definition I_UNLINK :: u32 where [consts_def]: "I_UNLINK = 5"

definition SIOCSIFADDR :: u32 where [consts_def]: "SIOCSIFADDR = 0x690c"
definition SIOCGIFADDR :: u32 where [consts_def]: "SIOCGIFADDR = 0x690d"
definition SIOCSIFNETMASK :: u32 where [consts_def]: "SIOCSIFNETMASK = 0x6916"
definition SIOCGIFNETMASK :: u32 where [consts_def]: "SIOCGIFNETMASK = 0x6919"
definition SIOCSIFGW :: u32 where [consts_def]: "SIOCSIFGW = 0x6928"
definition SIOCGIFGW :: u32 where [consts_def]: "SIOCGIFGW = 0x6929"
definition SIOCGIFHWADDR :: u32 where [consts_def]: "SIOCGIFHWADDR = 0x692a"
definition SIOCSIFDNS :: u32 where [consts_def]: "SIOCSIFDNS = 0x692b"
definition SIOCGIFDNS :: u32 where [consts_def]: "SIOCGIFDNS = 0x692c"

subsection \<open>Byte order and checksum\<close>

definition htons16 :: "u16 \<Rightarrow> u16" where
  "htons16 v = push_bit 8 (v AND 0xff) OR (drop_bit 8 v AND 0xff)"

definition htonl32 :: "u32 \<Rightarrow> u32" where
  "htonl32 v = push_bit 24 (v AND 0xff) OR push_bit 8 (v AND 0xff00) OR drop_bit 8 (v AND 0xff0000) OR drop_bit 24 (v AND 0xff000000)"

definition le16 :: "u16 \<Rightarrow> bytes" where
  "le16 v = [ucast v, ucast (drop_bit 8 v)]"

definition un_le16 :: "bytes \<Rightarrow> u16" where
  "un_le16 bs = ucast (bs ! 0) OR push_bit 8 (ucast (bs ! 1))"

fun sum_words :: "bytes \<Rightarrow> u32 \<Rightarrow> u32" where
  "sum_words (a # b # r) s = sum_words r (s + ucast (push_bit 8 (ucast a) OR ucast b :: u16))"
| "sum_words [a] s = s + push_bit 8 (ucast a)"
| "sum_words [] s = s"

function fold16 :: "u32 \<Rightarrow> u32" where
  "fold16 s = (if drop_bit 16 s = 0 then s else fold16 ((s AND 0xffff) + drop_bit 16 s))"
  by pat_completeness auto
termination
proof (relation "measure unat", goal_cases)
  case (2 s)
  have h: "unat (drop_bit 16 s) = unat s div 65536" unfolding unat_drop_bit_eq by (simp add: drop_bit_eq_div)
  have "s AND 0xffff = s mod 65536" using take_bit_eq_mask [of 16 s] by (simp add: mask_eq_exp_minus_1 take_bit_eq_mod)
  then have l: "unat (s AND 0xffff) = unat s mod 65536" by (simp add: unat_mod)
  have "unat s div 65536 \<noteq> 0" using 2 h by (metis unat_eq_zero)
  then have "unat s mod 65536 + unat s div 65536 < unat s" using div_mult_mod_eq [of "unat s" 65536] by linarith
  moreover have "unat ((s AND 0xffff) + drop_bit 16 s) \<le> unat (s AND 0xffff) + unat (drop_bit 16 s)"
    by (simp add: unat_word_ariths)
  ultimately show ?case using h l by simp
qed simp

declare fold16.simps [simp del]

definition ip_checksum :: "bytes \<Rightarrow> u16" where
  "ip_checksum bs = ucast (NOT (fold16 (sum_words bs 0)))"

subsection \<open>Tables\<close>

record ip_lower =
  muxid :: u32
  qbot :: "nat ptr"
  l_nif :: "nat ptr"

record ip_upper =
  active :: bool
  u_proto :: u8
  u_key :: u32
  upper_rq :: "nat ptr"

record net_drops =
  ip_runt :: u64
  ip_badver :: u64
  ip_badihl :: u64
  ip_badlen :: u64
  ip_badcsum :: u64

record ip =
  ip_id_next :: u16
  ip_lowers :: "ip_lower list"
  ip_uppers :: "ip_upper list"
  drops :: net_drops
  inet :: net

text \<open>What a put procedure passes on: down to a lower stream, back up its own stream, or across to a bound queue.\<close>

datatype ip_out = Down nat msg | Reply msg | Deliver "nat ptr" msg

subsection \<open>Routing\<close>

definition usable :: "ip \<Rightarrow> u32 \<Rightarrow> ip_lower \<Rightarrow> bool" where
  "usable s dst l \<longleftrightarrow> qbot l \<noteq> None \<and> (case l_nif l of None \<Rightarrow> False | Some n \<Rightarrow> on_subnet dst (nifs (inet s) n))"

definition lower_prefix :: "ip \<Rightarrow> ip_lower \<Rightarrow> nat" where
  "lower_prefix s l = (case l_nif l of None \<Rightarrow> 0 | Some n \<Rightarrow> popcount32 (n_netmask (nifs (inet s) n)))"

definition has_gateway :: "ip \<Rightarrow> ip_lower \<Rightarrow> bool" where
  "has_gateway s l \<longleftrightarrow> qbot l \<noteq> None \<and> (case l_nif l of None \<Rightarrow> False | Some n \<Rightarrow> n_gateway (nifs (inet s) n) \<noteq> 0)"

definition ip_route :: "u32 \<Rightarrow> ip \<Rightarrow> ip_lower option" where
  "ip_route dst s =
     (case best_from (usable s dst) (lower_prefix s) None 0 (ip_lowers s) of
        None \<Rightarrow> find (has_gateway s) (ip_lowers s)
      | Some l \<Rightarrow> Some l)"

fun register_from :: "u32 \<Rightarrow> nat ptr \<Rightarrow> ip_lower list \<Rightarrow> ip_lower list" where
  "register_from mx nif [] = []"
| "register_from mx nif (l # ls) =
     (if muxid l = mx \<and> qbot l \<noteq> None then l\<lparr>l_nif := nif\<rparr> # ls else l # register_from mx nif ls)"

definition ip_lower_register :: "u32 \<Rightarrow> nat ptr \<Rightarrow> ip \<Rightarrow> ip" where
  "ip_lower_register mx nif s = s\<lparr>ip_lowers := register_from mx nif (ip_lowers s)\<rparr>"

definition ip_route_src :: "u32 \<Rightarrow> ip \<Rightarrow> u32" where
  "ip_route_src dst s =
     (case ip_route dst s of None \<Rightarrow> 0
      | Some l \<Rightarrow> (case l_nif l of None \<Rightarrow> 0 | Some n \<Rightarrow> n_ip (nifs (inet s) n)))"

subsection \<open>Bindings\<close>

definition bound_as :: "u8 \<Rightarrow> u32 \<Rightarrow> nat ptr \<Rightarrow> ip_upper \<Rightarrow> bool" where
  "bound_as proto key rq u \<longleftrightarrow> active u \<and> u_proto u = proto \<and> u_key u = key \<and> upper_rq u = rq"

fun claim_from :: "ip_upper \<Rightarrow> ip_upper list \<Rightarrow> ip_upper list option" where
  "claim_from x [] = None"
| "claim_from x (u # us) = (if \<not> active u then Some (x # us) else map_option ((#) u) (claim_from x us))"

definition ip_bind :: "u8 \<Rightarrow> u32 \<Rightarrow> nat ptr \<Rightarrow> ip \<Rightarrow> int \<times> ip" where
  "ip_bind proto key rq s =
     (if list_ex (bound_as proto key rq) (ip_uppers s) then (-1, s)
      else case claim_from \<lparr>active = True, u_proto = proto, u_key = key, upper_rq = rq\<rparr> (ip_uppers s) of
        None \<Rightarrow> (-1, s)
      | Some us \<Rightarrow> (0, s\<lparr>ip_uppers := us\<rparr>))"

fun release_from :: "u8 \<Rightarrow> u32 \<Rightarrow> nat ptr \<Rightarrow> ip_upper list \<Rightarrow> ip_upper list option" where
  "release_from proto key rq [] = None"
| "release_from proto key rq (u # us) =
     (if bound_as proto key rq u then Some (u\<lparr>active := False, upper_rq := None\<rparr> # us)
      else map_option ((#) u) (release_from proto key rq us))"

definition ip_unbind :: "u8 \<Rightarrow> u32 \<Rightarrow> nat ptr \<Rightarrow> ip \<Rightarrow> int \<times> ip" where
  "ip_unbind proto key rq s =
     (case release_from proto key rq (ip_uppers s) of None \<Rightarrow> (-1, s) | Some us \<Rightarrow> (0, s\<lparr>ip_uppers := us\<rparr>))"

text \<open>\<open>ok\<close>: the allocation of the reply block.\<close>

definition ip_bind_reply :: "bool \<Rightarrow> u8 \<Rightarrow> u8 \<Rightarrow> u32 \<Rightarrow> ip_out list" where
  "ip_bind_reply ok prim proto key = (if ok then [Reply [new_msg M_PROTO ([prim, proto, 0, 0] @ le32 key)]] else [])"

subsection \<open>Write side\<close>

text \<open>An \<open>iocblk\<close> is four 32-bit words, the command first and the error third; a queue address of 0 is NULL.\<close>

definition un_le64 :: "bytes \<Rightarrow> u64" where
  "un_le64 bs = ucast (un_le32 (take 4 bs)) OR push_bit 32 (ucast (un_le32 (drop 4 bs)))"

definition queue_ptr :: "u64 \<Rightarrow> nat ptr" where
  "queue_ptr a = (if a = 0 then None else Some (unat a))"

definition ioc_reply :: "bool \<Rightarrow> piece \<Rightarrow> msg \<Rightarrow> ip_out list" where
  "ioc_reply okay p rest =
     [Reply (p\<lparr>p_type := (if okay then M_IOCACK else M_IOCNAK), p_body := blit (p_body p) 8 (le32 (if okay then 0 else -1))\<rparr> # rest)]"

fun link_from :: "u32 \<Rightarrow> nat ptr \<Rightarrow> ip_lower list \<Rightarrow> ip_lower list option" where
  "link_from idx qb [] = None"
| "link_from idx qb (l # ls) =
     (if muxid l = 0 then Some (\<lparr>muxid = idx, qbot = qb, l_nif = None\<rparr> # ls) else map_option ((#) l) (link_from idx qb ls))"

fun unlink_from :: "u32 \<Rightarrow> ip_lower list \<Rightarrow> ip_lower list option" where
  "unlink_from idx [] = None"
| "unlink_from idx (l # ls) =
     (if muxid l = idx then Some (\<lparr>muxid = 0, qbot = None, l_nif = None\<rparr> # ls) else map_option ((#) l) (unlink_from idx ls))"

definition ip_handle_link :: "piece \<Rightarrow> msg \<Rightarrow> ip \<Rightarrow> (int \<times> ip_out list \<times> ip) option" where
  "ip_handle_link p rest s =
     (let cmd = un_le32 (take 4 (p_body p)) in
      case rest of
        [] \<Rightarrow> Some (0, ioc_reply False p rest, s)
      | lk # _ \<Rightarrow>
          if length (p_body lk) < 20 then None
          else let qb = queue_ptr (un_le64 (subbytes 8 8 (p_body lk))); idx = un_le32 (subbytes 16 4 (p_body lk));
                   ls = (if cmd = I_LINK then link_from idx qb (ip_lowers s)
                         else if cmd = I_UNLINK then unlink_from idx (ip_lowers s) else None)
               in (case ls of
                     None \<Rightarrow> Some (0, ioc_reply False p rest, s)
                   | Some ls' \<Rightarrow> Some (0, ioc_reply True p rest, s\<lparr>ip_lowers := ls'\<rparr>)))"

definition ip_hdr_bytes :: "u16 \<Rightarrow> u16 \<Rightarrow> u8 \<Rightarrow> u16 \<Rightarrow> u32 \<Rightarrow> u32 \<Rightarrow> bytes" where
  "ip_hdr_bytes tlen ident proto cs src dst =
     [0x45, 0] @ le16 (htons16 tlen) @ le16 (htons16 ident) @ le16 0 @ [IP_DEFAULT_TTL, proto]
     @ le16 (htons16 cs) @ le32 (htonl32 src) @ le32 (htonl32 dst)"

text \<open>The request is the meta block \<open>m\<close>; \<open>rest\<close> is the payload chain.\<close>

definition ip_handle_send :: "int \<Rightarrow> piece \<Rightarrow> msg \<Rightarrow> ip \<Rightarrow> int \<times> ip_out list \<times> ip" where
  "ip_handle_send rc m rest s =
     (let proto = p_body m ! 1; dst = un_le32 (subbytes 4 4 (p_body m)) in
      case rest of
        [] \<Rightarrow> (-1, [], s)
      | mp # mps \<Rightarrow>
          (case ip_route dst s of
             None \<Rightarrow> (-1, [], s)
           | Some l \<Rightarrow>
               (case (l_nif l, qbot l) of
                  (Some n, Some q) \<Rightarrow>
                    let nif = nifs (inet s) n; payload = length (p_body mp) in
                    if of_nat payload > n_mtu nif - of_nat IP_HDR_LEN then (-1, [], s)
                    else if p_head mp < IP_HDR_LEN then (-1, [], s)
                    else let ident = ip_id_next s + 1;
                             tlen = of_nat (IP_HDR_LEN + payload);
                             cs = ip_checksum (ip_hdr_bytes tlen ident proto 0 (n_ip nif) dst);
                             hdr = ip_hdr_bytes tlen ident proto cs (n_ip nif) dst
                         in (rc, [Down q (mp\<lparr>p_head := p_head mp - IP_HDR_LEN, p_body := hdr @ p_body mp\<rparr> # mps)],
                             s\<lparr>ip_id_next := ident\<rparr>)
                | _ \<Rightarrow> (-1, [], s))))"

text \<open>\<open>up\<close> is the read queue of the module above, \<open>OTHERQ(q)->q_next\<close>.\<close>

definition ip_handle_bind :: "bool \<Rightarrow> nat ptr \<Rightarrow> piece \<Rightarrow> ip \<Rightarrow> int \<times> ip_out list \<times> ip" where
  "ip_handle_bind ok up m s =
     (if length (p_body m) < 8 then (-1, [], s)
      else let prim = p_body m ! 0; proto = p_body m ! 1; key = un_le32 (subbytes 4 4 (p_body m)) in
        if up = None then (-1, ip_bind_reply ok IP_T_BIND_NAK proto key, s)
        else if prim = IP_T_BIND_REQ then
          (case ip_bind proto key up s of
             (rc, s1) \<Rightarrow> (0, ip_bind_reply ok (if rc = 0 then IP_T_BIND_ACK else IP_T_BIND_NAK) proto key, s1))
        else (case ip_unbind proto key up s of (rc, s1) \<Rightarrow> (0, ip_bind_reply ok IP_T_UNBIND_ACK proto key, s1)))"

definition c_string :: "bytes \<Rightarrow> bytes" where
  "c_string bs = takeWhile (\<lambda>b. b \<noteq> 0) bs"

text \<open>A \<open>kifreq\<close> is an 8-byte name, a 32-bit address, a 6-byte station address and 2 bytes of padding.\<close>

definition ifreq_apply :: "u32 \<Rightarrow> bytes \<Rightarrow> netif \<Rightarrow> (netif \<times> bytes) option" where
  "ifreq_apply cmd r nif =
     (let a = un_le32 (subbytes 8 4 r) in
      if cmd = SIOCSIFADDR then Some (nif\<lparr>n_ip := a\<rparr>, r)
      else if cmd = SIOCSIFNETMASK then Some (nif\<lparr>n_netmask := a\<rparr>, r)
      else if cmd = SIOCSIFGW then Some (nif\<lparr>n_gateway := a\<rparr>, r)
      else if cmd = SIOCGIFADDR then Some (nif, blit r 8 (le32 (n_ip nif)))
      else if cmd = SIOCGIFNETMASK then Some (nif, blit r 8 (le32 (n_netmask nif)))
      else if cmd = SIOCGIFGW then Some (nif, blit r 8 (le32 (n_gateway nif)))
      else if cmd = SIOCSIFDNS then Some (nif\<lparr>n_dns := a\<rparr>, r)
      else if cmd = SIOCGIFDNS then Some (nif, blit r 8 (le32 (n_dns nif)))
      else if cmd = SIOCGIFHWADDR then map_option (\<lambda>mac. (nif, blit r 12 (take 6 mac))) (n_mac nif)
      else None)"

definition ip_handle_ifreq :: "piece \<Rightarrow> msg \<Rightarrow> ip \<Rightarrow> int \<times> ip_out list \<times> ip" where
  "ip_handle_ifreq p rest s =
     (let cmd = un_le32 (take 4 (p_body p)) in
      case rest of
        [] \<Rightarrow> (0, ioc_reply False p rest, s)
      | b # mps \<Rightarrow>
          if length (p_body b) < 20 then (0, ioc_reply False p rest, s)
          else let r = (p_body b)[7 := 0]; rest' = b\<lparr>p_body := r\<rparr> # mps in
            (case netif_find (Some (c_string (take 8 r))) (inet s) of
               None \<Rightarrow> (0, ioc_reply False p rest', s)
             | Some n \<Rightarrow>
                 (case ifreq_apply cmd r (nifs (inet s) n) of
                    None \<Rightarrow> (0, ioc_reply False p rest', s)
                  | Some (nif', r') \<Rightarrow>
                      (0, ioc_reply True p (b\<lparr>p_body := r'\<rparr> # mps),
                       s\<lparr>inet := (inet s)\<lparr>nifs := (nifs (inet s))(n := nif')\<rparr>\<rparr>))))"

definition ip_wput :: "int \<Rightarrow> bool \<Rightarrow> nat ptr \<Rightarrow> msg \<Rightarrow> ip \<Rightarrow> (int \<times> ip_out list \<times> ip) option" where
  "ip_wput rc ok up mp s =
     (case mp of [] \<Rightarrow> Some (0, [], s)
      | p # rest \<Rightarrow>
          if p_type p = M_IOCTL then
            (if length (p_body p) < 16 then None
             else let cmd = un_le32 (take 4 (p_body p)) in
               if cmd = I_LINK \<or> cmd = I_UNLINK then ip_handle_link p rest s
               else if cmd AND 0xff00 = 0x6900 then Some (ip_handle_ifreq p rest s)
               else Some (0, ioc_reply False p rest, s))
          else if p_type p = M_PROTO then
            (if length (p_body p) < 1 then Some (-1, [], s)
             else let prim = p_body p ! 0 in
               if prim = IP_T_SEND_REQ then
                 (if length (p_body p) < 8 then Some (-1, [], s) else Some (ip_handle_send rc p rest s))
               else if prim = IP_T_BIND_REQ \<or> prim = IP_T_UNBIND_REQ then Some (ip_handle_bind ok up p s)
               else Some (-1, [], s))
          else Some (0, [], s))"

definition ip_send_meta :: "u32 \<Rightarrow> u8 \<Rightarrow> piece" where
  "ip_send_meta dst proto = new_msg M_PROTO ([IP_T_SEND_REQ, proto, 0, 0] @ le32 dst)"

text \<open>\<open>ip_send\<close> hands the request to the control stream, whose write side ends in \<open>ip_wput\<close>;
  \<open>ok\<close>: that stream exists and the allocation of the request succeeds.\<close>

definition ip_send :: "int \<Rightarrow> bool \<Rightarrow> u32 \<Rightarrow> u8 \<Rightarrow> msg \<Rightarrow> ip \<Rightarrow> (int \<times> ip_out list \<times> ip) option" where
  "ip_send rc ok dst proto mp s =
     (if mp = [] \<or> \<not> ok then Some (-1, [], s) else ip_wput rc True None (ip_send_meta dst proto # mp) s)"

subsection \<open>Read side\<close>

definition build_unitdata_ind :: "u8 \<Rightarrow> u32 \<Rightarrow> u32 \<Rightarrow> piece" where
  "build_unitdata_ind proto src dst = new_msg M_PROTO ([IP_T_UNITDATA_IND, proto, 0, 0] @ le32 src @ le32 dst)"

text \<open>\<open>dup_ok j\<close> and \<open>ind_ok j\<close>: the allocations for the \<open>j\<close>-th recipient.\<close>

definition ip_matches :: "u8 \<Rightarrow> ip \<Rightarrow> nat ptr list" where
  "ip_matches proto s = map upper_rq (filter (\<lambda>u. active u \<and> u_proto u = proto) (ip_uppers s))"

definition ip_demux :: "(nat \<Rightarrow> bool) \<Rightarrow> (nat \<Rightarrow> bool) \<Rightarrow> u8 \<Rightarrow> u32 \<Rightarrow> u32 \<Rightarrow> msg \<Rightarrow> ip \<Rightarrow> ip_out list" where
  "ip_demux dup_ok ind_ok proto src dst body s =
     (let ms = ip_matches proto s; n = length ms; d = (\<lambda>j. Deliver (ms ! j) (build_unitdata_ind proto src dst # body)) in
      if n = 0 then []
      else map d (filter (\<lambda>j. dup_ok j \<and> ind_ok j) [0..<n - 1]) @ (if ind_ok (n - 1) then [d (n - 1)] else []))"

definition ip_rput :: "(nat \<Rightarrow> bool) \<Rightarrow> (nat \<Rightarrow> bool) \<Rightarrow> msg \<Rightarrow> ip \<Rightarrow> (int \<times> ip_out list \<times> ip) option" where
  "ip_rput dup_ok ind_ok mp s =
     (case mp of [] \<Rightarrow> Some (0, [], s)
      | p # mps \<Rightarrow>
          if p_type p \<noteq> M_DATA then Some (0, [], s)
          else let h = p_body p; len = length h; dr = drops s in
            if len < IP_HDR_LEN then Some (0, [], s\<lparr>drops := dr\<lparr>ip_runt := ip_runt dr + 1\<rparr>\<rparr>)
            else if drop_bit 4 (h ! 0) \<noteq> 4 then Some (0, [], s\<lparr>drops := dr\<lparr>ip_badver := ip_badver dr + 1\<rparr>\<rparr>)
            else let ihl = unat (h ! 0 AND 0xf) * 4 in
              if ihl < IP_HDR_LEN \<or> ihl > len then Some (0, [], s\<lparr>drops := dr\<lparr>ip_badihl := ip_badihl dr + 1\<rparr>\<rparr>)
              else let tot = unat (htons16 (un_le16 (subbytes 2 2 h))) in
                if tot > len \<or> tot < IP_HDR_LEN then Some (0, [], s\<lparr>drops := dr\<lparr>ip_badlen := ip_badlen dr + 1\<rparr>\<rparr>)
                else if ip_checksum (take ihl h) \<noteq> 0 then Some (0, [], s\<lparr>drops := dr\<lparr>ip_badcsum := ip_badcsum dr + 1\<rparr>\<rparr>)
                else if tot < ihl then None
                else let src = htonl32 (un_le32 (subbytes 12 4 h)); dst = htonl32 (un_le32 (subbytes 16 4 h));
                         body = p\<lparr>p_head := p_head p + ihl, p_body := drop ihl (take tot h), p_tail := p_tail p + (len - tot)\<rparr>
                     in Some (0, ip_demux dup_ok ind_ok (h ! 9) src dst (body # (if tot < len then [] else mps)) s, s))"

text \<open>The loopback driver sends every data message straight back up.\<close>

definition lo_wq_putp :: "msg \<Rightarrow> msg option" where
  "lo_wq_putp mp = (case mp of [] \<Rightarrow> None | p # _ \<Rightarrow> if p_type p \<noteq> M_DATA then None else Some mp)"

text \<open>The 16-bit words of a byte string added up without wrap-around.\<close>

fun word_sum :: "bytes \<Rightarrow> nat" where
  "word_sum (a # b # r) = 256 * unat a + unat b + word_sum r"
| "word_sum [a] = 256 * unat a"
| "word_sum [] = 0"

text \<open>An options header whose total length is that of a header without options.\<close>

definition short_packet :: msg where
  "short_packet = [new_msg M_DATA ([0x46, 0, 0, 20, 0, 0, 0, 0, 64, 17, 0x65, 0xd7, 10, 0, 0, 1, 10, 0, 0, 2] @ [0, 0, 0, 0])]"

definition sample_ip :: ip where
  "sample_ip = \<lparr>ip_id_next = 0, ip_lowers = [\<lparr>muxid = 1, qbot = Some 5, l_nif = Some 0\<rparr>],
     ip_uppers = [\<lparr>active = True, u_proto = 17, u_key = 0, upper_rq = Some 8\<rparr>, \<lparr>active = False, u_proto = 0, u_key = 0, upper_rq = None\<rparr>],
     drops = \<lparr>ip_runt = 0, ip_badver = 0, ip_badihl = 0, ip_badlen = 0, ip_badcsum = 0\<rparr>,
     inet = \<lparr>nifs = \<lambda>_. lo0_nif, netif_list = [0]\<rparr>\<rparr>"

section \<open>Lemmas\<close>

subsection \<open>Byte order\<close>

lemma byte_masks:
  "(0xff :: u16) = mask 8" "(0xff :: u32) = mask 8" "(0xff00 :: u32) = push_bit 8 (mask 8)"
  "(0xff0000 :: u32) = push_bit 16 (mask 8)" "(0xff000000 :: u32) = push_bit 24 (mask 8)"
  by (simp_all add: mask_eq_exp_minus_1 push_bit_eq_mult)

lemma htons16_htons16 [simp]: "htons16 (htons16 v) = v"
  unfolding htons16_def byte_masks by (rule bit_word_eqI) (auto simp: bit_simps)

lemma htonl32_htonl32 [simp]: "htonl32 (htonl32 v) = v"
proof (rule bit_word_eqI)
  fix n assume "n < LENGTH(32)"
  then have "n < 32" by simp
  then show "bit (htonl32 (htonl32 v)) n \<longleftrightarrow> bit v n" unfolding htonl32_def byte_masks
    by (cases rule: byte_lane_cases) (auto simp: bit_simps)
qed

lemma un_le16_le16 [simp]: "un_le16 (le16 v) = v"
  unfolding un_le16_def le16_def by (rule bit_word_eqI) (auto simp: bit_simps)

lemma length_le16 [simp]: "length (le16 v) = 2"
  by (simp add: le16_def)

lemma le16_htons16: "le16 (htons16 v) = be16 v"
proof -
  have "(ucast (htons16 v) :: u8) = ucast (drop_bit 8 v)" "(ucast (drop_bit 8 (htons16 v)) :: u8) = ucast v"
    unfolding htons16_def byte_masks by (rule bit_word_eqI, auto simp: bit_simps)+
  then show ?thesis by (simp add: le16_def be16_def)
qed

subsection \<open>Checksum\<close>

lemma unat_bytes16: "256 * unat (ucast (drop_bit 8 v) :: u8) + unat (ucast v :: u8) = unat (v :: u16)"
proof -
  have l: "unat (ucast v :: u8) = unat v mod 256" by (simp add: unsigned_ucast_eq take_bit_eq_mod)
  have "unat v < 65536" using unsigned_less [of v, where ?'a = nat] by simp
  then have "unat v div 256 < 256" by auto
  moreover have "unat (drop_bit 8 v) = unat v div 256" unfolding unat_drop_bit_eq by (simp add: drop_bit_eq_div)
  ultimately have "unat (ucast (drop_bit 8 v) :: u8) = unat v div 256" by (simp add: unsigned_ucast_eq take_bit_eq_mod)
  with l show ?thesis by simp
qed

lemma unat_pair16: "unat (ucast (push_bit 8 (ucast a) OR ucast b :: u16) :: u32) = 256 * unat (a :: u8) + unat (b :: u8)"
proof -
  let ?w = "push_bit 8 (ucast a) OR ucast b :: u16"
  have "(ucast (drop_bit 8 ?w) :: u8) = a" "(ucast ?w :: u8) = b" by (rule bit_word_eqI, auto simp: bit_simps dest: bit_imp_le_length)+
  then have "unat ?w = 256 * unat a + unat b" using unat_bytes16 [of ?w] by simp
  moreover have "unat (ucast ?w :: u32) = unat ?w" by (simp add: unsigned_ucast_eq take_bit_eq_mod order_less_trans [OF unsigned_less [where ?'a = nat]])
  ultimately show ?thesis by simp
qed

lemma sum_words_unat:
  assumes "even (length bs)" "unat s + word_sum bs < 2 ^ 32"
  shows "unat (sum_words bs s) = unat s + word_sum bs"
  using assms
proof (induction bs s rule: sum_words.induct)
  case (1 a b r s)
  let ?w = "ucast (push_bit 8 (ucast a) OR ucast b :: u16) :: u32"
  have w: "unat ?w = 256 * unat a + unat b" by (rule unat_pair16)
  have "unat (s + ?w) = (unat s + unat ?w) mod 2 ^ 32" by (simp add: unat_word_ariths)
  also have "\<dots> = unat s + unat ?w" using 1(3) w by (intro mod_less) simp
  finally have u: "unat (s + ?w) = unat s + (256 * unat a + unat b)" by (simp only: w)
  have "unat (sum_words r (s + ?w)) = unat (s + ?w) + word_sum r" using 1(1,2,3) u by simp
  then show ?case using u by simp
qed simp_all

lemma fold16_spec:
  "unat (fold16 s) < 65536 \<and> unat (fold16 s) mod 65535 = unat s mod 65535 \<and> (fold16 s = 0 \<longleftrightarrow> s = 0)"
proof (induction s rule: fold16.induct)
  case (1 s)
  have h: "unat (drop_bit 16 s) = unat s div 65536" unfolding unat_drop_bit_eq by (simp add: drop_bit_eq_div)
  show ?case
  proof (cases "drop_bit 16 s = 0")
    case True
    then have "unat s div 65536 = 0" using h by simp
    then have "unat s < 65536" by (simp add: div_eq_0_iff)
    then show ?thesis using True by (simp add: fold16.simps [of s])
  next
    case False
    let ?t = "(s AND 0xffff) + drop_bit 16 s"
    have "s AND 0xffff = s mod 65536" using take_bit_eq_mask [of 16 s] by (simp add: mask_eq_exp_minus_1 take_bit_eq_mod)
    then have l: "unat (s AND 0xffff) = unat s mod 65536" by (simp add: unat_mod)
    have b: "unat s < 4294967296" using unsigned_less [of s, where ?'a = nat] by simp
    then have d: "unat s div 65536 < 65536" by auto
    have "unat ?t = (unat (s AND 0xffff) + unat (drop_bit 16 s)) mod 4294967296" by (simp add: unat_word_ariths)
    moreover have "unat s mod 65536 < 65536" by simp
    ultimately have t: "unat ?t = unat s mod 65536 + unat s div 65536" using h l d by simp
    have "unat s = 65535 * (unat s div 65536) + (unat s mod 65536 + unat s div 65536)"
      using div_mult_mod_eq [of "unat s" 65536] by linarith
    then have m: "unat ?t mod 65535 = unat s mod 65535" unfolding t by (metis mod_mult_self4)
    have "unat s div 65536 \<noteq> 0" using False h by (metis unat_eq_zero)
    then have "?t \<noteq> 0" "s \<noteq> 0" using t by auto
    then show ?thesis using 1(1) [OF False] m False by (simp add: fold16.simps [of s])
  qed
qed

lemma unat_ip_checksum: "unat (ip_checksum bs) = 65535 - unat (fold16 (sum_words bs 0))"
proof -
  let ?f = "fold16 (sum_words bs 0)"
  have f: "unat ?f < 65536" using fold16_spec by blast
  have c: "ip_checksum bs = NOT (ucast ?f)" unfolding ip_checksum_def by (rule bit_word_eqI) (auto simp: bit_simps)
  have u: "unat (ucast ?f :: u16) = unat ?f" using f by (simp add: unsigned_ucast_eq take_bit_eq_mod)
  have "NOT (ucast ?f :: u16) = - 1 - ucast ?f" by (simp add: not_eq_complement)
  then have "unat (NOT (ucast ?f :: u16)) = unat (- 1 :: u16) - unat (ucast ?f :: u16)"
    by (simp only:) (rule unat_sub, simp)
  moreover have "unat (- 1 :: u16) = 65535" by (simp add: unsigned_minus_1_eq_mask mask_eq_exp_minus_1)
  ultimately show ?thesis using u by (simp only: c)
qed

lemma word_sum_append: "even (length xs) \<Longrightarrow> word_sum (xs @ ys) = word_sum xs + word_sum ys"
  by (induction xs rule: word_sum.induct) auto

lemma word_sum_be16 [simp]: "word_sum (be16 v) = unat v"
  using unat_bytes16 [of v] by (simp add: be16_def)

lemma word_sum_bound: "word_sum bs \<le> 65535 * ((length bs + 1) div 2)"
proof (induction bs rule: word_sum.induct)
  case (1 a b r)
  have "unat a < 256" "unat b < 256" using unsigned_less [of a, where ?'a = nat] unsigned_less [of b, where ?'a = nat] by simp_all
  then show ?case using 1 by simp
next
  case (2 a)
  then show ?case using unsigned_less [of a, where ?'a = nat] by simp
qed simp

lemma length_hdr [simp]: "length (ip_hdr_bytes t i p c x y) = 20"
  by (simp add: ip_hdr_bytes_def)

lemma word_sum_hdr:
  "word_sum (ip_hdr_bytes t i p c x y) = word_sum (ip_hdr_bytes t i p 0 x y) + unat c"
  by (simp add: ip_hdr_bytes_def word_sum_append le16_htons16)

lemma word_sum_hdr_pos: "0 < word_sum (ip_hdr_bytes t i p c x y)"
  by (simp add: ip_hdr_bytes_def)

lemma sum_words_hdr: "unat (sum_words (ip_hdr_bytes t i p c x y) 0) = word_sum (ip_hdr_bytes t i p c x y)"
  using word_sum_bound [of "ip_hdr_bytes t i p c x y"] by (subst sum_words_unat) simp_all

text \<open>A header that carries its own checksum sums to zero.\<close>

lemma hdr_checksum_zero: "ip_checksum (ip_hdr_bytes t i p (ip_checksum (ip_hdr_bytes t i p 0 x y)) x y) = 0"
proof -
  let ?z = "ip_hdr_bytes t i p 0 x y" let ?c = "ip_checksum ?z" let ?h = "ip_hdr_bytes t i p ?c x y"
  let ?n = "word_sum ?z" let ?f = "unat (fold16 (sum_words ?z 0))" let ?g = "unat (fold16 (sum_words ?h 0))"
  have "fold16 (sum_words ?z 0) \<noteq> 0" using fold16_spec [of "sum_words ?z 0"] sum_words_hdr [of t i p 0 x y] word_sum_hdr_pos [of t i p 0 x y] by auto
  then have f: "?f < 65536" "?f mod 65535 = ?n mod 65535" "0 < ?f"
    using fold16_spec [of "sum_words ?z 0"] sum_words_hdr [of t i p 0 x y] by (simp_all add: unat_gt_0)
  have s: "unat (sum_words ?h 0) = ?n + (65535 - ?f)" using sum_words_hdr [of t i p ?c x y] word_sum_hdr [of t i p ?c x y] unat_ip_checksum [of ?z] by simp
  have "(?n + (65535 - ?f)) mod 65535 = (?n mod 65535 + (65535 - ?f)) mod 65535" by (simp add: mod_add_left_eq)
  also have "\<dots> = (?f mod 65535 + (65535 - ?f)) mod 65535" by (simp only: f(2))
  also have "\<dots> = (?f + (65535 - ?f)) mod 65535" by (simp add: mod_add_left_eq)
  also have "\<dots> = 0" using f(1) by simp
  finally have g: "?g mod 65535 = 0" using fold16_spec [of "sum_words ?h 0"] s by simp
  have "fold16 (sum_words ?h 0) \<noteq> 0" using fold16_spec [of "sum_words ?h 0"] s word_sum_hdr_pos [of t i p 0 x y] by auto
  then have "0 < ?g" by (simp add: unat_gt_0)
  moreover have "?g < 65536" using fold16_spec by blast
  ultimately have "?g = 65535" using g by (cases "?g < 65535") auto
  then have "unat (ip_checksum ?h) = 0" using unat_ip_checksum [of ?h] by simp
  then show ?thesis by (simp add: unat_eq_zero)
qed

subsection \<open>Sending and receiving\<close>

lemma hdr_fields:
  "ip_hdr_bytes t i p c x y ! 0 = 0x45" "ip_hdr_bytes t i p c x y ! 9 = p"
  "htons16 (un_le16 (subbytes 2 2 (ip_hdr_bytes t i p c x y @ b))) = t"
  "htonl32 (un_le32 (subbytes 12 4 (ip_hdr_bytes t i p c x y @ b))) = x"
  "htonl32 (un_le32 (subbytes 16 4 (ip_hdr_bytes t i p c x y @ b))) = y"
proof -
  have t: "subbytes 2 2 (ip_hdr_bytes t i p c x y @ b) = le16 (htons16 t)"
    "subbytes 12 4 (ip_hdr_bytes t i p c x y @ b) = le32 (htonl32 x)"
    "subbytes 16 4 (ip_hdr_bytes t i p c x y @ b) = le32 (htonl32 y)"
    by (simp_all add: ip_hdr_bytes_def subbytes_def)
  show "ip_hdr_bytes t i p c x y ! 0 = 0x45" by (simp add: ip_hdr_bytes_def)
  show "ip_hdr_bytes t i p c x y ! 9 = p" by (simp add: ip_hdr_bytes_def nth_append)
  show "htons16 (un_le16 (subbytes 2 2 (ip_hdr_bytes t i p c x y @ b))) = t"
    "htonl32 (un_le32 (subbytes 12 4 (ip_hdr_bytes t i p c x y @ b))) = x"
    "htonl32 (un_le32 (subbytes 16 4 (ip_hdr_bytes t i p c x y @ b))) = y" unfolding t by simp_all
qed

lemma ihl_45: "drop_bit 4 (0x45 :: u8) = 4" "unat ((0x45 :: u8) AND 0xf) = 5"
  by (simp_all add: drop_bit_eq_div)

text \<open>A well-formed data packet is demultiplexed with its header stripped.\<close>

lemma ip_rput_accepts:
  assumes "p_type m = M_DATA" "20 + length b < 65536"
    "p_body m = ip_hdr_bytes (of_nat (20 + length b)) i p (ip_checksum (ip_hdr_bytes (of_nat (20 + length b)) i p 0 x y)) x y @ b"
  shows "ip_rput dk ik (m # rest) s = Some (0, ip_demux dk ik p x y (m\<lparr>p_head := p_head m + 20, p_body := b\<rparr> # rest) s, s)"
proof -
  let ?h = "ip_hdr_bytes (of_nat (20 + length b)) i p (ip_checksum (ip_hdr_bytes (of_nat (20 + length b)) i p 0 x y)) x y"
  have u: "unat (of_nat (20 + length b) :: u16) = 20 + length b" using assms(2) by (simp only: unat_of_nat) simp
  have z: "ip_checksum (take 20 (?h @ b)) = 0" using hdr_checksum_zero [of "of_nat (20 + length b)" i p x y] by simp
  have n: "(?h @ b) ! 0 = 0x45" "(?h @ b) ! 9 = p" by (simp_all add: nth_append hdr_fields(1,2))
  show ?thesis unfolding ip_rput_def using assms(1) z u
    by (simp add: assms(3) n ihl_45 hdr_fields(3,4,5) Let_def IP_HDR_LEN_def del: of_nat_add)
qed

lemma ip_send_meta_fields:
  "p_body (ip_send_meta d p) ! Suc 0 = p" "un_le32 (subbytes 4 4 (p_body (ip_send_meta d p))) = d"
proof -
  have "subbytes 4 4 (p_body (ip_send_meta d p)) = le32 d" by (simp add: ip_send_meta_def new_msg_def subbytes_def)
  then show "un_le32 (subbytes 4 4 (p_body (ip_send_meta d p))) = d" by simp
qed (simp add: ip_send_meta_def new_msg_def)

lemma ip_demux_eq: "ip_demux (\<lambda>_. True) (\<lambda>_. True) p x y b s = map (\<lambda>q. Deliver q (build_unitdata_ind p x y # b)) (ip_matches p s)"
proof (cases "ip_matches p s" rule: rev_cases)
  case (snoc ms q)
  have "map (\<lambda>j. Deliver ((ms @ [q]) ! j) z) [0..<length ms] = map (\<lambda>q. Deliver q z) ms" for z
    by (rule nth_equalityI) (simp_all add: nth_append)
  then show ?thesis using snoc by (simp add: ip_demux_def Let_def)
qed (simp add: ip_demux_def)

subsection \<open>Bindings\<close>

lemma claim_release:
  assumes "claim_from \<lparr>active = True, u_proto = p, u_key = k, upper_rq = q\<rparr> us = Some us'" "\<not> list_ex (bound_as p k q) us"
  shows "\<exists>us2. release_from p k q us' = Some us2 \<and> map upper_rq (filter (\<lambda>u. active u \<and> u_proto u = r) us2) = map upper_rq (filter (\<lambda>u. active u \<and> u_proto u = r) us)"
  using assms
proof (induction us arbitrary: us')
  case (Cons u us)
  show ?case
  proof (cases "active u")
    case False
    then have "us' = \<lparr>active = True, u_proto = p, u_key = k, upper_rq = q\<rparr> # us" using Cons.prems(1) by simp
    then show ?thesis using False by (simp add: bound_as_def)
  next
    case True
    then obtain v where v: "claim_from \<lparr>active = True, u_proto = p, u_key = k, upper_rq = q\<rparr> us = Some v" "us' = u # v"
      using Cons.prems(1) by auto
    obtain w where w: "release_from p k q v = Some w"
      "map upper_rq (filter (\<lambda>u. active u \<and> u_proto u = r) w) = map upper_rq (filter (\<lambda>u. active u \<and> u_proto u = r) us)"
      using Cons.IH [OF v(1)] Cons.prems(2) by auto
    then show ?thesis using v(2) True Cons.prems(2) by simp
  qed
qed simp

subsection \<open>Properties\<close>

lemma ip_handle_send_ok:
  assumes "ip_route dst s = Some l" "l_nif l = Some n" "qbot l = Some q"
    "20 + length (p_body mp) \<le> unat (n_mtu (nifs (inet s) n))" "n_mtu (nifs (inet s) n) < 65536" "20 \<le> p_head mp"
  obtains i c where "c = ip_checksum (ip_hdr_bytes (of_nat (20 + length (p_body mp))) i proto 0 (n_ip (nifs (inet s) n)) dst)"
    "ip_handle_send rc (ip_send_meta dst proto) (mp # rest) s = (rc, [Down q (mp\<lparr>p_head := p_head mp - 20,
        p_body := ip_hdr_bytes (of_nat (20 + length (p_body mp))) i proto c (n_ip (nifs (inet s) n)) dst @ p_body mp\<rparr> # rest)],
      s\<lparr>ip_id_next := ip_id_next s + 1\<rparr>)" "20 + length (p_body mp) < 65536"
proof -
  let ?nif = "nifs (inet s) n" let ?b = "p_body mp" let ?i = "ip_id_next s + 1" let ?t = "of_nat (20 + length ?b) :: u16"
  let ?c = "ip_checksum (ip_hdr_bytes ?t ?i proto 0 (n_ip ?nif) dst)"
  have u: "unat (n_mtu ?nif) < 65536" using assms(5) by (simp add: word_less_nat_alt)
  then have l: "20 + length ?b < 65536" using assms(4) by simp
  have g: "20 \<le> n_mtu ?nif" using assms(4) by (simp add: word_le_nat_alt)
  have "unat (n_mtu ?nif - 20) = unat (n_mtu ?nif) - 20" using unat_sub [OF g] by simp
  moreover have "unat (of_nat (length ?b) :: u32) = length ?b" using l by (simp add: unat_of_nat)
  ultimately have f: "\<not> (n_mtu ?nif - 20 < of_nat (length ?b))" using assms(4) by (simp add: word_less_nat_alt)
  have "ip_handle_send rc (ip_send_meta dst proto) (mp # rest) s = (rc, [Down q (mp\<lparr>p_head := p_head mp - 20,
      p_body := ip_hdr_bytes ?t ?i proto ?c (n_ip ?nif) dst @ ?b\<rparr> # rest)], s\<lparr>ip_id_next := ?i\<rparr>)"
    using assms(1,2,3,6) f by (simp add: ip_handle_send_def ip_send_meta_fields Let_def IP_HDR_LEN_def)
  then show thesis using that [OF refl] l by blast
qed

text \<open>A request handed to IP leaves as a packet that every receiver hands to the modules of the protocol.\<close>

lemma ip_carries:
  assumes "ip_route dst s = Some l" "l_nif l = Some n" "qbot l = Some q"
    "20 + length (p_body mp) \<le> unat (n_mtu (nifs (inet s) n))" "n_mtu (nifs (inet s) n) < 65536" "20 \<le> p_head mp" "p_type mp = M_DATA"
  shows "\<exists>pkt. ip_wput rc ok up (ip_send_meta dst proto # mp # rest) s = Some (rc, [Down q pkt], s\<lparr>ip_id_next := ip_id_next s + 1\<rparr>)
    \<and> (\<forall>r. ip_rput (\<lambda>_. True) (\<lambda>_. True) pkt r
      = Some (0, map (\<lambda>rq. Deliver rq (build_unitdata_ind proto (n_ip (nifs (inet s) n)) dst # mp # rest)) (ip_matches proto r), r))"
proof -
  let ?nif = "nifs (inet s) n" let ?b = "p_body mp" let ?t = "of_nat (20 + length ?b) :: u16"
  obtain i c where c: "c = ip_checksum (ip_hdr_bytes ?t i proto 0 (n_ip ?nif) dst)"
    and snd: "ip_handle_send rc (ip_send_meta dst proto) (mp # rest) s = (rc, [Down q (mp\<lparr>p_head := p_head mp - 20,
        p_body := ip_hdr_bytes ?t i proto c (n_ip ?nif) dst @ ?b\<rparr> # rest)], s\<lparr>ip_id_next := ip_id_next s + 1\<rparr>)"
    and l: "20 + length ?b < 65536"
    by (rule ip_handle_send_ok [OF assms(1-6)])
  let ?m = "mp\<lparr>p_head := p_head mp - 20, p_body := ip_hdr_bytes ?t i proto c (n_ip ?nif) dst @ ?b\<rparr>"
  have "ip_wput rc ok up (ip_send_meta dst proto # mp # rest) s = Some (rc, [Down q (?m # rest)], s\<lparr>ip_id_next := ip_id_next s + 1\<rparr>)"
    using snd by (simp add: ip_wput_def ip_send_meta_def new_msg_def consts_def)
  moreover have "ip_rput (\<lambda>_. True) (\<lambda>_. True) (?m # rest) r
      = Some (0, ip_demux (\<lambda>_. True) (\<lambda>_. True) proto (n_ip ?nif) dst (?m\<lparr>p_head := p_head ?m + 20, p_body := ?b\<rparr> # rest) r, r)" for r
    using l assms(7) by (intro ip_rput_accepts) (simp_all add: c)
  moreover have "?m\<lparr>p_head := p_head ?m + 20, p_body := ?b\<rparr> = mp" using assms(6) by (cases mp) simp
  ultimately show ?thesis using ip_demux_eq by (intro exI [of _ "?m # rest"]) simp
qed

lemma unitdata_ind_fields:
  "p_type (build_unitdata_ind q a b) = M_PROTO" "p_body (build_unitdata_ind q a b) \<noteq> []" "length (p_body (build_unitdata_ind q a b)) = 12"
  "p_body (build_unitdata_ind q a b) ! 0 = IP_T_UNITDATA_IND" "un_le32 (subbytes 4 4 (p_body (build_unitdata_ind q a b))) = a"
proof -
  have "subbytes 4 4 (p_body (build_unitdata_ind q a b)) = le32 a" by (simp add: build_unitdata_ind_def new_msg_def subbytes_def)
  then show "un_le32 (subbytes 4 4 (p_body (build_unitdata_ind q a b))) = a" by simp
qed (simp_all add: build_unitdata_ind_def new_msg_def)

text \<open>
  C9. What one host sends another receives: for every payload that fits the MTU of the chosen interface,
  the packet that leaves on its lower stream passes every check of the receiver, and the module bound
  to the protocol there gets the payload unchanged with the sender's and the destination's address.
\<close>
theorem ip_send_receive:
  assumes "ip_route dst s = Some l" "l_nif l = Some n" "qbot l = Some q"
    "20 + length (p_body mp) \<le> unat (n_mtu (nifs (inet s) n))" "n_mtu (nifs (inet s) n) < 65536"
    "20 \<le> p_head mp" "p_type mp = M_DATA"
  shows "\<exists>pkt. ip_handle_send rc (ip_send_meta dst proto) (mp # rest) s = (rc, [Down q pkt], s\<lparr>ip_id_next := ip_id_next s + 1\<rparr>)
    \<and> ip_rput (\<lambda>_. True) (\<lambda>_. True) pkt r
      = Some (0, map (\<lambda>rq. Deliver rq (build_unitdata_ind proto (n_ip (nifs (inet s) n)) dst # mp # rest)) (ip_matches proto r), r)"
proof -
  let ?nif = "nifs (inet s) n" let ?b = "p_body mp" let ?t = "of_nat (20 + length ?b) :: u16"
  obtain i c where c: "c = ip_checksum (ip_hdr_bytes ?t i proto 0 (n_ip ?nif) dst)"
    and snd: "ip_handle_send rc (ip_send_meta dst proto) (mp # rest) s = (rc, [Down q (mp\<lparr>p_head := p_head mp - 20,
        p_body := ip_hdr_bytes ?t i proto c (n_ip ?nif) dst @ ?b\<rparr> # rest)], s\<lparr>ip_id_next := ip_id_next s + 1\<rparr>)"
    and l: "20 + length ?b < 65536"
    by (rule ip_handle_send_ok [OF assms(1-6)])
  let ?m = "mp\<lparr>p_head := p_head mp - 20, p_body := ip_hdr_bytes ?t i proto c (n_ip ?nif) dst @ ?b\<rparr>"
  have "ip_rput (\<lambda>_. True) (\<lambda>_. True) (?m # rest) r
      = Some (0, ip_demux (\<lambda>_. True) (\<lambda>_. True) proto (n_ip ?nif) dst (?m\<lparr>p_head := p_head ?m + 20, p_body := ?b\<rparr> # rest) r, r)"
    using l assms(7) by (intro ip_rput_accepts) (simp_all add: c)
  moreover have "?m\<lparr>p_head := p_head ?m + 20, p_body := ?b\<rparr> = mp" using assms(6) by (cases mp) simp
  ultimately show ?thesis using snd ip_demux_eq by (intro exI [of _ "?m # rest"]) simp
qed

lemma sample_route: "ip_route 0x7f000009 sample_ip = Some \<lparr>muxid = 1, qbot = Some 5, l_nif = Some 0\<rparr>"
  by (simp add: ip_route_def sample_ip_def usable_def on_subnet_def lo0_nif_def)

theorem ip_send_receive_witness:
  "\<exists>pkt. ip_handle_send 0 (ip_send_meta 0x7f000009 17) [\<lparr>p_type = M_DATA, p_head = 20, p_body = [1, 2], p_tail = 0\<rparr>] sample_ip
      = (0, [Down 5 pkt], sample_ip\<lparr>ip_id_next := ip_id_next sample_ip + 1\<rparr>)
    \<and> ip_rput (\<lambda>_. True) (\<lambda>_. True) pkt sample_ip
      = Some (0, [Deliver (Some 8) [build_unitdata_ind 17 0x7f000001 0x7f000009, \<lparr>p_type = M_DATA, p_head = 20, p_body = [1, 2], p_tail = 0\<rparr>]], sample_ip)"
proof -
  have "ip_matches 17 sample_ip = [Some 8]" by (simp add: ip_matches_def sample_ip_def)
  moreover have "n_ip (nifs (inet sample_ip) 0) = 0x7f000001" "n_mtu (nifs (inet sample_ip) 0) = 1500"
    by (simp_all add: sample_ip_def lo0_nif_def)
  ultimately show ?thesis
    using ip_send_receive [OF sample_route, of 0 5 "\<lparr>p_type = M_DATA, p_head = 20, p_body = [1, 2], p_tail = 0\<rparr>" 0 17 "[]" sample_ip] by simp
qed

text \<open>
  C26. Routing: when some linked interface has the destination on its subnet, the one chosen has a longest
  mask of those; otherwise the first linked interface with a gateway is chosen, and there is no route
  exactly when there is none of either kind.
\<close>
theorem ip_route_choice:
  "case ip_route dst s of
     Some l \<Rightarrow> l \<in> set (ip_lowers s) \<and>
       (if list_ex (usable s dst) (ip_lowers s)
        then usable s dst l \<and> list_all (\<lambda>k. lower_prefix s k \<le> lower_prefix s l) (filter (usable s dst) (ip_lowers s))
        else find (has_gateway s) (ip_lowers s) = Some l \<and> has_gateway s l)
   | None \<Rightarrow> \<not> list_ex (usable s dst) (ip_lowers s) \<and> \<not> list_ex (has_gateway s) (ip_lowers s)"
proof -
  let ?r = "best_from (usable s dst) (lower_prefix s) None 0 (ip_lowers s)"
  note b = best_from_spec [of "usable s dst" "lower_prefix s" None 0 "ip_lowers s" ?r, OF refl]
  show ?thesis
  proof (cases ?r)
    case None
    then have n: "\<not> list_ex (usable s dst) (ip_lowers s)" using b(1) by (auto simp: list_ex_iff)
    show ?thesis
    proof (cases "find (has_gateway s) (ip_lowers s)")
      case f: None
      then have "\<not> list_ex (has_gateway s) (ip_lowers s)" by (auto simp: find_None_iff list_ex_iff)
      then show ?thesis using None f n by (simp add: ip_route_def)
    next
      case (Some l)
      then have "l \<in> set (ip_lowers s)" "has_gateway s l" by (auto simp: find_Some_iff)
      then show ?thesis using None Some n by (simp add: ip_route_def)
    qed
  next
    case (Some l)
    then show ?thesis using b(2) [of l] by (auto simp: ip_route_def list_ex_iff list_all_iff)
  qed
qed

text \<open>
  A module that binds a protocol receives its packets, and unbinding with the same key gives back
  the delivery list as it was, for every protocol.
\<close>
theorem ip_bind_unbind:
  assumes "ip_bind p k q s = (0, s1)"
  shows "q \<in> set (ip_matches p s1) \<and> (\<exists>s2. ip_unbind p k q s1 = (0, s2) \<and> ip_matches r s2 = ip_matches r s)"
proof -
  let ?x = "\<lparr>active = True, u_proto = p, u_key = k, upper_rq = q\<rparr>"
  obtain us where u: "\<not> list_ex (bound_as p k q) (ip_uppers s)" "claim_from ?x (ip_uppers s) = Some us" "s1 = s\<lparr>ip_uppers := us\<rparr>"
    using assms by (auto simp: ip_bind_def split: if_splits option.splits)
  have "claim_from ?x vs = Some ws \<Longrightarrow> ?x \<in> set ws" for vs ws
    by (induction vs arbitrary: ws) (auto split: if_splits)
  then have "?x \<in> set us" using u(2) by blast
  then have "q \<in> set (ip_matches p s1)" unfolding ip_matches_def u(3) by force
  moreover obtain vs where "release_from p k q us = Some vs"
    "map upper_rq (filter (\<lambda>u. active u \<and> u_proto u = r) vs) = map upper_rq (filter (\<lambda>u. active u \<and> u_proto u = r) (ip_uppers s))"
    using claim_release [OF u(2,1)] by blast
  ultimately show ?thesis by (simp add: ip_unbind_def ip_matches_def u(3))
qed

theorem ip_bind_unbind_witness:
  "\<exists>s1. ip_bind 6 3 (Some 9) sample_ip = (0, s1) \<and> Some 9 \<in> set (ip_matches 6 s1)"
proof -
  have "ip_bind 6 3 (Some 9) sample_ip = (0, sample_ip\<lparr>ip_uppers := [\<lparr>active = True, u_proto = 17, u_key = 0, upper_rq = Some 8\<rparr>,
      \<lparr>active = True, u_proto = 6, u_key = 3, upper_rq = Some 9\<rparr>]\<rparr>)"
    by (simp add: ip_bind_def bound_as_def sample_ip_def)
  from this ip_bind_unbind [OF this, THEN conjunct1] show ?thesis by (intro exI conjI)
qed

text \<open>
  The length checks of the receiver compare the total length with the fixed header size, not with the
  header length of the packet: a packet whose header has options can pass every check although its
  total length ends inside the header, and is passed up with its read pointer beyond its write pointer.
\<close>
theorem ip_rput_short_total: "ip_rput dk ik short_packet s = None"
proof -
  let ?h = "[0x46, 0, 0, 20, 0, 0, 0, 0, 64, 17, 0x65, 0xd7, 10, 0, 0, 1, 10, 0, 0, 2] @ [0, 0, 0, 0] :: bytes"
  have "sum_words ?h 0 = 0xffff" by (simp add: push_bit_eq_mult)
  moreover have "fold16 0xffff = 0xffff" by (simp add: fold16.simps drop_bit_eq_div)
  ultimately have c: "ip_checksum (take 24 ?h) = 0" by (simp add: ip_checksum_def)
  have t: "unat (htons16 (un_le16 (subbytes 2 2 ?h))) = 20"
    by (simp add: htons16_def un_le16_def subbytes_def push_bit_eq_mult drop_bit_eq_div)
  have i: "drop_bit 4 (0x46 :: u8) = 4" "unat ((0x46 :: u8) AND 0xf) = 6" by (simp_all add: drop_bit_eq_div)
  show ?thesis using c t by (simp add: ip_rput_def short_packet_def new_msg_def i IP_HDR_LEN_def)
qed

end
