(* ===== verification/Pktfilter.thy ===== *)
theory Pktfilter
  imports Message
begin

text \<open>
  The pushable packet filter of \<open>uts/os/net/pktfilter.c\<close>. The theorems: which requests are dropped
  and how the counters move, and that a long enough bind request is taken for the filter's
  own set request.
\<close>

section \<open>Definitions\<close>

definition PF_T_SET_REQ :: u8 where [consts_def]: "PF_T_SET_REQ = 1"
definition PF_T_SET_ACK :: u8 where [consts_def]: "PF_T_SET_ACK = 2"
definition PF_T_STATS_REQ :: u8 where [consts_def]: "PF_T_STATS_REQ = 3"
definition PF_T_STATS_RES :: u8 where [consts_def]: "PF_T_STATS_RES = 4"
definition T_BIND_REQ :: u8 where [consts_def]: "T_BIND_REQ = 1"
definition T_UNITDATA_REQ :: u8 where [consts_def]: "T_UNITDATA_REQ = 4"

record pf_state =
  enabled :: bool
  drop_dst_ip :: u32
  drop_dst_port :: u16
  passed :: u32
  dropped :: u32

text \<open>Passed on down the stream, or sent back up.\<close>

datatype pf_out = PassDown msg | SendUp msg

definition pf_qopen :: "bool \<Rightarrow> int \<times> pf_state option" where
  "pf_qopen ok =
     (if ok then (0, Some \<lparr>enabled = False, drop_dst_ip = 0, drop_dst_port = 0, passed = 0, dropped = 0\<rparr>) else (-1, None))"

definition pf_qclose :: "pf_state option \<Rightarrow> int \<times> pf_state option" where
  "pf_qclose st = (0, None)"

definition pf_send_set_ack :: "bool \<Rightarrow> pf_out list" where
  "pf_send_set_ack ok = (if ok then [SendUp [new_msg M_PROTO [PF_T_SET_ACK, 0, 0, 0]]] else [])"

definition pf_send_stats :: "bool \<Rightarrow> pf_state \<Rightarrow> pf_out list" where
  "pf_send_stats ok s = (if ok then [SendUp [new_msg M_PROTO ([PF_T_STATS_RES, 0, 0, 0] @ le32 (passed s) @ le32 (dropped s))]] else [])"

definition pf_should_drop :: "pf_state \<Rightarrow> u32 \<Rightarrow> u16 \<Rightarrow> bool" where
  "pf_should_drop s dst_ip dst_port =
     (if \<not> enabled s then False
      else if drop_dst_ip s \<noteq> 0 \<and> dst_ip \<noteq> drop_dst_ip s then False
      else if drop_dst_port s \<noteq> 0 \<and> dst_port \<noteq> drop_dst_port s then False
      else True)"

definition port_at :: "nat \<Rightarrow> bytes \<Rightarrow> u16" where
  "port_at i bs = ucast (bs ! i) OR push_bit 8 (ucast (bs ! (i + 1)))"

definition pf_wq_putp :: "int \<Rightarrow> bool \<Rightarrow> pf_state option \<Rightarrow> msg \<Rightarrow> int \<times> pf_out list \<times> pf_state option" where
  "pf_wq_putp rc ok st mp =
     (case (st, mp) of
        (Some s, p # _) \<Rightarrow>
          (let b = p_body p in
           if p_type p \<noteq> M_PROTO \<or> length b < 1 then (rc, [PassDown mp], Some s)
           else let prim = b ! 0 in
             if prim = PF_T_SET_REQ \<and> length b \<ge> 12 then
               (0, pf_send_set_ack ok,
                Some (s\<lparr>enabled := b ! 1 \<noteq> 0, drop_dst_ip := un_le32 (subbytes 4 4 b), drop_dst_port := port_at 8 b\<rparr>))
             else if prim = PF_T_STATS_REQ then (0, pf_send_stats ok s, Some s)
             else if prim = T_UNITDATA_REQ \<and> length b \<ge> 12 then
               (if pf_should_drop s (un_le32 (subbytes 4 4 b)) (port_at 8 b)
                then (0, [], Some (s\<lparr>dropped := dropped s + 1\<rparr>))
                else (rc, [PassDown mp], Some (s\<lparr>passed := passed s + 1\<rparr>)))
             else (rc, [PassDown mp], Some s))
      | _ \<Rightarrow> (-1, [], st))"

definition pf_rq_putp :: "msg \<Rightarrow> msg" where
  "pf_rq_putp mp = mp"

section \<open>Lemmas\<close>

text \<open>
  A data request is dropped exactly when the filter is on and each field of the rule is a wildcard
  or matches; every data request counts once, as passed or as dropped, and a passed one is unchanged.
\<close>
theorem pf_filters:
  assumes "p_type p = M_PROTO" "12 \<le> length (p_body p)" "p_body p ! 0 = T_UNITDATA_REQ"
  shows "pf_wq_putp rc ok (Some s) (p # rest) =
    (if enabled s \<and> drop_dst_ip s \<in> {0, un_le32 (subbytes 4 4 (p_body p))} \<and> drop_dst_port s \<in> {0, port_at 8 (p_body p)}
     then (0, [], Some (s\<lparr>dropped := dropped s + 1\<rparr>))
     else (rc, [PassDown (p # rest)], Some (s\<lparr>passed := passed s + 1\<rparr>)))"
  using assms by (auto simp: pf_wq_putp_def pf_should_drop_def consts_def Let_def)

theorem pf_filters_witness:
  "pf_wq_putp 0 True (Some \<lparr>enabled = True, drop_dst_ip = 0, drop_dst_port = 53, passed = 0, dropped = 0\<rparr>)
     [new_msg M_PROTO [4, 0, 0, 0, 1, 0, 0, 10, 53, 0, 0, 0]]
   = (0, [], Some \<lparr>enabled = True, drop_dst_ip = 0, drop_dst_port = 53, passed = 0, dropped = 1\<rparr>)"
  by (subst pf_filters) (simp_all add: new_msg_def T_UNITDATA_REQ_def port_at_def)

text \<open>
  A bind request that is at least as long as the set request of the filter never reaches the
  transport: the filter takes it as a new rule and acknowledges it itself.
\<close>
theorem pf_swallows_bind:
  assumes "p_type p = M_PROTO" "12 \<le> length (p_body p)" "p_body p ! 0 = T_BIND_REQ"
  shows "fst (snd (pf_wq_putp rc True (Some s) (p # rest))) = [SendUp [new_msg M_PROTO [PF_T_SET_ACK, 0, 0, 0]]]"
  using assms by (auto simp: pf_wq_putp_def pf_send_set_ack_def consts_def Let_def)

theorem pf_swallows_bind_witness:
  "fst (snd (pf_wq_putp 0 True (Some \<lparr>enabled = False, drop_dst_ip = 0, drop_dst_port = 0, passed = 0, dropped = 0\<rparr>)
     [new_msg M_PROTO ([1, 0, 53, 0] @ replicate 8 0)])) = [SendUp [new_msg M_PROTO [PF_T_SET_ACK, 0, 0, 0]]]"
  by (rule pf_swallows_bind) (simp_all add: new_msg_def T_BIND_REQ_def)

end
