(* ===== verification/Udp.thy ===== *)
theory Udp
  imports Ipv4 Pktfilter
begin

text \<open>
  The UDP module of \<open>uts/os/net/udp.c\<close>: bind handshake, sending and receiving of datagrams. The
  theorems: a datagram sent on one host reaches the user of the bound port on another unchanged, with
  the sender's address and port; what the length field of the header does not cover is delivered all
  the same.
\<close>

section \<open>Definitions\<close>

definition IPPROTO_UDP :: u8 where [consts_def]: "IPPROTO_UDP = 17"
definition UDP_HDR_LEN :: nat where [consts_def]: "UDP_HDR_LEN = 8"
definition T_BIND_ACK :: u8 where [consts_def]: "T_BIND_ACK = 2"
definition T_BIND_NAK :: u8 where [consts_def]: "T_BIND_NAK = 3"
definition T_UNITDATA_IND :: u8 where [consts_def]: "T_UNITDATA_IND = 5"

record udp_state =
  local_port :: u16
  bound :: bool

text \<open>Passed to the queue below or to the queue above.\<close>

datatype udp_out = UDown msg | UUp msg

text \<open>The port handed out, and the next value of the counter.\<close>

definition alloc_ephemeral_port :: "u16 \<Rightarrow> u16 \<times> u16" where
  "alloc_ephemeral_port nxt = (nxt, if nxt + 1 = 0 then 32768 else nxt + 1)"

definition send_ip_bind :: "bool \<Rightarrow> u8 \<Rightarrow> u16 \<Rightarrow> udp_out list" where
  "send_ip_bind ok prim port = (if ok then [UDown [new_msg M_PROTO ([prim, IPPROTO_UDP, 0, 0] @ le32 (ucast port))]] else [])"

definition reply_bind_ack :: "bool \<Rightarrow> u16 \<Rightarrow> udp_out list" where
  "reply_bind_ack ok port = (if ok then [UUp [new_msg M_PROTO ([T_BIND_ACK, 0] @ le16 port)]] else [])"

definition reply_bind_nak :: "bool \<Rightarrow> u8 \<Rightarrow> udp_out list" where
  "reply_bind_nak ok reason = (if ok then [UUp [new_msg M_PROTO [T_BIND_NAK, reason, 0, 0]]] else [])"

definition udp_qopen :: "bool \<Rightarrow> int \<times> udp_state option" where
  "udp_qopen ok = (if ok then (0, Some \<lparr>local_port = 0, bound = False\<rparr>) else (-1, None))"

definition udp_qclose :: "bool \<Rightarrow> udp_state option \<Rightarrow> int \<times> udp_out list \<times> udp_state option" where
  "udp_qclose ok st =
     (case st of None \<Rightarrow> (0, [], None)
      | Some s \<Rightarrow> (0, if bound s then send_ip_bind ok IP_T_UNBIND_REQ (local_port s) else [], None))"

definition handle_bind_req :: "bool \<Rightarrow> udp_state \<Rightarrow> u16 \<Rightarrow> u16 \<Rightarrow> int \<times> udp_out list \<times> udp_state \<times> u16" where
  "handle_bind_req ok s port nxt =
     (if bound s then (0, reply_bind_nak ok 1, s, nxt)
      else let (p, nxt') = (if port \<noteq> 0 then (port, nxt) else alloc_ephemeral_port nxt)
           in (0, send_ip_bind ok IP_T_BIND_REQ p, s\<lparr>local_port := p\<rparr>, nxt'))"

definition udp_hdr_bytes :: "u16 \<Rightarrow> u16 \<Rightarrow> u16 \<Rightarrow> bytes" where
  "udp_hdr_bytes sp dp len = le16 (htons16 sp) @ le16 (htons16 dp) @ le16 (htons16 len) @ le16 0"

text \<open>\<open>ok\<close>: the allocations in the order the code makes them.\<close>

definition handle_unitdata_req :: "int \<Rightarrow> (nat \<Rightarrow> bool) \<Rightarrow> udp_state \<Rightarrow> u32 \<Rightarrow> u16 \<Rightarrow> msg \<Rightarrow> int \<times> udp_out list" where
  "handle_unitdata_req rc ok s dst_ip dst_port payload =
     (if \<not> bound s then (-1, [])
      else if payload = [] \<and> \<not> ok 0 then (-1, [])
      else let dat = (case payload of [] \<Rightarrow> [] | p # _ \<Rightarrow> p_body p) in
        if \<not> ok 1 then (-1, [])
        else let hdr = udp_hdr_bytes (local_port s) dst_port (of_nat (UDP_HDR_LEN + length dat)) in
          if \<not> ok 2 then (-1, [])
          else (rc, [UDown [ip_send_meta dst_ip IPPROTO_UDP,
                           \<lparr>p_type = M_DATA, p_head = IP_HDR_LEN, p_body = hdr @ dat, p_tail = 0\<rparr>]]))"

definition udp_wq_putp :: "int \<Rightarrow> (nat \<Rightarrow> bool) \<Rightarrow> udp_state option \<Rightarrow> msg \<Rightarrow> u16 \<Rightarrow> int \<times> udp_out list \<times> udp_state option \<times> u16" where
  "udp_wq_putp rc ok st mp nxt =
     (case (st, mp) of
        (Some s, p # payload) \<Rightarrow>
          (let b = p_body p in
           if p_type p = M_IOCTL then (rc, [UDown mp], st, nxt)
           else if p_type p \<noteq> M_PROTO \<or> length b < 1 then (-1, [], st, nxt)
           else if b ! 0 = T_BIND_REQ \<and> length b \<ge> 4 then
             (case handle_bind_req (ok 0) s (port_at 2 b) nxt of (r, out, s', nxt') \<Rightarrow> (r, out, Some s', nxt'))
           else if b ! 0 = T_UNITDATA_REQ \<and> length b \<ge> 12 then
             (case handle_unitdata_req rc ok s (un_le32 (subbytes 4 4 b)) (port_at 8 b) payload of (r, out) \<Rightarrow> (r, out, st, nxt))
           else (-1, [], st, nxt))
      | _ \<Rightarrow> (-1, [], st, nxt))"

text \<open>The acknowledgement is read without a length test: a short block is read beyond its end.\<close>

definition handle_ip_ack :: "bool \<Rightarrow> udp_state \<Rightarrow> piece \<Rightarrow> (udp_out list \<times> udp_state) option" where
  "handle_ip_ack ok s m =
     (if length (p_body m) < 8 then None
      else let prim = p_body m ! 0; port = ucast (un_le32 (subbytes 4 4 (p_body m))) in
        if prim = IP_T_BIND_ACK then Some (reply_bind_ack ok port, s\<lparr>bound := True\<rparr>)
        else if prim = IP_T_BIND_NAK then Some (reply_bind_nak ok 1, s\<lparr>bound := False, local_port := 0\<rparr>)
        else Some ([], s))"

definition deliver_unitdata_ind :: "bool \<Rightarrow> u32 \<Rightarrow> u16 \<Rightarrow> msg \<Rightarrow> udp_out list" where
  "deliver_unitdata_ind ok src_ip src_port body =
     (if ok then [UUp (new_msg M_PROTO ([T_UNITDATA_IND, 0, 0, 0] @ le32 src_ip @ le16 src_port @ [0, 0]) # body)] else [])"

definition udp_rq_putp :: "int \<Rightarrow> bool \<Rightarrow> udp_state option \<Rightarrow> msg \<Rightarrow> (int \<times> udp_out list \<times> udp_state option) option" where
  "udp_rq_putp rc ok st mp =
     (case (st, mp) of
        (Some s, p # rest) \<Rightarrow>
          (let b = p_body p in
           if p_type p = M_IOCACK \<or> p_type p = M_IOCNAK then Some (rc, [UUp mp], st)
           else if p_type p \<noteq> M_PROTO \<or> length b < 1 then Some (0, [], st)
           else if b ! 0 = IP_T_BIND_ACK \<or> b ! 0 = IP_T_BIND_NAK \<or> b ! 0 = IP_T_UNBIND_ACK then
             map_option (\<lambda>(out, s'). (0, out, Some s')) (handle_ip_ack ok s p)
           else if b ! 0 \<noteq> IP_T_UNITDATA_IND \<or> length b < 12 then Some (0, [], st)
           else (case rest of [] \<Rightarrow> Some (0, [], st)
             | body # mps \<Rightarrow>
                 let h = p_body body; sport = htons16 (un_le16 (subbytes 0 2 h)); dport = htons16 (un_le16 (subbytes 2 2 h));
                     ulen = unat (htons16 (un_le16 (subbytes 4 2 h)))
                 in if length h < UDP_HDR_LEN then Some (0, [], st)
                    else if ulen > length h \<or> ulen < UDP_HDR_LEN then Some (0, [], st)
                    else if dport \<noteq> local_port s then Some (0, [], st)
                    else Some (0, deliver_unitdata_ind ok (un_le32 (subbytes 4 4 b)) sport
                                   (body\<lparr>p_head := p_head body + UDP_HDR_LEN, p_body := drop UDP_HDR_LEN h\<rparr> # mps), st)))
      | _ \<Rightarrow> Some (-1, [], st))"

definition t_unitdata_req :: "u32 \<Rightarrow> u16 \<Rightarrow> piece" where
  "t_unitdata_req dst_ip dst_port = new_msg M_PROTO ([T_UNITDATA_REQ, 0, 0, 0] @ le32 dst_ip @ le16 dst_port @ [0, 0])"

definition t_bind_req :: "u16 \<Rightarrow> piece" where
  "t_bind_req port = new_msg M_PROTO ([T_BIND_REQ, 0] @ le16 port)"

text \<open>A stream's entry for a port in the table of IP, and when IP can make one.\<close>

definition holds :: "u16 \<Rightarrow> nat \<Rightarrow> ip \<Rightarrow> bool" where
  "holds port rq h \<longleftrightarrow> (\<exists>x \<in> set (ip_uppers h). bound_as IPPROTO_UDP (ucast port) (Some rq) x)"

definition grantable :: "u16 \<Rightarrow> nat \<Rightarrow> ip \<Rightarrow> bool" where
  "grantable port rq h \<longleftrightarrow> \<not> holds port rq h \<and> (\<exists>x \<in> set (ip_uppers h). \<not> active x)"

text \<open>A host whose queue 8 has the UDP port 53, with one free entry.\<close>

definition shared_host :: ip where
  "shared_host = sample_ip\<lparr>ip_uppers := [\<lparr>active = True, u_proto = IPPROTO_UDP, u_key = 53, upper_rq = Some 8\<rparr>,
     \<lparr>active = False, u_proto = 0, u_key = 0, upper_rq = None\<rparr>]\<rparr>"

section \<open>Lemmas\<close>

lemma length_udp_hdr [simp]: "length (udp_hdr_bytes sp dp n) = 8"
  by (simp add: udp_hdr_bytes_def)

lemma udp_hdr_fields:
  "htons16 (un_le16 (subbytes 0 2 (udp_hdr_bytes sp dp n @ d))) = sp"
  "htons16 (un_le16 (subbytes 2 2 (udp_hdr_bytes sp dp n @ d))) = dp"
  "htons16 (un_le16 (subbytes 4 2 (udp_hdr_bytes sp dp n @ d))) = n"
proof -
  have "subbytes 0 2 (udp_hdr_bytes sp dp n @ d) = le16 (htons16 sp)" "subbytes 2 2 (udp_hdr_bytes sp dp n @ d) = le16 (htons16 dp)"
    "subbytes 4 2 (udp_hdr_bytes sp dp n @ d) = le16 (htons16 n)"
    by (simp_all add: udp_hdr_bytes_def subbytes_def)
  then show "htons16 (un_le16 (subbytes 0 2 (udp_hdr_bytes sp dp n @ d))) = sp"
    "htons16 (un_le16 (subbytes 2 2 (udp_hdr_bytes sp dp n @ d))) = dp"
    "htons16 (un_le16 (subbytes 4 2 (udp_hdr_bytes sp dp n @ d))) = n" by simp_all
qed

lemma t_unitdata_req_fields:
  "p_type (t_unitdata_req a p) = M_PROTO" "p_body (t_unitdata_req a p) \<noteq> []" "length (p_body (t_unitdata_req a p)) = 12" "p_body (t_unitdata_req a p) ! 0 = T_UNITDATA_REQ"
  "un_le32 (subbytes 4 4 (p_body (t_unitdata_req a p))) = a" "port_at 8 (p_body (t_unitdata_req a p)) = p"
proof -
  have "subbytes 4 4 (p_body (t_unitdata_req a p)) = le32 a" by (simp add: t_unitdata_req_def new_msg_def subbytes_def)
  then show "un_le32 (subbytes 4 4 (p_body (t_unitdata_req a p))) = a" by simp
  have "p_body (t_unitdata_req a p) ! 8 = le16 p ! 0" "p_body (t_unitdata_req a p) ! 9 = le16 p ! 1"
    by (simp_all add: t_unitdata_req_def new_msg_def nth_append)
  then show "port_at 8 (p_body (t_unitdata_req a p)) = p" using un_le16_le16 [of p] by (simp add: port_at_def un_le16_def)
qed (simp_all add: t_unitdata_req_def new_msg_def)

lemma t_bind_req_fields:
  "p_type (t_bind_req p) = M_PROTO" "p_body (t_bind_req p) \<noteq> []" "length (p_body (t_bind_req p)) = 4" "p_body (t_bind_req p) ! 0 = T_BIND_REQ"
  "port_at 2 (p_body (t_bind_req p)) = p"
proof -
  have "p_body (t_bind_req p) ! 2 = le16 p ! 0" "p_body (t_bind_req p) ! 3 = le16 p ! 1"
    by (simp_all add: t_bind_req_def new_msg_def nth_append)
  then show "port_at 2 (p_body (t_bind_req p)) = p" using un_le16_le16 [of p] by (simp add: port_at_def un_le16_def)
qed (simp_all add: t_bind_req_def new_msg_def)

lemma port_key [simp]: "ucast (ucast (p :: u16) :: u32) = p"
  by (rule ucast_up_ucast_id) (simp add: is_up)

lemma bind_meta_fields:
  fixes x y key defines "m \<equiv> new_msg M_PROTO ([x, IPPROTO_UDP, 0, 0] @ le32 key)"
  shows "p_type m = M_PROTO" "p_body m \<noteq> []" "length (p_body m) = 8" "p_body m ! 0 = x" "p_body m ! 1 = IPPROTO_UDP" "un_le32 (subbytes 4 4 (p_body m)) = key"
proof -
  have "subbytes 4 4 (p_body m) = le32 key" by (simp add: m_def new_msg_def subbytes_def)
  then show "un_le32 (subbytes 4 4 (p_body m)) = key" by simp
qed (simp_all add: m_def new_msg_def)

text \<open>A datagram for the bound port, with a length field the block covers, is delivered whole.\<close>

lemma udp_rq_accepts:
  assumes "local_port s = dp" "8 \<le> unat n" "unat n \<le> 8 + length d" "p_body body = udp_hdr_bytes sp dp n @ d"
  shows "udp_rq_putp rc True (Some s) (build_unitdata_ind q src dst # body # rest) =
    Some (0, [UUp (new_msg M_PROTO ([T_UNITDATA_IND, 0, 0, 0] @ le32 src @ le16 sp @ [0, 0])
                   # body\<lparr>p_head := p_head body + 8, p_body := d\<rparr> # rest)], Some s)"
  using assms
  by (simp add: udp_rq_putp_def unitdata_ind_fields udp_hdr_fields deliver_unitdata_ind_def Let_def consts_def)

lemma claim_from_iff: "claim_from x us = None \<longleftrightarrow> (\<forall>u \<in> set us. active u)"
  by (induction us) auto

lemma claim_from_keeps: "claim_from x us = Some vs \<Longrightarrow> x \<in> set vs \<and> (\<forall>u \<in> set us. active u \<longrightarrow> u \<in> set vs)"
  by (induction us arbitrary: vs) (auto split: if_splits)

lemma ip_bind_exact:
  assumes "ip_bind IPPROTO_UDP (ucast p) (Some rq) h = (r, h')"
  shows "if grantable p rq h then r = 0 \<and> holds p rq h' \<and> (\<forall>x \<in> set (ip_uppers h). active x \<longrightarrow> x \<in> set (ip_uppers h'))
    else r \<noteq> 0 \<and> h' = h"
proof -
  let ?x = "\<lparr>active = True, u_proto = IPPROTO_UDP, u_key = ucast p, upper_rq = Some rq\<rparr>"
  have l: "list_ex (bound_as IPPROTO_UDP (ucast p) (Some rq)) (ip_uppers h) = holds p rq h" by (simp add: list_ex_iff holds_def)
  show ?thesis
  proof (cases "claim_from ?x (ip_uppers h)")
    case None
    then show ?thesis using assms claim_from_iff [of ?x "ip_uppers h"] by (auto simp: ip_bind_def l grantable_def split: if_splits)
  next
    case (Some us)
    have "\<not> (\<forall>u \<in> set (ip_uppers h). active u)" using claim_from_iff [of ?x "ip_uppers h"] Some by simp
    then have g: "grantable p rq h \<longleftrightarrow> \<not> holds p rq h" by (auto simp: grantable_def)
    note k = claim_from_keeps [OF Some]
    have "bound_as IPPROTO_UDP (ucast p) (Some rq) ?x" by (simp add: bound_as_def)
    then have "holds p rq (h\<lparr>ip_uppers := us\<rparr>)" using k by (auto simp: holds_def)
    then show ?thesis using assms Some k unfolding g by (auto simp: ip_bind_def l split: if_splits)
  qed
qed

subsection \<open>Properties\<close>

text \<open>
  C29. The bind handshake through UDP and IP: the user of an unbound stream who asks for a port (0 asks for the next port of
  the counter) gets an acknowledgement for it, and the stream is bound to it, exactly when this same stream does not
  hold it already in the table of IP and the table has a free entry; otherwise the user gets a refusal, the
  stream is unbound with no port, and IP is unchanged. A port that another stream holds is granted as well,
  and both stay entered.
\<close>
theorem udp_bind_handshake:
  fixes port e :: u16
  defines "p \<equiv> if port \<noteq> 0 then port else e" and "e' \<equiv> if port \<noteq> 0 then e else snd (alloc_ephemeral_port e)"
  assumes "\<not> bound s"
  shows "\<exists>m a h'. udp_wq_putp rc (\<lambda>_. True) (Some s) [t_bind_req port] e = (0, [UDown m], Some (s\<lparr>local_port := p\<rparr>), e')
    \<and> ip_wput rc True (Some rq) m h = Some (0, [Reply a], h')
    \<and> (if grantable p rq h
       then udp_rq_putp rc' True (Some (s\<lparr>local_port := p\<rparr>)) a
              = Some (0, [UUp [new_msg M_PROTO ([T_BIND_ACK, 0] @ le16 p)]], Some (s\<lparr>local_port := p, bound := True\<rparr>))
            \<and> holds p rq h' \<and> (\<forall>x \<in> set (ip_uppers h). active x \<longrightarrow> x \<in> set (ip_uppers h'))
       else udp_rq_putp rc' True (Some (s\<lparr>local_port := p\<rparr>)) a
              = Some (0, [UUp [new_msg M_PROTO [T_BIND_NAK, 1, 0, 0]]], Some (s\<lparr>local_port := 0\<rparr>)) \<and> h' = h)"
proof -
  obtain r h' where b: "ip_bind IPPROTO_UDP (ucast p) (Some rq) h = (r, h')" by fastforce
  let ?m = "[new_msg M_PROTO ([IP_T_BIND_REQ, IPPROTO_UDP, 0, 0] @ le32 (ucast p))]"
  let ?a = "[new_msg M_PROTO ([if r = 0 then IP_T_BIND_ACK else IP_T_BIND_NAK, IPPROTO_UDP, 0, 0] @ le32 (ucast p))]"
  have "udp_wq_putp rc (\<lambda>_. True) (Some s) [t_bind_req port] e = (0, [UDown ?m], Some (s\<lparr>local_port := p\<rparr>), e')"
    using assms(3) t_bind_req_fields [of port]
    by (simp add: udp_wq_putp_def handle_bind_req_def send_ip_bind_def alloc_ephemeral_port_def p_def e'_def Let_def consts_def)
  moreover have "ip_wput rc True (Some rq) ?m h = Some (0, [Reply ?a], h')"
    using b bind_meta_fields [of IP_T_BIND_REQ "ucast p"]
    by (simp add: ip_wput_def ip_handle_bind_def ip_bind_reply_def Let_def consts_def)
  moreover have "udp_rq_putp rc' True (Some (s\<lparr>local_port := p\<rparr>)) ?a =
      Some (0, [UUp [new_msg M_PROTO (if r = 0 then [T_BIND_ACK, 0] @ le16 p else [T_BIND_NAK, 1, 0, 0])]],
            Some (if r = 0 then s\<lparr>local_port := p, bound := True\<rparr> else s\<lparr>local_port := 0\<rparr>))"
    using assms(3) bind_meta_fields [of IP_T_BIND_ACK "ucast p"] bind_meta_fields [of IP_T_BIND_NAK "ucast p"]
    by (cases "r = 0") (simp_all add: udp_rq_putp_def handle_ip_ack_def reply_bind_ack_def reply_bind_nak_def Let_def consts_def)
  ultimately show ?thesis using ip_bind_exact [OF b]
    by - (rule exI [of _ ?m], rule exI [of _ ?a], rule exI [of _ h'], cases "grantable p rq h"; simp)
qed

text \<open>The port 53 is held by the queue 8 and is granted to the queue 9 too.\<close>

theorem udp_bind_handshake_witness:
  "\<exists>m a h'. udp_wq_putp 0 (\<lambda>_. True) (Some \<lparr>local_port = 0, bound = False\<rparr>) [t_bind_req 53] 0 = (0, [UDown m], Some \<lparr>local_port = 53, bound = False\<rparr>, 0)
    \<and> ip_wput 0 True (Some 9) m shared_host = Some (0, [Reply a], h')
    \<and> udp_rq_putp 0 True (Some \<lparr>local_port = 53, bound = False\<rparr>) a =
        Some (0, [UUp [new_msg M_PROTO ([T_BIND_ACK, 0] @ le16 53)]], Some \<lparr>local_port = 53, bound = True\<rparr>)
    \<and> holds 53 8 shared_host \<and> holds 53 9 h'"
proof -
  have g: "grantable 53 9 shared_host" "holds 53 8 shared_host" by (simp_all add: grantable_def holds_def shared_host_def bound_as_def)
  show ?thesis using udp_bind_handshake [of "\<lparr>local_port = 0, bound = False\<rparr>" 0 53 0 9 shared_host 0] g by simp blast
qed

text \<open>
  C10. A datagram sent by a user on a bound port, over any route whose MTU it fits, reaches the user bound
  to the destination port of the receiving host as an indication that carries the sender's address
  and port, with the data unchanged.
\<close>
theorem udp_end_to_end:
  assumes "bound s" "ip_route dst h = Some l" "l_nif l = Some n" "qbot l = Some q"
    "28 + length d \<le> unat (n_mtu (nifs (inet h) n))" "n_mtu (nifs (inet h) n) < 65536"
    "ip_matches IPPROTO_UDP r = [rq]" "local_port s' = dport"
  shows "\<exists>m pkt u up. udp_wq_putp rc (\<lambda>_. True) (Some s) [t_unitdata_req dst dport, new_msg M_DATA d] e = (rc, [UDown m], Some s, e)
    \<and> ip_wput rc True None m h = Some (rc, [Down q pkt], h\<lparr>ip_id_next := ip_id_next h + 1\<rparr>)
    \<and> ip_rput (\<lambda>_. True) (\<lambda>_. True) pkt r = Some (0, [Deliver rq u], r)
    \<and> udp_rq_putp rc' True (Some s') u = Some (0, [UUp up], Some s')
    \<and> p_body (hd up) = [T_UNITDATA_IND, 0, 0, 0] @ le32 (n_ip (nifs (inet h) n)) @ le16 (local_port s) @ [0, 0]
    \<and> msg_bytes (tl up) = d"
proof -
  let ?len = "of_nat (8 + length d) :: u16"
  let ?b = "\<lparr>p_type = M_DATA, p_head = 20, p_body = udp_hdr_bytes (local_port s) dport ?len @ d, p_tail = 0\<rparr>"
  let ?m = "[ip_send_meta dst IPPROTO_UDP, ?b]" let ?src = "n_ip (nifs (inet h) n)"
  have w: "udp_wq_putp rc (\<lambda>_. True) (Some s) [t_unitdata_req dst dport, new_msg M_DATA d] e = (rc, [UDown ?m], Some s, e)"
    using assms(1) t_unitdata_req_fields [of dst dport]
    by (simp add: udp_wq_putp_def handle_unitdata_req_def Let_def consts_def new_msg_def)
  have fit: "20 + length (p_body ?b) \<le> unat (n_mtu (nifs (inet h) n))" using assms(5) by simp
  have l: "8 + length d < 65536" using assms(5,6) by (simp add: word_less_nat_alt)
  obtain pkt where ipw: "ip_wput rc True None ?m h = Some (rc, [Down q pkt], h\<lparr>ip_id_next := ip_id_next h + 1\<rparr>)"
    and ipr: "\<And>r. ip_rput (\<lambda>_. True) (\<lambda>_. True) pkt r = Some (0, map (\<lambda>rq. Deliver rq [build_unitdata_ind IPPROTO_UDP ?src dst, ?b]) (ip_matches IPPROTO_UDP r), r)"
    using ip_carries [where rc = rc and ok = True and up = None and proto = IPPROTO_UDP and rest = "[]" and mp = ?b, OF assms(2,3,4) fit assms(6)] by auto
  have u: "unat ?len = 8 + length d" using l by (simp only: unat_of_nat) simp
  have "udp_rq_putp rc' True (Some s') [build_unitdata_ind IPPROTO_UDP ?src dst, ?b]
      = Some (0, [UUp [new_msg M_PROTO ([T_UNITDATA_IND, 0, 0, 0] @ le32 ?src @ le16 (local_port s) @ [0, 0]), ?b\<lparr>p_head := p_head ?b + 8, p_body := d\<rparr>]], Some s')"
    using assms(8) u by (intro udp_rq_accepts) simp_all
  with w ipw ipr [of r] assms(7) show ?thesis
    by (intro exI [of _ ?m] exI [of _ pkt] exI [of _ "[build_unitdata_ind IPPROTO_UDP ?src dst, ?b]"] exI)
      (auto simp: new_msg_def msg_bytes_def)
qed

theorem udp_end_to_end_witness:
  "\<exists>m pkt u up. udp_wq_putp 0 (\<lambda>_. True) (Some \<lparr>local_port = 7, bound = True\<rparr>) [t_unitdata_req 0x7f000009 53, new_msg M_DATA [1, 2]] 0
      = (0, [UDown m], Some \<lparr>local_port = 7, bound = True\<rparr>, 0)
    \<and> ip_wput 0 True None m sample_ip = Some (0, [Down 5 pkt], sample_ip\<lparr>ip_id_next := ip_id_next sample_ip + 1\<rparr>)
    \<and> ip_rput (\<lambda>_. True) (\<lambda>_. True) pkt sample_ip = Some (0, [Deliver (Some 8) u], sample_ip)
    \<and> udp_rq_putp 0 True (Some \<lparr>local_port = 53, bound = True\<rparr>) u = Some (0, [UUp up], Some \<lparr>local_port = 53, bound = True\<rparr>)
    \<and> msg_bytes (tl up) = [1, 2]"
proof -
  have m: "ip_matches IPPROTO_UDP sample_ip = [Some 8]" by (simp add: ip_matches_def sample_ip_def IPPROTO_UDP_def)
  have n: "n_mtu (nifs (inet sample_ip) 0) = 1500" by (simp add: sample_ip_def lo0_nif_def)
  show ?thesis
    using udp_end_to_end [OF _ sample_route _ _ _ _ m, of "\<lparr>local_port = 7, bound = True\<rparr>" 0 5 "[1, 2]" "\<lparr>local_port = 53, bound = True\<rparr>" 53 0] n
    by simp blast
qed

text \<open>
  The length field of a datagram is checked but not applied: bytes of the IP payload beyond it are
  delivered to the user as data.
\<close>
theorem udp_ignores_length:
  assumes "8 \<le> unat n" "unat n < 8 + length d"
  shows "\<exists>up. udp_rq_putp rc True (Some \<lparr>local_port = dp, bound = True\<rparr>)
      [build_unitdata_ind IPPROTO_UDP src dst, new_msg M_DATA (udp_hdr_bytes sp dp n @ d)] = Some (0, [UUp up], Some \<lparr>local_port = dp, bound = True\<rparr>)
    \<and> length (msg_bytes (tl up)) > unat n - 8"
proof -
  have "udp_rq_putp rc True (Some \<lparr>local_port = dp, bound = True\<rparr>) [build_unitdata_ind IPPROTO_UDP src dst, new_msg M_DATA (udp_hdr_bytes sp dp n @ d)]
    = Some (0, [UUp [new_msg M_PROTO ([T_UNITDATA_IND, 0, 0, 0] @ le32 src @ le16 sp @ [0, 0]),
        (new_msg M_DATA (udp_hdr_bytes sp dp n @ d))\<lparr>p_head := p_head (new_msg M_DATA (udp_hdr_bytes sp dp n @ d)) + 8, p_body := d\<rparr>]],
        Some \<lparr>local_port = dp, bound = True\<rparr>)"
    using assms by (intro udp_rq_accepts) (simp_all add: new_msg_def)
  then show ?thesis using assms by (auto simp: msg_bytes_def)
qed

theorem udp_ignores_length_witness:
  "\<exists>up. udp_rq_putp 0 True (Some \<lparr>local_port = 53, bound = True\<rparr>)
      [build_unitdata_ind IPPROTO_UDP 1 2, new_msg M_DATA (udp_hdr_bytes 7 53 8 @ [1])] = Some (0, [UUp up], Some \<lparr>local_port = 53, bound = True\<rparr>)
    \<and> length (msg_bytes (tl up)) > unat (8 :: u16) - 8"
  by (rule udp_ignores_length) simp_all

end
