(* ===== verification/Icmp.thy ===== *)
theory Icmp
  imports Ipv4
begin

text \<open>
  The ICMP module of \<open>uts/os/net/icmp.c\<close>: an echo request is written as a small record, the module stamps
  its own identifier into the packet and remembers the sequence number, answers requests that carry its
  identifier, and turns the awaited reply into a record for the reader. The theorems: a packet that carries
  its own checksum is accepted whatever its payload; an answer keeps identifier, sequence number and
  payload and is itself accepted; a ping is answered exactly by the streams that have the identifier of the
  sender, and the answer comes back to the reader that sent it.
\<close>

section \<open>Definitions\<close>

definition IPPROTO_ICMP :: u8 where [consts_def]: "IPPROTO_ICMP = 1"
definition ICMP_HDR_LEN :: nat where [consts_def]: "ICMP_HDR_LEN = 8"
definition ICMP_TYPE_ECHO_REPLY :: u8 where [consts_def]: "ICMP_TYPE_ECHO_REPLY = 0"
definition ICMP_TYPE_ECHO_REQUEST :: u8 where [consts_def]: "ICMP_TYPE_ECHO_REQUEST = 8"

record icmp_state =
  icmp_id :: u16
  icmp_bound :: bool
  ping_seq :: u16
  ping_armed :: bool
  ping_src_ip :: u32

datatype icmp_out = IDown msg | IUp msg

definition alloc_icmp_id :: "u16 \<Rightarrow> u16 \<times> u16" where
  "alloc_icmp_id nxt = (nxt, if nxt + 1 = 0 then 1 else nxt + 1)"

definition icmp_send_bind :: "bool \<Rightarrow> u8 \<Rightarrow> icmp_out list" where
  "icmp_send_bind ok prim = (if ok then [IDown [new_msg M_PROTO ([prim, IPPROTO_ICMP, 0, 0] @ le32 0)]] else [])"

definition icmp_hdr_bytes :: "u8 \<Rightarrow> u16 \<Rightarrow> u16 \<Rightarrow> u16 \<Rightarrow> bytes" where
  "icmp_hdr_bytes type cs ident seq = [type, 0] @ le16 (htons16 cs) @ le16 (htons16 ident) @ le16 (htons16 seq)"

definition icmp_alloc_body :: "bool \<Rightarrow> u8 \<Rightarrow> u16 \<Rightarrow> u16 \<Rightarrow> bytes \<Rightarrow> piece option" where
  "icmp_alloc_body ok type ident seq payload =
     (if \<not> ok then None
      else let cs = ip_checksum (icmp_hdr_bytes type 0 ident seq @ payload)
           in Some \<lparr>p_type = M_DATA, p_head = IP_HDR_LEN, p_body = icmp_hdr_bytes type cs ident seq @ payload, p_tail = 0\<rparr>)"

definition icmp_send_to_ip :: "int \<Rightarrow> bool \<Rightarrow> u32 \<Rightarrow> msg \<Rightarrow> int \<times> icmp_out list" where
  "icmp_send_to_ip rc ok dst body = (if ok then (rc, [IDown (ip_send_meta dst IPPROTO_ICMP # body)]) else (-1, []))"

text \<open>\<open>ok\<close>: the allocations of one call in the order the code makes them.\<close>

definition icmp_qopen :: "(nat \<Rightarrow> bool) \<Rightarrow> u16 \<Rightarrow> int \<times> icmp_out list \<times> icmp_state option \<times> u16" where
  "icmp_qopen ok nxt =
     (if \<not> ok 0 then (-1, [], None, nxt)
      else case alloc_icmp_id nxt of (i, nxt') \<Rightarrow>
        (0, icmp_send_bind (ok 1) IP_T_BIND_REQ,
         Some \<lparr>icmp_id = i, icmp_bound = False, ping_seq = 0, ping_armed = False, ping_src_ip = 0\<rparr>, nxt'))"

definition icmp_qclose :: "bool \<Rightarrow> icmp_state option \<Rightarrow> int \<times> icmp_out list \<times> icmp_state option" where
  "icmp_qclose ok st =
     (case st of None \<Rightarrow> (0, [], None)
      | Some s \<Rightarrow> (0, if icmp_bound s then icmp_send_bind ok IP_T_UNBIND_REQ else [], None))"

definition icmp_wq_putp :: "int \<Rightarrow> (nat \<Rightarrow> bool) \<Rightarrow> icmp_state option \<Rightarrow> msg \<Rightarrow> int \<times> icmp_out list \<times> icmp_state option" where
  "icmp_wq_putp rc ok st mp =
     (case (st, mp) of
        (Some s, p # _) \<Rightarrow>
          (let b = p_body p in
           if p_type p \<noteq> M_DATA \<or> length b < 8 then (-1, [], st)
           else if \<not> icmp_bound s then (-1, [], st)
           else let dst = un_le32 (take 4 b); seq = un_le16 (subbytes 4 2 b);
                    s1 = s\<lparr>ping_seq := seq, ping_armed := True, ping_src_ip := 0\<rparr>
                in case icmp_alloc_body (ok 0) ICMP_TYPE_ECHO_REQUEST (icmp_id s) seq [] of
                     None \<Rightarrow> (-1, [], Some (s1\<lparr>ping_armed := False\<rparr>))
                   | Some body \<Rightarrow> (case icmp_send_to_ip rc (ok 1) dst [body] of (r, out) \<Rightarrow> (r, out, Some s1)))
      | _ \<Rightarrow> (-1, [], st))"

definition icmp_handle_ack_nak :: "icmp_state \<Rightarrow> piece \<Rightarrow> icmp_state" where
  "icmp_handle_ack_nak s m =
     (if p_body m ! 0 = IP_T_BIND_ACK then s\<lparr>icmp_bound := True\<rparr>
      else if p_body m ! 0 = IP_T_BIND_NAK then s\<lparr>icmp_bound := False\<rparr>
      else s)"

text \<open>The request turned into its reply in place.\<close>

definition icmp_flip :: "bytes \<Rightarrow> bytes" where
  "icmp_flip h = (let h1 = h[0 := ICMP_TYPE_ECHO_REPLY, 2 := 0, 3 := 0] in blit h1 2 (le16 (htons16 (ip_checksum h1))))"

definition icmp_rq_putp :: "int \<Rightarrow> bool \<Rightarrow> icmp_state option \<Rightarrow> msg \<Rightarrow> int \<times> icmp_out list \<times> icmp_state option" where
  "icmp_rq_putp rc ok st mp =
     (case (st, mp) of
        (Some s, p # rest) \<Rightarrow>
          (let b = p_body p in
           if p_type p \<noteq> M_PROTO \<or> length b < 1 then (0, [], st)
           else if b ! 0 = IP_T_BIND_ACK \<or> b ! 0 = IP_T_BIND_NAK \<or> b ! 0 = IP_T_UNBIND_ACK then (0, [], Some (icmp_handle_ack_nak s p))
           else if b ! 0 \<noteq> IP_T_UNITDATA_IND \<or> length b < 12 then (0, [], st)
           else case rest of [] \<Rightarrow> (0, [], st)
             | body # mps \<Rightarrow>
                 let src_ip = un_le32 (subbytes 4 4 b); h = p_body body;
                     pkt_id = htons16 (un_le16 (subbytes 4 2 h)); pkt_seq = htons16 (un_le16 (subbytes 6 2 h))
                 in if length h < ICMP_HDR_LEN then (0, [], st)
                    else if ip_checksum h \<noteq> 0 then (0, [], st)
                    else if pkt_id \<noteq> icmp_id s then (0, [], st)
                    else if h ! 0 = ICMP_TYPE_ECHO_REQUEST then
                      (0, snd (icmp_send_to_ip rc ok src_ip (body\<lparr>p_body := icmp_flip h\<rparr> # mps)), st)
                    else if h ! 0 = ICMP_TYPE_ECHO_REPLY then
                      (if ping_armed s \<and> ping_seq s = pkt_seq then
                         (0, if ok then [IUp [new_msg M_DATA (le32 src_ip @ le16 pkt_seq @ le16 0)]] else [],
                          Some (s\<lparr>ping_armed := False, ping_src_ip := src_ip\<rparr>))
                       else (0, [], st))
                    else (0, [], st))
      | _ \<Rightarrow> (-1, [], st))"

definition icmp_ping_req :: "u32 \<Rightarrow> u16 \<Rightarrow> piece" where
  "icmp_ping_req dst seq = new_msg M_DATA (le32 dst @ le16 seq @ [0, 0])"

text \<open>A host with one interface that receives ICMP on the queue 8.\<close>

definition ping_host :: ip where
  "ping_host = sample_ip\<lparr>ip_uppers := [\<lparr>active = True, u_proto = 1, u_key = 0, upper_rq = Some 8\<rparr>]\<rparr>"

section \<open>Lemmas\<close>

lemma sum_words_unat_odd:
  assumes "unat s + word_sum bs < 2 ^ 32"
  shows "unat (sum_words bs s) = unat s + word_sum bs"
  using assms
proof (induction bs s rule: sum_words.induct)
  case (1 a b r s)
  let ?w = "ucast (push_bit 8 (ucast a) OR ucast b :: u16) :: u32"
  have w: "unat ?w = 256 * unat a + unat b" by (rule unat_pair16)
  have "unat (s + ?w) = (unat s + unat ?w) mod 2 ^ 32" by (simp add: unat_word_ariths)
  also have "\<dots> = unat s + unat ?w" using 1(2) w by (intro mod_less) simp
  finally have u: "unat (s + ?w) = unat s + (256 * unat a + unat b)" by (simp only: w)
  have "unat (sum_words r (s + ?w)) = unat (s + ?w) + word_sum r" using 1 u by simp
  then show ?case using u by simp
next
  case (2 a s)
  have "unat a < 256" using unsigned_less [of a, where ?'a = nat] by simp
  then have "unat (push_bit 8 (ucast a) :: u32) = 256 * unat a"
    by (simp add: push_bit_eq_mult unat_word_ariths unsigned_ucast_eq take_bit_eq_mod)
  with 2 show ?case by (simp add: unat_word_ariths)
qed simp

text \<open>A byte string that carries its own checksum at an even offset sums to zero.\<close>

lemma checksum_carried:
  assumes "even (length xs)" "length xs + length ys < 65536"
  shows "ip_checksum (xs @ be16 (ip_checksum (xs @ [0, 0] @ ys)) @ ys) = 0"
proof -
  let ?z = "xs @ [0, 0] @ ys" let ?c = "ip_checksum ?z" let ?h = "xs @ be16 ?c @ ys"
  let ?n = "word_sum ?z" let ?f = "unat (fold16 (sum_words ?z 0))" let ?g = "unat (fold16 (sum_words ?h 0))"
  have e: "word_sum ?h = ?n + unat ?c"
    using assms(1) word_sum_append [of "be16 ?c" ys] by (simp add: word_sum_append)
  have c: "unat ?c = 65535 - ?f" by (rule unat_ip_checksum)
  have "?n \<le> 65535 * ((length ?z + 1) div 2)" by (rule word_sum_bound)
  also have "\<dots> \<le> 65535 * 32769" using assms(2) by (intro mult_le_mono2) simp
  finally have n: "?n \<le> 2147516415" by simp
  have z: "unat (sum_words ?z 0) = ?n" using n by (subst sum_words_unat_odd) simp_all
  have s: "unat (sum_words ?h 0) = ?n + (65535 - ?f)" using n e c by (subst sum_words_unat_odd) simp_all
  have f: "?f < 65536" "?f mod 65535 = ?n mod 65535" using fold16_spec [of "sum_words ?z 0"] z by simp_all
  have "(?n + (65535 - ?f)) mod 65535 = (?n mod 65535 + (65535 - ?f)) mod 65535" by (simp add: mod_add_left_eq)
  also have "\<dots> = (?f mod 65535 + (65535 - ?f)) mod 65535" by (simp only: f(2))
  also have "\<dots> = (?f + (65535 - ?f)) mod 65535" by (simp add: mod_add_left_eq)
  also have "\<dots> = 0" using f(1) by simp
  finally have g: "?g mod 65535 = 0" using fold16_spec [of "sum_words ?h 0"] s by simp
  have "?n + (65535 - ?f) \<noteq> 0"
  proof
    assume "?n + (65535 - ?f) = 0"
    then have "sum_words ?z 0 = 0" "?f \<noteq> 0" using z by (auto simp: unat_eq_zero)
    then show False using fold16_spec [of "sum_words ?z 0"] by simp
  qed
  then have "fold16 (sum_words ?h 0) \<noteq> 0" using fold16_spec [of "sum_words ?h 0"] s by auto
  then have "0 < ?g" by (simp add: unat_gt_0)
  moreover have "?g < 65536" using fold16_spec by blast
  ultimately have "?g = 65535" using g by (cases "?g < 65535") auto
  then have "unat (ip_checksum ?h) = 0" using unat_ip_checksum [of ?h] by simp
  then show ?thesis by (simp add: unat_eq_zero)
qed

lemma icmp_hdr_split: "icmp_hdr_bytes t c i q @ d = [t, 0] @ be16 c @ (le16 (htons16 i) @ le16 (htons16 q) @ d)"
  by (simp add: icmp_hdr_bytes_def le16_htons16)

lemma length_icmp_hdr [simp]: "length (icmp_hdr_bytes t c i q) = 8"
  by (simp add: icmp_hdr_bytes_def)

lemma icmp_checksum_zero:
  assumes "length d < 65500"
  shows "ip_checksum (icmp_hdr_bytes t (ip_checksum (icmp_hdr_bytes t 0 i q @ d)) i q @ d) = 0"
  using checksum_carried [of "[t, 0]" "le16 (htons16 i) @ le16 (htons16 q) @ d"] assms
  by (simp add: icmp_hdr_split be16_def)

lemma icmp_fields:
  "(icmp_hdr_bytes t c i q @ d) ! 0 = t"
  "htons16 (un_le16 (subbytes 4 2 (icmp_hdr_bytes t c i q @ d))) = i" "htons16 (un_le16 (subbytes 6 2 (icmp_hdr_bytes t c i q @ d))) = q"
proof -
  have "subbytes 4 2 (icmp_hdr_bytes t c i q @ d) = le16 (htons16 i)" "subbytes 6 2 (icmp_hdr_bytes t c i q @ d) = le16 (htons16 q)"
    by (simp_all add: icmp_hdr_bytes_def subbytes_def)
  then show "htons16 (un_le16 (subbytes 4 2 (icmp_hdr_bytes t c i q @ d))) = i" "htons16 (un_le16 (subbytes 6 2 (icmp_hdr_bytes t c i q @ d))) = q"
    by simp_all
qed (simp add: icmp_hdr_bytes_def)

lemma icmp_flip_hdr:
  "icmp_flip (icmp_hdr_bytes t c i q @ d) =
     icmp_hdr_bytes ICMP_TYPE_ECHO_REPLY (ip_checksum (icmp_hdr_bytes ICMP_TYPE_ECHO_REPLY 0 i q @ d)) i q @ d"
proof -
  have z: "le16 (htons16 0) = [0, 0]" by (simp add: le16_htons16 be16_def)
  have "(icmp_hdr_bytes t c i q @ d)[0 := ICMP_TYPE_ECHO_REPLY, 2 := 0, 3 := 0] = icmp_hdr_bytes ICMP_TYPE_ECHO_REPLY 0 i q @ d"
    by (simp add: icmp_hdr_bytes_def z) (simp add: le16_def numeral_2_eq_2 numeral_3_eq_3)
  moreover have "blit (icmp_hdr_bytes u 0 i q @ d) 2 (le16 v) = icmp_hdr_bytes u (htons16 v) i q @ d" for u v
    by (simp add: icmp_hdr_bytes_def blit_def z)
  ultimately show ?thesis by (simp add: icmp_flip_def Let_def)
qed

text \<open>What the read side does with a packet of its own identifier.\<close>

lemma icmp_rq_request:
  assumes "length d < 65500" "icmp_id s = i" "p_body body = icmp_hdr_bytes ICMP_TYPE_ECHO_REQUEST (ip_checksum (icmp_hdr_bytes ICMP_TYPE_ECHO_REQUEST 0 i q @ d)) i q @ d"
  shows "icmp_rq_putp rc True (Some s) (build_unitdata_ind p src dst # body # mps) = (0, [IDown (ip_send_meta src IPPROTO_ICMP #
    body\<lparr>p_body := icmp_hdr_bytes ICMP_TYPE_ECHO_REPLY (ip_checksum (icmp_hdr_bytes ICMP_TYPE_ECHO_REPLY 0 i q @ d)) i q @ d\<rparr> # mps)], Some s)"
  using assms icmp_checksum_zero [OF assms(1), of ICMP_TYPE_ECHO_REQUEST i q]
  by (simp add: icmp_rq_putp_def unitdata_ind_fields icmp_fields icmp_flip_hdr icmp_send_to_ip_def Let_def)
    (simp add: consts_def)

lemma icmp_rq_reply:
  assumes "length d < 65500" "icmp_id s = i" "ping_armed s" "ping_seq s = q"
    "p_body body = icmp_hdr_bytes ICMP_TYPE_ECHO_REPLY (ip_checksum (icmp_hdr_bytes ICMP_TYPE_ECHO_REPLY 0 i q @ d)) i q @ d"
  shows "icmp_rq_putp rc True (Some s) (build_unitdata_ind p src dst # body # mps) =
    (0, [IUp [new_msg M_DATA (le32 src @ le16 q @ le16 0)]], Some (s\<lparr>ping_armed := False, ping_src_ip := src\<rparr>))"
  using assms icmp_checksum_zero [OF assms(1), of ICMP_TYPE_ECHO_REPLY i q]
  by (simp add: icmp_rq_putp_def unitdata_ind_fields icmp_fields Let_def)
    (simp add: consts_def)

text \<open>A packet with another identifier is dropped, whatever its checksum and its source.\<close>

lemma icmp_rq_foreign:
  assumes "i \<noteq> icmp_id s" "p_body body = icmp_hdr_bytes ty c i q @ d"
  shows "icmp_rq_putp rc ok (Some s) (build_unitdata_ind IPPROTO_ICMP src dst # body # mps) = (0, [], Some s)"
  using assms by (simp add: icmp_rq_putp_def unitdata_ind_fields icmp_fields Let_def)
    (simp add: consts_def)

subsection \<open>Properties\<close>

text \<open>
  C11. A ping between two hosts (which may be the same) with a route in both directions: the request written by the user leaves
  the host and is delivered to every ICMP stream that is bound on the other one. A stream \<open>t\<close> there answers it exactly when it
  has the identifier of the sending stream, as the sending stream itself has when a host pings itself; every
  other stream drops the request. The answer is delivered to the ICMP streams of the first host, and
  the sending stream turns it into a record with the address of the other host and the sequence number
  written, and no longer waits for it.
\<close>
theorem ping_returns:
  assumes "icmp_bound s"
    "ip_route dst h = Some l" "l_nif l = Some n" "qbot l = Some q" "28 \<le> n_mtu (nifs (inet h) n)" "n_mtu (nifs (inet h) n) < 65536"
    "ip_route (n_ip (nifs (inet h) n)) r = Some l'" "l_nif l' = Some n'" "qbot l' = Some q'" "28 \<le> n_mtu (nifs (inet r) n')" "n_mtu (nifs (inet r) n') < 65536"
  shows "\<exists>m pkt u m' pkt' u' s' h' r'. icmp_wq_putp rc (\<lambda>_. True) (Some s) [icmp_ping_req dst seq] = (rc, [IDown m], Some s') \<and> icmp_id s' = icmp_id s
    \<and> ip_wput rc True None m h = Some (rc, [Down q pkt], h')
    \<and> ip_rput (\<lambda>_. True) (\<lambda>_. True) pkt r = Some (0, map (\<lambda>rq. Deliver rq u) (ip_matches IPPROTO_ICMP r), r)
    \<and> (\<forall>t. icmp_rq_putp rc' True (Some t) u = (0, if icmp_id t = icmp_id s then [IDown m'] else [], Some t))
    \<and> ip_wput rc' True None m' r = Some (rc', [Down q' pkt'], r')
    \<and> ip_rput (\<lambda>_. True) (\<lambda>_. True) pkt' h' = Some (0, map (\<lambda>hq. Deliver hq u') (ip_matches IPPROTO_ICMP h), h')
    \<and> icmp_rq_putp rc True (Some s') u' = (0, [IUp [new_msg M_DATA (le32 (n_ip (nifs (inet r) n')) @ le16 seq @ le16 0)]],
         Some (s'\<lparr>ping_armed := False, ping_src_ip := n_ip (nifs (inet r) n')\<rparr>))"
proof -
  let ?i = "icmp_id s" let ?src = "n_ip (nifs (inet h) n)" let ?dst' = "n_ip (nifs (inet r) n')"
  define body where "body = (\<lambda>ty. \<lparr>p_type = M_DATA, p_head = 20, p_body = icmp_hdr_bytes ty (ip_checksum (icmp_hdr_bytes ty 0 ?i seq @ [])) ?i seq @ [], p_tail = 0\<rparr>)"
  let ?s = "s\<lparr>ping_seq := seq, ping_armed := True, ping_src_ip := 0\<rparr>"
  have b: "p_body (icmp_ping_req dst seq) = le32 dst @ le16 seq @ [0, 0]" "p_type (icmp_ping_req dst seq) = M_DATA" by (simp_all add: icmp_ping_req_def new_msg_def)
  have f: "take 4 (le32 dst @ le16 seq @ [0, 0]) = le32 dst" "subbytes 4 2 (le32 dst @ le16 seq @ [0, 0]) = le16 seq" by (simp_all add: subbytes_def)
  have w: "icmp_wq_putp rc (\<lambda>_. True) (Some s) [icmp_ping_req dst seq] = (rc, [IDown [ip_send_meta dst IPPROTO_ICMP, body ICMP_TYPE_ECHO_REQUEST]], Some ?s)"
    using assms(1) by (simp add: icmp_wq_putp_def b f icmp_alloc_body_def icmp_send_to_ip_def body_def Let_def IP_HDR_LEN_def)
  have len: "20 + length (p_body (body ty)) = 28" for ty by (simp add: body_def)
  have m: "20 + length (p_body (body ty)) \<le> unat (n_mtu (nifs (inet h) n))" "20 + length (p_body (body ty)) \<le> unat (n_mtu (nifs (inet r) n'))" for ty
    using assms(5,10) unfolding len by (simp_all add: word_le_nat_alt)
  have p: "20 \<le> p_head (body ty)" "p_type (body ty) = M_DATA" for ty by (simp_all add: body_def)
  obtain pkt where pkt: "ip_wput rc True None [ip_send_meta dst IPPROTO_ICMP, body ICMP_TYPE_ECHO_REQUEST] h = Some (rc, [Down q pkt], h\<lparr>ip_id_next := ip_id_next h + 1\<rparr>)"
    "\<And>r. ip_rput (\<lambda>_. True) (\<lambda>_. True) pkt r
      = Some (0, map (\<lambda>rq. Deliver rq [build_unitdata_ind IPPROTO_ICMP ?src dst, body ICMP_TYPE_ECHO_REQUEST]) (ip_matches IPPROTO_ICMP r), r)"
    using ip_carries [where rc = rc and ok = True and up = None and proto = IPPROTO_ICMP and rest = "[]" and mp = "body ICMP_TYPE_ECHO_REQUEST", OF assms(2-4) m(1) assms(6) p] by blast
  obtain pkt' where pkt': "ip_wput rc' True None [ip_send_meta ?src IPPROTO_ICMP, body ICMP_TYPE_ECHO_REPLY] r = Some (rc', [Down q' pkt'], r\<lparr>ip_id_next := ip_id_next r + 1\<rparr>)"
    "\<And>r. ip_rput (\<lambda>_. True) (\<lambda>_. True) pkt' r
      = Some (0, map (\<lambda>rq. Deliver rq [build_unitdata_ind IPPROTO_ICMP ?dst' ?src, body ICMP_TYPE_ECHO_REPLY]) (ip_matches IPPROTO_ICMP r), r)"
    using ip_carries [where rc = rc' and ok = True and up = None and proto = IPPROTO_ICMP and rest = "[]" and mp = "body ICMP_TYPE_ECHO_REPLY", OF assms(7-9) m(2) assms(11) p] by blast
  have a: "icmp_rq_putp rc' True (Some t) [build_unitdata_ind IPPROTO_ICMP ?src dst, body ICMP_TYPE_ECHO_REQUEST]
      = (0, if icmp_id t = icmp_id s then [IDown [ip_send_meta ?src IPPROTO_ICMP, body ICMP_TYPE_ECHO_REPLY]] else [], Some t)" for t
  proof (cases "icmp_id t = icmp_id s")
    case True
    then show ?thesis by (subst icmp_rq_request [where d = "[]" and i = ?i and q = seq]) (simp_all add: body_def)
  next
    case False
    then show ?thesis by (subst icmp_rq_foreign [where i = ?i]) (auto simp: body_def)
  qed
  have e: "icmp_rq_putp rc True (Some ?s) [build_unitdata_ind IPPROTO_ICMP ?dst' ?src, body ICMP_TYPE_ECHO_REPLY] =
      (0, [IUp [new_msg M_DATA (le32 ?dst' @ le16 seq @ le16 0)]], Some (?s\<lparr>ping_armed := False, ping_src_ip := ?dst'\<rparr>))"
    by (subst icmp_rq_reply [where d = "[]" and i = ?i and q = seq]) (simp_all add: body_def)
  have h: "ip_matches IPPROTO_ICMP (h\<lparr>ip_id_next := ip_id_next h + 1\<rparr>) = ip_matches IPPROTO_ICMP h" by (simp add: ip_matches_def)
  show ?thesis
    apply (rule exI, rule exI, rule exI, rule exI, rule exI, rule exI, rule exI, rule exI, rule exI)
    apply (intro conjI allI)
           apply (rule w)
          apply simp
         apply (rule pkt(1))
        apply (rule pkt(2))
       apply (rule a)
      apply (rule pkt'(1))
     apply (simp only: pkt'(2) h)
    apply (rule e)
    done
qed

lemma ping_route: "ip_route 0x7f000001 ping_host = Some \<lparr>muxid = 1, qbot = Some 5, l_nif = Some 0\<rparr>"
  by (simp add: ip_route_def ping_host_def sample_ip_def usable_def on_subnet_def lo0_nif_def)

text \<open>A host that pings itself: the request reaches the stream that sent it and is answered there.\<close>

theorem ping_returns_witness:
  "\<exists>s' pkt u m'. ip_rput (\<lambda>_. True) (\<lambda>_. True) pkt ping_host = Some (0, [Deliver (Some 8) u], ping_host) \<and> icmp_id s' = 3
    \<and> icmp_rq_putp 0 True (Some s') u = (0, [IDown m'], Some s')
    \<and> (\<exists>u'. icmp_rq_putp 0 True (Some s') u' = (0, [IUp [new_msg M_DATA (le32 0x7f000001 @ le16 7 @ le16 0)]],
         Some (s'\<lparr>ping_armed := False, ping_src_ip := 0x7f000001\<rparr>)))"
proof -
  let ?s = "\<lparr>icmp_id = 3, icmp_bound = True, ping_seq = 0, ping_armed = False, ping_src_ip = 0\<rparr>"
  have m: "ip_matches IPPROTO_ICMP ping_host = [Some 8]" by (simp add: ip_matches_def ping_host_def IPPROTO_ICMP_def)
  have n: "n_ip (nifs (inet ping_host) 0) = 0x7f000001" "n_mtu (nifs (inet ping_host) 0) = 1500"
    by (simp_all add: ping_host_def sample_ip_def lo0_nif_def)
  have r: "ip_route (n_ip (nifs (inet ping_host) 0)) ping_host = Some \<lparr>muxid = 1, qbot = Some 5, l_nif = Some 0\<rparr>"
    unfolding n by (rule ping_route)
  obtain u m' s' pkt u' where "icmp_id s' = icmp_id ?s"
      "ip_rput (\<lambda>_. True) (\<lambda>_. True) pkt ping_host = Some (0, map (\<lambda>rq. Deliver rq u) (ip_matches IPPROTO_ICMP ping_host), ping_host)"
      "\<forall>t. icmp_rq_putp 0 True (Some t) u = (0, if icmp_id t = icmp_id ?s then [IDown m'] else [], Some t)"
      "icmp_rq_putp 0 True (Some s') u' = (0, [IUp [new_msg M_DATA (le32 (n_ip (nifs (inet ping_host) 0)) @ le16 7 @ le16 0)]],
         Some (s'\<lparr>ping_armed := False, ping_src_ip := n_ip (nifs (inet ping_host) 0)\<rparr>))"
    using ping_returns [where s = ?s and dst = "0x7f000001" and h = ping_host and r = ping_host and n = 0 and n' = 0
      and q = 5 and q' = 5 and rc = 0 and rc' = 0 and seq = 7, OF _ ping_route _ _ _ _ r] by (simp add: n(2)) blast
  then show ?thesis unfolding n(1) m
    by (intro exI [of _ s'] exI [of _ pkt] exI [of _ u] exI [of _ m'] conjI exI [of _ u']) simp_all
qed

end
