(* ===== verification/Kstring.thy ===== *)
theory Kstring
  imports Kappara_Prelude "HOL-Library.Monad_Syntax"
begin

text \<open>
  The byte loops of \<open>uts/os/core/string.c\<close> over a byte-addressed memory whose addresses wrap, and the
  boot log of \<open>uts/os/core/klog.c\<close>. The theorems: the copy loop is a block move unless it overwrites
  source bytes it has yet to read, comparison is equality of the blocks, string length finds the first
  NUL, and the log keeps the first bytes written.
\<close>

section \<open>Definitions\<close>

type_synonym kmem = "u64 \<Rightarrow> u8"

primrec kmemset :: "u64 \<Rightarrow> u8 \<Rightarrow> nat \<Rightarrow> kmem \<Rightarrow> kmem" where
  "kmemset d v 0 m = m"
| "kmemset d v (Suc n) m = kmemset (d + 1) v n (m(d := v))"

primrec kmemcpy :: "u64 \<Rightarrow> u64 \<Rightarrow> nat \<Rightarrow> kmem \<Rightarrow> kmem" where
  "kmemcpy d s 0 m = m"
| "kmemcpy d s (Suc n) m = kmemcpy (d + 1) (s + 1) n (m(d := m s))"

primrec kmemcmp :: "u64 \<Rightarrow> u64 \<Rightarrow> nat \<Rightarrow> kmem \<Rightarrow> int" where
  "kmemcmp p q 0 m = 0"
| "kmemcmp p q (Suc n) m = (if m p \<noteq> m q then uint (m p) - uint (m q) else kmemcmp (p + 1) (q + 1) n m)"

partial_function (option) kstrcmp :: "u64 \<Rightarrow> u64 \<Rightarrow> kmem \<Rightarrow> int option" where
  [code]: "kstrcmp a b m = (if m a \<noteq> 0 \<and> m a = m b then kstrcmp (a + 1) (b + 1) m else Some (uint (m a) - uint (m b)))"

partial_function (option) kstrlen_from :: "u64 \<Rightarrow> u64 \<Rightarrow> kmem \<Rightarrow> u64 option" where
  [code]: "kstrlen_from s n m = (if m (s + n) \<noteq> 0 then kstrlen_from s (n + 1) m else Some n)"

definition kstrlen :: "u64 \<Rightarrow> kmem \<Rightarrow> u64 option" where
  "kstrlen s m = kstrlen_from s 0 m"

text \<open>The bytes of a block, and the C string at an address.\<close>

definition block :: "u64 \<Rightarrow> nat \<Rightarrow> kmem \<Rightarrow> bytes" where
  "block a n m = map (\<lambda>i. m (a + of_nat i)) [0..<n]"

definition cstr_at :: "u64 \<Rightarrow> bytes \<Rightarrow> kmem \<Rightarrow> bool" where
  "cstr_at a xs m \<longleftrightarrow> block a (length xs) m = xs \<and> 0 \<notin> set xs \<and> m (a + of_nat (length xs)) = 0"

subsection \<open>Boot log\<close>

definition KLOG_SIZE :: nat where [consts_def]: "KLOG_SIZE = 8192"

text \<open>The log is the part of \<open>klog_buf\<close> below \<open>klog_len\<close>.\<close>

definition klog_putc :: "u8 \<Rightarrow> bytes \<Rightarrow> bytes" where
  "klog_putc c l = (if length l < KLOG_SIZE then l @ [c] else l)"

definition klog_size :: "bytes \<Rightarrow> nat" where
  "klog_size l = length l"

definition klog_copy :: "nat \<Rightarrow> nat \<Rightarrow> bytes \<Rightarrow> bytes" where
  "klog_copy off cap l =
     (if off \<ge> length l then []
      else let avail = length l - off; n = (if avail < cap then avail else cap) in subbytes off n l)"

section \<open>Lemmas\<close>

lemma unat_dec: "(u :: u64) \<noteq> 0 \<Longrightarrow> unat (u - 1) = unat u - 1"
  by (simp add: unat_minus_one)

lemma shift_cases:
  assumes "n < 2 ^ 64"
  shows "unat (x - (d + 1) :: u64) < n \<longleftrightarrow> x \<noteq> d \<and> unat (x - d) < Suc n"
proof (cases "x = d")
  case True
  have "unat (- 1 :: u64) = 2 ^ 64 - 1" by (simp add: unsigned_minus_1_eq_mask mask_eq_exp_minus_1)
  then show ?thesis using True assms by simp
next
  case False
  then have nz: "x - d \<noteq> 0" by simp
  have "x - (d + 1) = (x - d) - 1" by simp
  then have e: "unat (x - (d + 1)) = unat (x - d) - 1" by (simp only: unat_dec [OF nz])
  have "0 < unat (x - d)" using nz by (simp add: unat_gt_0)
  then show ?thesis unfolding e using False by auto
qed

lemma kmemcpy_spec:
  assumes "n \<le> 2 ^ 64" "d = s \<or> n \<le> unat (d - s)"
  shows "kmemcpy d s n m x = (if unat (x - d) < n then m (s + (x - d)) else m x)"
  using assms
proof (induction n arbitrary: d s m)
  case (Suc n)
  let ?m = "m(d := m s)"
  have n: "n < 2 ^ 64" using Suc.prems by simp
  have e: "(d + 1) - (s + 1) = d - s" "s + 1 + (x - (d + 1)) = s + (x - d)" by simp_all
  have ih: "kmemcpy (d + 1) (s + 1) n ?m x = (if unat (x - (d + 1)) < n then ?m (s + (x - d)) else ?m x)"
  proof -
    have "d + 1 = s + 1 \<or> n \<le> unat ((d + 1) - (s + 1))" unfolding e using Suc.prems(2) by auto
    from Suc.IH [OF less_imp_le [OF n] this, of ?m] show ?thesis by (simp only: e)
  qed
  show ?case
  proof (cases "x = d")
    case True
    then show ?thesis using ih shift_cases [OF n, of x d] by simp
  next
    case False
    have "?m (s + (x - d)) = m (s + (x - d))" if u: "unat (x - d) < Suc n"
    proof -
      have "s + (x - d) \<noteq> d"
      proof
        assume a: "s + (x - d) = d"
        then have xd: "x - d = d - s" by (metis add_diff_cancel_left')
        show False
        proof (cases "d = s")
          case True
          then show False using xd False by simp
        next
          case f: False
          then show False using Suc.prems(2) u xd by simp
        qed
      qed
      then show ?thesis by simp
    qed
    then show ?thesis using ih shift_cases [OF n, of x d] False by simp
  qed
qed simp

lemma kmemset_spec:
  assumes "n \<le> 2 ^ 64"
  shows "kmemset d v n m x = (if unat (x - d) < n then v else m x)"
  using assms
proof (induction n arbitrary: d m)
  case (Suc n)
  then show ?case using shift_cases [of n x d] Suc.IH [of "d + 1" "m(d := v)"] by auto
qed simp

lemma block_Suc: "block a (Suc n) m = m a # block (a + 1) n m"
  by (simp add: block_def upt_conv_Cons map_Suc_upt [symmetric] add.assoc del: upt_Suc)

lemma cstr_at_Cons: "cstr_at a (x # xs) m \<longleftrightarrow> m a = x \<and> x \<noteq> 0 \<and> cstr_at (a + 1) xs m"
  by (auto simp: cstr_at_def block_Suc add.assoc)

lemma cstr_at_Nil: "cstr_at a [] m \<longleftrightarrow> m a = 0"
  by (simp add: cstr_at_def block_def)

subsection \<open>Properties\<close>

text \<open>
  The byte-at-a-time copy is a block move: the destination gets the old bytes of the source and
  nothing else changes, as long as the destination does not start inside the source behind its first byte.
\<close>
theorem kmemcpy_is_block_move:
  assumes "n \<le> 2 ^ 64" "d = s \<or> n \<le> unat (d - s)"
  shows "kmemcpy d s n m = (\<lambda>x. if unat (x - d) < n then m (s + (x - d)) else m x)"
  using kmemcpy_spec [OF assms] by (simp add: fun_eq_iff)

theorem kmemcpy_is_block_move_witness:
  "kmemcpy 0 1 3 (\<lambda>x. ucast x) = (\<lambda>x. if unat (x - 0) < 3 then ucast (1 + (x - 0)) else ucast x)"
  by (rule kmemcpy_is_block_move) (simp_all add: unsigned_minus_1_eq_mask mask_eq_exp_minus_1)

theorem kmemcmp_zero_iff: "kmemcmp p q n m = 0 \<longleftrightarrow> block p n m = block q n m"
proof (induction n arbitrary: p q)
  case (Suc n)
  then show ?case by (simp add: block_Suc) (simp add: word_uint_eq_iff)
qed (simp add: block_def)

text \<open>String comparison ends on two C strings, and gives zero exactly when they are equal.\<close>
theorem kstrcmp_equal:
  assumes "cstr_at a xs m" "cstr_at b ys m"
  shows "\<exists>r. kstrcmp a b m = Some r \<and> (r = 0 \<longleftrightarrow> xs = ys)"
  using assms
proof (induction xs arbitrary: a b ys)
  case Nil
  then show ?case by (cases ys) (auto simp: cstr_at_Nil cstr_at_Cons kstrcmp.simps [of a b] uint_0_iff)
next
  case (Cons x xs)
  show ?case
  proof (cases ys)
    case Nil
    then show ?thesis using Cons.prems by (auto simp: cstr_at_Nil cstr_at_Cons kstrcmp.simps [of a b] uint_0_iff)
  next
    case ys: (Cons y ys')
    show ?thesis
    proof (cases "x = y")
      case True
      then show ?thesis using Cons.IH [of "a + 1" "b + 1" ys'] Cons.prems ys by (simp add: cstr_at_Cons kstrcmp.simps [of a b])
    next
      case False
      then have "uint x \<noteq> uint y" by (simp add: word_uint_eq_iff)
      then show ?thesis using Cons.prems ys False by (auto simp: cstr_at_Cons kstrcmp.simps [of a b])
    qed
  qed
qed

theorem kstrcmp_equal_witness: "\<exists>r. kstrcmp 0 0 (\<lambda>x. if x = 0 then 65 else 0) = Some r \<and> (r = 0 \<longleftrightarrow> [65] = [65 :: u8])"
  by (rule kstrcmp_equal) (simp_all add: cstr_at_Cons cstr_at_Nil)

text \<open>The boot log holds the first \<open>KLOG_SIZE\<close> bytes ever written to it, in order.\<close>
theorem klog_keeps_first: "length l \<le> KLOG_SIZE \<Longrightarrow> fold klog_putc cs l = take KLOG_SIZE (l @ cs)"
proof (induction cs arbitrary: l)
  case (Cons c cs)
  show ?case
  proof (cases "length l < KLOG_SIZE")
    case True
    then show ?thesis using Cons.IH [of "l @ [c]"] by (simp add: klog_putc_def)
  next
    case False
    then show ?thesis using Cons.IH [of l] Cons.prems by (simp add: klog_putc_def)
  qed
qed simp

end
