(* ===== verification/Cdevsw.thy ===== *)
theory Cdevsw
  imports Kappara_Prelude
begin

text \<open>
  The character-device switch of \<open>uts/os/io/cdevsw.c\<close>: drivers by major number and, per driver, a
  64-bit map of the minor numbers in use. The theorem: minor allocation hands out the
  lowest free number, fails exactly when all 64 are taken, and freeing gives it back.
\<close>

section \<open>Definitions\<close>

definition CDEV_MAX :: nat where [consts_def]: "CDEV_MAX = 32"

text \<open>\<open>c_streamtab\<close> is \<open>None\<close> while the major number has no driver.\<close>

record cdev_entry =
  c_name :: bytes
  c_streamtab :: "nat ptr"
  c_flags :: u32
  c_minors :: u64

definition cdev_register :: "nat \<Rightarrow> bytes \<Rightarrow> nat ptr \<Rightarrow> cdev_entry list \<Rightarrow> int \<times> cdev_entry list" where
  "cdev_register major name st t =
     (if major \<ge> CDEV_MAX then (-1, t)
      else if c_streamtab (t ! major) \<noteq> None then (-1, t)
      else (0, t[major := (t ! major)\<lparr>c_name := name, c_streamtab := st\<rparr>]))"

definition cdev_lookup :: "nat \<Rightarrow> cdev_entry list \<Rightarrow> nat ptr" where
  "cdev_lookup major t =
     (if major \<ge> CDEV_MAX then None else if c_streamtab (t ! major) = None then None else Some major)"

definition cdev_set_flags :: "nat \<Rightarrow> u32 \<Rightarrow> cdev_entry list \<Rightarrow> cdev_entry list" where
  "cdev_set_flags major flags t = (if major < CDEV_MAX then t[major := (t ! major)\<lparr>c_flags := flags\<rparr>] else t)"

definition cdev_minor_alloc :: "nat \<Rightarrow> cdev_entry list \<Rightarrow> int \<times> cdev_entry list" where
  "cdev_minor_alloc major t =
     (if major \<ge> CDEV_MAX then (-1, t)
      else case find (\<lambda>m. c_minors (t ! major) AND push_bit m 1 = 0) [0..<64] of
        None \<Rightarrow> (-1, t)
      | Some m \<Rightarrow> (int m, t[major := (t ! major)\<lparr>c_minors := c_minors (t ! major) OR push_bit m 1\<rparr>]))"

definition cdev_minor_free :: "nat \<Rightarrow> nat \<Rightarrow> cdev_entry list \<Rightarrow> cdev_entry list" where
  "cdev_minor_free major minor t =
     (if major < CDEV_MAX \<and> minor < 64 then t[major := (t ! major)\<lparr>c_minors := c_minors (t ! major) AND NOT (push_bit minor 1)\<rparr>] else t)"

text \<open>Whether a minor number is taken, and the table before any driver registers.\<close>

definition minor_used :: "nat \<Rightarrow> nat \<Rightarrow> cdev_entry list \<Rightarrow> bool" where
  "minor_used major m t \<longleftrightarrow> bit (c_minors (t ! major)) m"

definition cdev_boot :: "cdev_entry list" where
  "cdev_boot = replicate CDEV_MAX \<lparr>c_name = [], c_streamtab = None, c_flags = 0, c_minors = 0\<rparr>"

section \<open>Lemmas\<close>

text \<open>Shifted ones stay as the code writes them.\<close>

declare push_bit_of_1 [simp del]

lemma minor_test: "m < 64 \<Longrightarrow> (w :: u64) AND push_bit m 1 = 0 \<longleftrightarrow> \<not> bit w m"
proof -
  assume m: "m < 64"
  have b: "bit (w AND push_bit m 1) n \<longleftrightarrow> n = m \<and> bit w m" for n
    using m by (auto simp: bit_simps bit_1_iff)
  show ?thesis
  proof
    assume "w AND push_bit m 1 = 0"
    then show "\<not> bit w m" using b [of m] by simp
  next
    assume "\<not> bit w m"
    then show "w AND push_bit m 1 = 0" using b by (intro bit_word_eqI) simp
  qed
qed

lemma minor_bits:
  "m < 64 \<Longrightarrow> bit ((w :: u64) OR push_bit m 1) k \<longleftrightarrow> bit w k \<or> k = m"
  "m < 64 \<Longrightarrow> bit ((w :: u64) AND NOT (push_bit m 1)) k \<longleftrightarrow> bit w k \<and> k \<noteq> m"
  by (auto simp: bit_simps bit_1_iff dest: bit_imp_le_length)

text \<open>
  Allocating a minor number gives the lowest one that is not in use and marks exactly that one; it
  fails only when all 64 are in use; and freeing the number afterwards restores the map.
\<close>
theorem cdev_minor_alloc_correct:
  assumes "major < CDEV_MAX" "length t = CDEV_MAX"
  shows "(case cdev_minor_alloc major t of (r, t') \<Rightarrow>
    if \<forall>m < 64. minor_used major m t then r = -1 \<and> t' = t
    else \<exists>m < 64. r = int m \<and> \<not> minor_used major m t \<and> (\<forall>k < m. minor_used major k t)
      \<and> (\<forall>k. minor_used major k t' \<longleftrightarrow> minor_used major k t \<or> k = m)
      \<and> cdev_minor_free major m t' = t)"
proof (cases "find (\<lambda>m. c_minors (t ! major) AND push_bit m 1 = 0) [0..<64]")
  case None
  then have "\<forall>m < 64. minor_used major m t" using minor_test by (auto simp: find_None_iff minor_used_def)
  then show ?thesis using None assms by (simp add: cdev_minor_alloc_def)
next
  case (Some m)
  then have m: "m < 64" "c_minors (t ! major) AND push_bit m 1 = 0" "\<And>k. k < m \<Longrightarrow> c_minors (t ! major) AND push_bit k 1 \<noteq> 0"
    by (auto simp: find_Some_iff)
  have u: "\<not> minor_used major m t" "\<And>k. k < m \<Longrightarrow> minor_used major k t"
    using m minor_test [of _ "c_minors (t ! major)"] by (auto simp: minor_used_def)
  let ?t = "t[major := (t ! major)\<lparr>c_minors := c_minors (t ! major) OR push_bit m 1\<rparr>]"
  have a: "cdev_minor_alloc major t = (int m, ?t)" using Some assms by (simp add: cdev_minor_alloc_def)
  have n: "\<forall>k. minor_used major k ?t \<longleftrightarrow> minor_used major k t \<or> k = m"
    using assms m(1) by (simp add: minor_used_def minor_bits)
  have "(c_minors (t ! major) OR push_bit m 1) AND NOT (push_bit m 1) = c_minors (t ! major)"
    using u(1) m(1) by (intro bit_word_eqI) (auto simp: minor_bits minor_used_def)
  then have "cdev_minor_free major m ?t = t" using assms m(1) by (simp add: cdev_minor_free_def)
  then show ?thesis using a u n m(1) by auto
qed

theorem cdev_minor_alloc_correct_witness: "\<exists>m < 64. fst (cdev_minor_alloc 3 cdev_boot) = int m"
proof -
  have "\<not> minor_used 3 0 cdev_boot" by (simp add: minor_used_def cdev_boot_def CDEV_MAX_def)
  then have "\<not> (\<forall>m < 64. minor_used 3 m cdev_boot)" by (meson zero_less_numeral)
  then have n: "(\<forall>m < 64. minor_used 3 m cdev_boot) = False" by simp
  have l: "3 < CDEV_MAX" "length cdev_boot = CDEV_MAX" by (simp_all add: cdev_boot_def CDEV_MAX_def)
  from cdev_minor_alloc_correct [OF l, unfolded n if_False] show ?thesis by (auto split: prod.splits)
qed

end
