(* ===== verification/Libc.thy ===== *)
theory Libc
  imports Kappara_Prelude "HOL-Library.Multiset"
begin

text \<open>
  Formatting, number parsing, sorting and searching of the C library: \<open>lib/libc/src/printf.c\<close>, \<open>stdlib.c\<close>
  and \<open>ctype.c\<close>. A C string is its bytes without the NUL; a variable argument list is a list of typed
  values. \<open>None\<close> is undefined behaviour: a conversion at the very end of the format (the code reads past the
  NUL), an argument of another type than the conversion expects, a signed overflow (\<open>-val\<close> of the least \<open>long\<close>
  included). The theorems: what
  \<open>vsnprintf\<close> leaves in the buffer is the front of the text it formats and never more than the buffer
  holds; printed numbers are read back by \<open>strtol\<close>; \<open>qsort\<close> is the stable sort; \<open>bsearch\<close> finds a key that is
  there; zero padding of a negative number puts the zeros in front of the sign.
\<close>

section \<open>Definitions\<close>

subsection \<open>Characters\<close>

definition isdigit :: "int \<Rightarrow> bool" where "isdigit c \<longleftrightarrow> 48 \<le> c \<and> c \<le> 57"
definition isupper :: "int \<Rightarrow> bool" where "isupper c \<longleftrightarrow> 65 \<le> c \<and> c \<le> 90"
definition islower :: "int \<Rightarrow> bool" where "islower c \<longleftrightarrow> 97 \<le> c \<and> c \<le> 122"
definition isalpha :: "int \<Rightarrow> bool" where "isalpha c \<longleftrightarrow> isupper c \<or> islower c"
definition isalnum :: "int \<Rightarrow> bool" where "isalnum c \<longleftrightarrow> isalpha c \<or> isdigit c"
definition isxdigit :: "int \<Rightarrow> bool" where "isxdigit c \<longleftrightarrow> isdigit c \<or> (97 \<le> c \<and> c \<le> 102) \<or> (65 \<le> c \<and> c \<le> 70)"
definition isspace :: "int \<Rightarrow> bool" where "isspace c \<longleftrightarrow> c = 32 \<or> c = 9 \<or> c = 10 \<or> c = 13 \<or> c = 11 \<or> c = 12"
definition iscntrl :: "int \<Rightarrow> bool" where "iscntrl c \<longleftrightarrow> (0 \<le> c \<and> c < 32) \<or> c = 127"
definition isprint :: "int \<Rightarrow> bool" where "isprint c \<longleftrightarrow> 32 \<le> c \<and> c < 127"
definition ispunct :: "int \<Rightarrow> bool" where "ispunct c \<longleftrightarrow> isprint c \<and> \<not> isalnum c \<and> c \<noteq> 32"
definition toupper :: "int \<Rightarrow> int" where "toupper c = (if islower c then c - 97 + 65 else c)"
definition tolower :: "int \<Rightarrow> int" where "tolower c = (if isupper c then c - 65 + 97 else c)"

subsection \<open>Formatted output\<close>

datatype va_arg = VInt "32 word" | VLong u64 | VStr "bytes option" | VPtr u64

record spec =
  left_align :: bool
  zero_pad :: bool
  width :: nat
  is_long :: bool

fun spec_flags :: "bytes \<Rightarrow> bool \<Rightarrow> bool \<Rightarrow> bool \<times> bool \<times> bytes" where
  "spec_flags (c # r) l z = (if c = 45 then spec_flags r True z else if c = 48 then spec_flags r l True else (l, z, c # r))"
| "spec_flags [] l z = (l, z, [])"

fun spec_width :: "bytes \<Rightarrow> nat \<Rightarrow> (nat \<times> bytes) option" where
  "spec_width (c # r) w =
     (if 48 \<le> c \<and> c \<le> 57 then
        (let w1 = w * 10 + (unat c - 48) in if w1 \<ge> 2 ^ 31 then None else spec_width r w1)
      else Some (w, c # r))"
| "spec_width [] w = Some (w, [])"

text \<open>Flags, width and length modifier; then the conversion character and the rest of the format.\<close>

definition parse_spec :: "bytes \<Rightarrow> (spec \<times> u8 \<times> bytes) option" where
  "parse_spec r =
     (case spec_flags r False False of (l, z, r1) \<Rightarrow>
      case spec_width r1 0 of None \<Rightarrow> None
      | Some (w, r2) \<Rightarrow>
        let (lg, r3) = (case r2 of c # r' \<Rightarrow> if c = 108 then (True, r') else (False, r2) | [] \<Rightarrow> (False, r2)) in
        (case r3 of [] \<Rightarrow> None
         | k # r4 \<Rightarrow> Some (\<lparr>left_align = l, zero_pad = z \<and> \<not> l, width = w, is_long = lg\<rparr>, k, r4)))"

text \<open>The digits the conversion loops store, the last one first.\<close>

function dec_digits :: "u64 \<Rightarrow> bytes" where
  "dec_digits v = (if v = 0 then [] else ucast (48 + v mod 10) # dec_digits (v div 10))"
  by pat_completeness auto
termination
  by (relation "measure unat") (auto simp: unat_div intro!: div_less_dividend dest: unat_gt_0 [THEN iffD2])

declare dec_digits.simps [simp del]

definition hex_digit :: "bool \<Rightarrow> u64 \<Rightarrow> u8" where
  "hex_digit up d = (if d < 10 then ucast (48 + d) else if up then ucast (55 + d) else ucast (87 + d))"

function hex_digits :: "bool \<Rightarrow> u64 \<Rightarrow> bytes" where
  "hex_digits up v = (if v = 0 then [] else hex_digit up (v AND 0xf) # hex_digits up (drop_bit 4 v))"
  by pat_completeness auto
termination
proof (relation "measure (\<lambda>(up, v). unat v)", goal_cases)
  case (2 up v)
  then have "0 < unat v" by (simp add: unat_gt_0)
  then show ?case unfolding in_measure prod.case unat_drop_bit_eq by (simp add: drop_bit_eq_div)
qed simp

declare hex_digits.simps [simp del]

definition fmt_unsigned :: "u64 \<Rightarrow> bytes" where
  "fmt_unsigned v = rev (if v = 0 then [48] else dec_digits v)"

definition fmt_signed :: "u64 \<Rightarrow> bytes" where
  "fmt_signed v =
     (let neg = sint v < 0; uval = (if neg then - v else v); t = (if uval = 0 then [48] else dec_digits uval)
      in rev (if neg then t @ [45] else t))"

definition fmt_hex :: "bool \<Rightarrow> u64 \<Rightarrow> bytes" where
  "fmt_hex up v = rev (if v = 0 then [48] else hex_digits up v)"

definition fmt_ptr :: "u64 \<Rightarrow> bytes" where
  "fmt_ptr v = [48, 120] @ map (\<lambda>i. hex_digit False (drop_bit (60 - i * 4) v AND 0xf)) [0..<16]"

text \<open>\<open>(null)\<close>\<close>

definition null_text :: bytes where
  "null_text = [40, 110, 117, 108, 108, 41]"

text \<open>
  One conversion: the text, the pad character and the width left, with the remaining arguments. The inner
  \<open>None\<close> is a conversion character the switch does not know.
\<close>

definition convert :: "spec \<Rightarrow> u8 \<Rightarrow> va_arg list \<Rightarrow> (bytes \<times> u8 \<times> nat \<times> va_arg list) option option" where
  "convert sp k args =
     (let padc = (if zero_pad sp then 48 else 32); w = width sp in
      if k = 115 then (case args of VStr s # as \<Rightarrow> Some (Some (case s of None \<Rightarrow> null_text | Some t \<Rightarrow> t, 32, w, as)) | _ \<Rightarrow> None)
      else if k = 100 \<or> k = 105 then
        (case args of VLong v # as \<Rightarrow> if is_long sp \<and> v \<noteq> 2 ^ 63 then Some (Some (fmt_signed v, padc, w, as)) else None
         | VInt v # as \<Rightarrow> if is_long sp then None else Some (Some (fmt_signed (scast v), padc, w, as))
         | _ \<Rightarrow> None)
      else if k = 117 then
        (case args of VLong v # as \<Rightarrow> if is_long sp then Some (Some (fmt_unsigned v, padc, w, as)) else None
         | VInt v # as \<Rightarrow> if is_long sp then None else Some (Some (fmt_unsigned (ucast v), padc, w, as))
         | _ \<Rightarrow> None)
      else if k = 120 \<or> k = 88 then
        (case args of VLong v # as \<Rightarrow> if is_long sp then Some (Some (fmt_hex (k = 88) v, padc, w, as)) else None
         | VInt v # as \<Rightarrow> if is_long sp then None else Some (Some (fmt_hex (k = 88) (ucast v), padc, w, as))
         | _ \<Rightarrow> None)
      else if k = 99 then (case args of VInt v # as \<Rightarrow> Some (Some ([ucast v], padc, w, as)) | _ \<Rightarrow> None)
      else if k = 112 then (case args of VPtr v # as \<Rightarrow> Some (Some (fmt_ptr v, padc, 0, as)) | _ \<Rightarrow> None)
      else Some None)"

text \<open>\<open>EMIT\<close>: the characters stored so far and the count of all.\<close>

definition emit :: "nat \<Rightarrow> u8 \<Rightarrow> bytes \<times> nat \<Rightarrow> bytes \<times> nat" where
  "emit n c st = (case st of (b, t) \<Rightarrow> (if length b + 1 < n then b @ [c] else b, t + 1))"

text \<open>Padding and text of one conversion; \<open>em\<close> is what \<open>EMIT\<close> does with a character.\<close>

definition emit_padded :: "(u8 \<Rightarrow> 's \<Rightarrow> 's) \<Rightarrow> bool \<Rightarrow> bytes \<Rightarrow> u8 \<Rightarrow> nat \<Rightarrow> 's \<Rightarrow> 's" where
  "emit_padded em left str padc w st =
     (let pad = (if w > 0 \<and> w > length str then w - length str else 0);
          st1 = (if left then st else fold em (replicate pad padc) st);
          st2 = fold em str st1
      in if left then fold em (replicate pad 32) st2 else st2)"

function (sequential) fmt_loop :: "(u8 \<Rightarrow> 's \<Rightarrow> 's) \<Rightarrow> bytes \<Rightarrow> va_arg list \<Rightarrow> 's \<Rightarrow> 's option" where
  "fmt_loop em [] args st = Some st"
| "fmt_loop em (c # r) args st =
     (if c \<noteq> 37 then fmt_loop em r args (em c st)
      else case parse_spec r of
        None \<Rightarrow> None
      | Some (sp, k, r') \<Rightarrow>
          if k = 37 then fmt_loop em r' args (em 37 st)
          else (case convert sp k args of
                  None \<Rightarrow> None
                | Some None \<Rightarrow> fmt_loop em r' args (em k (em 37 st))
                | Some (Some (str, padc, w, args')) \<Rightarrow> fmt_loop em r' args' (emit_padded em (left_align sp) str padc w st)))"
  by pat_completeness auto
termination
proof -
  have f: "spec_flags r l z = (l', z', r') \<Longrightarrow> length r' \<le> length r" for r l z l' z' r'
    by (induction r l z rule: spec_flags.induct) (auto split: if_splits)
  have w: "spec_width r w = Some (w', r') \<Longrightarrow> length r' \<le> length r" for r w w' r'
    by (induction r w rule: spec_width.induct) (auto split: if_splits simp: Let_def)
  have "parse_spec r = Some (sp, k, r') \<Longrightarrow> length r' < length r" for r sp k r'
    by (auto simp: parse_spec_def Let_def split: prod.splits option.splits list.splits if_splits dest!: f w)
  then show ?thesis by (relation "measure (\<lambda>(em, f, a, s). length f)") (auto simp: less_Suc_eq)
qed

declare fmt_loop.simps(2) [simp del]

text \<open>The bytes stored in a buffer of \<open>n\<close> bytes and the value returned.\<close>

definition vsnprintf :: "nat \<Rightarrow> bytes \<Rightarrow> va_arg list \<Rightarrow> (bytes \<times> int) option" where
  "vsnprintf n fmt args =
     (case fmt_loop (emit n) fmt args ([], 0) of None \<Rightarrow> None
      | Some (b, t) \<Rightarrow> Some (if n > 0 then b @ [0] else b, sint (of_nat t :: 32 word)))"

definition sprintf :: "bytes \<Rightarrow> va_arg list \<Rightarrow> (bytes \<times> int) option" where
  "sprintf fmt args = vsnprintf 0x7fffffff fmt args"

text \<open>\<open>vprintf\<close>: the bytes written to the console and the value returned.\<close>

definition vprintf :: "bytes \<Rightarrow> va_arg list \<Rightarrow> (bytes \<times> int) option" where
  "vprintf fmt args =
     (case vsnprintf 1024 fmt args of None \<Rightarrow> None
      | Some (b, len) \<Rightarrow> Some (if len > 0 then take (if nat len < 1024 then nat len else 1023) b else [], len))"

text \<open>The text a format and its arguments stand for, without a buffer.\<close>

definition render :: "bytes \<Rightarrow> va_arg list \<Rightarrow> bytes option" where
  "render fmt args = fmt_loop (\<lambda>c t. t @ [c]) fmt args []"

subsection \<open>Numbers\<close>

fun skip_space :: "bytes \<Rightarrow> bytes" where
  "skip_space (c # r) = (if isspace (uint c) then skip_space r else c # r)"
| "skip_space [] = []"

definition char_digit :: "u8 \<Rightarrow> int option" where
  "char_digit c =
     (if 48 \<le> c \<and> c \<le> 57 then Some (uint c - 48)
      else if 97 \<le> c \<and> c \<le> 122 then Some (uint c - 97 + 10)
      else if 65 \<le> c \<and> c \<le> 90 then Some (uint c - 65 + 10)
      else None)"

text \<open>The accumulation is in a \<open>long\<close>: leaving its range is undefined.\<close>

fun strtol_loop :: "int \<Rightarrow> int \<Rightarrow> bytes \<Rightarrow> (int \<times> bytes) option" where
  "strtol_loop base v [] = Some (v, [])"
| "strtol_loop base v (c # r) =
     (case char_digit c of None \<Rightarrow> Some (v, c # r)
      | Some d \<Rightarrow> if d \<ge> base then Some (v, c # r)
                else let v1 = v * base + d in if v1 \<ge> 2 ^ 63 then None else strtol_loop base v1 r)"

definition hex_prefix :: "bytes \<Rightarrow> bool" where
  "hex_prefix s \<longleftrightarrow> (case s of a # b # _ \<Rightarrow> a = 48 \<and> (b = 120 \<or> b = 88) | _ \<Rightarrow> False)"

text \<open>The value and the text after the number (\<open>*endp\<close>).\<close>

definition strtol :: "bytes \<Rightarrow> int \<Rightarrow> (int \<times> bytes) option" where
  "strtol s base =
     (let s1 = skip_space s;
          (neg, s2) = (case s1 of c # r \<Rightarrow> if c = 45 then (True, r) else if c = 43 then (False, r) else (False, s1) | [] \<Rightarrow> (False, s1));
          (b, s3) = (if base = 0 then
                       (if hex_prefix s2 then (16, drop 2 s2)
                        else case s2 of c # r \<Rightarrow> if c = 48 then (8, r) else (10, s2) | [] \<Rightarrow> (10, s2))
                     else if base = 16 \<and> hex_prefix s2 then (base, drop 2 s2) else (base, s2))
      in map_option (\<lambda>(v, r). (if neg then - v else v, r)) (strtol_loop b 0 s3))"

definition atol :: "bytes \<Rightarrow> int option" where
  "atol s = map_option fst (strtol s 10)"

definition atoi :: "bytes \<Rightarrow> int option" where
  "atoi s = map_option (\<lambda>(v, _). sint (of_int v :: 32 word)) (strtol s 10)"

subsection \<open>Sorting and searching\<close>

text \<open>Elements are the \<open>size\<close>-byte cells of the array; the inner loop moves element \<open>j\<close> down by swaps.\<close>

fun sift_down :: "('a \<Rightarrow> 'a \<Rightarrow> int) \<Rightarrow> 'a list \<Rightarrow> nat \<Rightarrow> 'a list" where
  "sift_down cmp b 0 = b"
| "sift_down cmp b (Suc j) =
     (if cmp (b ! j) (b ! Suc j) \<le> 0 then b else sift_down cmp (b[j := b ! Suc j, Suc j := b ! j]) j)"

definition qsort :: "('a \<Rightarrow> 'a \<Rightarrow> int) \<Rightarrow> 'a list \<Rightarrow> 'a list" where
  "qsort cmp b = fold (\<lambda>i b. sift_down cmp b i) [1..<length b] b"

function bsearch_loop :: "('k \<Rightarrow> 'a \<Rightarrow> int) \<Rightarrow> 'k \<Rightarrow> 'a list \<Rightarrow> nat \<Rightarrow> nat \<Rightarrow> nat option" where
  "bsearch_loop cmp key b lo hi =
     (if lo < hi then
        (let mid = lo + (hi - lo) div 2; r = cmp key (b ! mid) in
         if r = 0 then Some mid else if r < 0 then bsearch_loop cmp key b lo mid else bsearch_loop cmp key b (mid + 1) hi)
      else None)"
  by pat_completeness auto
termination
  by (relation "measure (\<lambda>(cmp, key, b, lo, hi). hi - lo)") auto

declare bsearch_loop.simps [simp del]

definition bsearch :: "('k \<Rightarrow> 'a \<Rightarrow> int) \<Rightarrow> 'k \<Rightarrow> 'a list \<Rightarrow> nat option" where
  "bsearch cmp key b = bsearch_loop cmp key b 0 (length b)"

text \<open>The buffer state after the text \<open>t\<close>.\<close>

definition holds :: "nat \<Rightarrow> bytes \<Rightarrow> bytes \<times> nat \<Rightarrow> bool" where
  "holds n t st \<longleftrightarrow> st = (take (n - 1) t, length t)"

text \<open>The number a list of digits stands for, the last one first.\<close>

fun digits_value :: "bytes \<Rightarrow> nat" where
  "digits_value [] = 0"
| "digits_value (c # r) = (unat c - 48) + 10 * digits_value r"

section \<open>Lemmas\<close>

subsection \<open>The buffer\<close>

lemma holds_emit: "holds n t st \<Longrightarrow> holds n (t @ [c]) (emit n c st)"
  by (auto simp: holds_def emit_def)

lemma holds_fold: "holds n t st \<Longrightarrow> holds n (fold (\<lambda>c t. t @ [c]) cs t) (fold (emit n) cs st)"
  by (induction cs arbitrary: t st) (simp_all add: holds_emit)

lemma holds_padded:
  "holds n t st \<Longrightarrow> holds n (emit_padded (\<lambda>c t. t @ [c]) l str p w t) (emit_padded (emit n) l str p w st)"
  by (simp add: emit_padded_def Let_def holds_fold del: fold_replicate)

lemma spec_flags_length: "spec_flags r l z = (l', z', r') \<Longrightarrow> length r' \<le> length r"
  by (induction r l z rule: spec_flags.induct) (auto split: if_splits)

lemma spec_width_length: "spec_width r w = Some (w', r') \<Longrightarrow> length r' \<le> length r"
  by (induction r w rule: spec_width.induct) (auto split: if_splits simp: Let_def)

lemma parse_spec_length: "parse_spec r = Some (sp, k, r') \<Longrightarrow> length r' < length r"
  by (auto simp: parse_spec_def Let_def split: prod.splits option.splits list.splits if_splits
    dest!: spec_flags_length spec_width_length)

lemma fmt_loop_holds:
  assumes "holds n t st"
  shows "rel_option (holds n) (fmt_loop (\<lambda>c t. t @ [c]) fmt args t) (fmt_loop (emit n) fmt args st)"
  using assms
proof (induction "length fmt" arbitrary: fmt args t st rule: less_induct)
  case less
  show ?case
  proof (cases fmt)
    case (Cons c r)
    have next1: "rel_option (holds n) (fmt_loop (\<lambda>c t. t @ [c]) r' as u) (fmt_loop (emit n) r' as v)"
      if "parse_spec r = Some (sp, k, r')" "holds n u v" for sp k r' as u v
      using less(1) [OF _ that(2), of r'] parse_spec_length [OF that(1)] Cons by simp
    have "rel_option (holds n) (fmt_loop (\<lambda>c t. t @ [c]) r args (t @ [c])) (fmt_loop (emit n) r args (emit n c st))"
      using less(1) [OF _ holds_emit [OF less(2)], of r] Cons by simp
    moreover have "holds n (t @ [37, k]) (emit n k (emit n 37 st))" for k using holds_emit [OF holds_emit [OF less(2)], of 37 k] by simp
    ultimately show ?thesis unfolding Cons fmt_loop.simps(2)
      using less(2) by (auto split: option.splits prod.splits simp: holds_emit holds_padded intro!: next1)
  qed (simp add: less)
qed

subsection \<open>Decimal digits\<close>

lemma dec_digits_value: "digits_value (dec_digits v) = unat v \<and> (\<forall>c \<in> set (dec_digits v). 48 \<le> c \<and> c \<le> 57)"
proof (induction v rule: dec_digits.induct)
  case (1 v)
  show ?case
  proof (cases "v = 0")
    case True
    then show ?thesis by (simp add: dec_digits.simps [of 0])
  next
    case False
    have m: "unat (v mod 10) = unat v mod 10" by (simp add: unat_mod)
    then have "unat (48 + v mod 10) = 48 + unat v mod 10" by (simp add: unat_word_ariths)
    then have u: "unat (ucast (48 + v mod 10) :: u8) = 48 + unat v mod 10" by (simp add: unsigned_ucast_eq take_bit_eq_mod)
    then have "48 \<le> (ucast (48 + v mod 10) :: u8)" "(ucast (48 + v mod 10) :: u8) \<le> 57" by (simp_all add: word_le_nat_alt)
    moreover have "unat (v div 10) = unat v div 10" by (simp add: unat_div)
    ultimately show ?thesis using 1 [OF False] False u by (simp add: dec_digits.simps [of v])
  qed
qed

lemma strtol_digits:
  assumes "\<forall>c \<in> set ds. 48 \<le> c \<and> c \<le> 57" "v * 10 ^ length ds + digits_value (rev ds) < 2 ^ 63" "rest = [] \<or> char_digit (hd rest) = None"
  shows "strtol_loop 10 (int v) (ds @ rest) = Some (int (v * 10 ^ length ds + digits_value (rev ds)), rest)"
  using assms(1,2)
proof (induction ds arbitrary: v)
  case Nil
  then show ?case using assms(3) by (cases rest) simp_all
next
  case (Cons c ds)
  have app: "digits_value (xs @ ys) = digits_value xs + 10 ^ length xs * digits_value ys" for xs ys
    by (induction xs) (simp_all add: algebra_simps)
  define k where "k = unat c - 48"
  have p: "48 \<le> c" "c \<le> 57" using Cons.prems(1) by simp_all
  then have u: "48 \<le> unat c" "unat c \<le> 57" by (simp_all add: word_le_nat_alt)
  have "uint c - 48 = int k" using u unfolding k_def uint_nat by linarith
  then have k: "unat c - 48 = k" "char_digit c = Some (int k)" "k < 10" using p u by (simp_all add: char_digit_def k_def)
  have e: "(v * 10 + k) * 10 ^ length ds + digits_value (rev ds) = v * 10 ^ length (c # ds) + digits_value (rev (c # ds))"
    by (simp add: app k(1) algebra_simps)
  then have l: "(v * 10 + k) * 10 ^ length ds + digits_value (rev ds) < 2 ^ 63" using Cons.prems(2) by (simp only:)
  have "v * 10 + k \<le> (v * 10 + k) * 10 ^ length ds" by simp
  then have "v * 10 + k < 2 ^ 63" using l by (rule order_le_less_trans [OF _ order_le_less_trans [OF le_add1]])
  then have "int (v * 10 + k) < int (2 ^ 63)" by (simp only: of_nat_less_iff)
  then have b: "int (v * 10 + k) < 2 ^ 63" by simp
  have "strtol_loop 10 (int v) ((c # ds) @ rest) = strtol_loop 10 (int (v * 10 + k)) (ds @ rest)" using k b by (simp add: Let_def)
  also have "\<dots> = Some (int ((v * 10 + k) * 10 ^ length ds + digits_value (rev ds)), rest)" using Cons.prems(1) by (intro Cons.IH l) simp
  finally show ?case by (simp only: e)
qed

lemma dec_digits_Nil: "dec_digits v = [] \<longleftrightarrow> v = 0"
  by (simp add: dec_digits.simps [of v])

lemma strtol_unsigned:
  assumes "unat v < 2 ^ 63"
  shows "strtol_loop 10 0 (fmt_unsigned v) = Some (int (unat v), [])" "\<exists>c r. fmt_unsigned v = c # r \<and> 48 \<le> c \<and> c \<le> 57"
proof -
  have d: "\<forall>c \<in> set (fmt_unsigned v). 48 \<le> c \<and> c \<le> 57" "digits_value (rev (fmt_unsigned v)) = unat v" "fmt_unsigned v \<noteq> []"
    using dec_digits_value [of v] by (auto simp: fmt_unsigned_def dec_digits_Nil)
  then show "\<exists>c r. fmt_unsigned v = c # r \<and> 48 \<le> c \<and> c \<le> 57" by (cases "fmt_unsigned v") auto
  show "strtol_loop 10 0 (fmt_unsigned v) = Some (int (unat v), [])"
    using strtol_digits [of "fmt_unsigned v" 0 "[]"] d assms by simp
qed

lemma not_space: "48 \<le> c \<Longrightarrow> \<not> isspace (uint (c :: u8))"
proof -
  assume "48 \<le> c"
  then have "48 \<le> uint c" by (simp add: word_le_def)
  then show ?thesis by (simp add: isspace_def)
qed

lemma strtol_decimal:
  assumes "unat v < 2 ^ 63"
  shows "strtol (fmt_unsigned v) 10 = Some (int (unat v), [])" "strtol (45 # fmt_unsigned v) 10 = Some (- int (unat v), [])"
proof -
  obtain c r where f: "fmt_unsigned v = c # r" "48 \<le> c" "c \<le> 57" using strtol_unsigned(2) [OF assms] by blast
  have n: "c \<noteq> 45" "c \<noteq> 43" using f(2) by (auto simp: word_le_nat_alt)
  show "strtol (fmt_unsigned v) 10 = Some (int (unat v), [])"
    using strtol_unsigned(1) [OF assms] f n not_space [OF f(2)] by (simp add: strtol_def)
  show "strtol (45 # fmt_unsigned v) 10 = Some (- int (unat v), [])"
    using strtol_unsigned(1) [OF assms] by (simp add: strtol_def isspace_def)
qed

lemma fmt_signed_of_int:
  assumes "- (2 ^ 63) < i" "i < 2 ^ 63"
  shows "fmt_signed (of_int i) = (if i < 0 then 45 # fmt_unsigned (of_int (- i)) else fmt_unsigned (of_int i))"
proof -
  have "sint (of_int i :: u64) = i" using assms by (simp add: signed_of_int signed_take_bit_int_eq_self)
  then show ?thesis by (simp add: fmt_signed_def fmt_unsigned_def Let_def)
qed

subsection \<open>Sorting\<close>

lemma sift_down_inserts:
  assumes "\<And>x y. cmp x y \<le> 0 \<longleftrightarrow> f x \<le> (f y :: 'k :: linorder)" "sorted (map f xs)"
  shows "\<exists>as bs. xs = as @ bs \<and> sift_down cmp (xs @ x # ys) (length xs) = as @ x # bs @ ys \<and> (\<forall>a \<in> set as. f a \<le> f x) \<and> (\<forall>b \<in> set bs. f x < f b)"
  using assms(2)
proof (induction xs arbitrary: ys rule: rev_induct)
  case (snoc z xs)
  have s: "sift_down cmp ((xs @ [z]) @ x # ys) (length (xs @ [z]))
      = (if f z \<le> f x then xs @ z # x # ys else sift_down cmp (xs @ x # z # ys) (length xs))"
    by (simp add: assms(1) nth_append list_update_append)
  show ?case
  proof (cases "f z \<le> f x")
    case True
    then have "\<forall>a \<in> set (xs @ [z]). f a \<le> f x" using snoc.prems by (auto simp: sorted_append dest: order_trans)
    with True s show ?thesis by (intro exI [of _ "xs @ [z]"] exI [of _ "[]"]) simp
  next
    case False
    have "sorted (map f xs)" using snoc.prems by (simp add: sorted_append)
    from snoc.IH [OF this, of "z # ys"] obtain as bs where "xs = as @ bs" "sift_down cmp (xs @ x # z # ys) (length xs) = as @ x # bs @ z # ys"
      "\<forall>a \<in> set as. f a \<le> f x" "\<forall>b \<in> set bs. f x < f b" by blast
    with False s show ?thesis by (intro exI [of _ as] exI [of _ "bs @ [z]"]) auto
  qed
qed simp

lemma sort_key_insert_after:
  assumes "sort_key f xs = as @ bs" "\<forall>a \<in> set as. f a \<le> f x" "\<forall>b \<in> set bs. f x < (f b :: 'k :: linorder)"
  shows "sort_key f (xs @ [x]) = as @ x # bs"
proof (rule properties_for_sort_key)
  show "mset (as @ x # bs) = mset (xs @ [x])" using arg_cong [OF assms(1), of mset] by simp
  have "sorted (map f (as @ bs))" using sorted_sort_key [of f xs] assms(1) by simp
  then show "sorted (map f (as @ x # bs))" using assms(2,3) by (force simp: sorted_append)
  show "filter (\<lambda>y. f k = f y) (as @ x # bs) = filter (\<lambda>y. f k = f y) (xs @ [x])" for k
  proof -
    have "filter (\<lambda>y. f y = f k) (as @ bs) = filter (\<lambda>y. f y = f k) xs" unfolding assms(1) [symmetric] by (rule sort_key_stable)
    moreover have "f k = f x \<Longrightarrow> filter (\<lambda>y. f k = f y) bs = []" using assms(3) by (auto simp: filter_empty_conv)
    ultimately show ?thesis by (auto simp: eq_commute [of "f k"])
  qed
qed

lemma qsort_prefix:
  assumes "\<And>x y. cmp x y \<le> 0 \<longleftrightarrow> f x \<le> (f y :: 'k :: linorder)" "n < length b"
  shows "fold (\<lambda>i b. sift_down cmp b i) [1..<Suc n] b = sort_key f (take (Suc n) b) @ drop (Suc n) b"
  using assms(2)
proof (induction n)
  case 0
  then show ?case by (cases b) simp_all
next
  case (Suc n)
  let ?p = "sort_key f (take (Suc n) b)" let ?x = "b ! Suc n"
  have l: "length ?p = Suc n" using Suc.prems by simp
  have "fold (\<lambda>i b. sift_down cmp b i) [1..<Suc (Suc n)] b = sift_down cmp (?p @ ?x # drop (Suc (Suc n)) b) (length ?p)"
    using Suc l by (simp add: Cons_nth_drop_Suc)
  moreover obtain as bs where "?p = as @ bs" "sift_down cmp (?p @ ?x # drop (Suc (Suc n)) b) (length ?p) = as @ ?x # bs @ drop (Suc (Suc n)) b"
    "\<forall>a \<in> set as. f a \<le> f ?x" "\<forall>b \<in> set bs. f ?x < f b" 
    using sift_down_inserts [where xs = ?p and x = ?x and ys = "drop (Suc (Suc n)) b" and f = f, OF assms(1) sorted_sort_key] by blast
  moreover have "take (Suc (Suc n)) b = take (Suc n) b @ [?x]" using Suc.prems by (simp add: take_Suc_conv_app_nth)
  ultimately show ?case using sort_key_insert_after [of f "take (Suc n) b" as bs ?x] by simp
qed

subsection \<open>Searching\<close>

lemma bsearch_loop_sound: "bsearch_loop cmp key b lo hi = Some i \<Longrightarrow> lo \<le> i \<and> i < hi \<and> cmp key (b ! i) = 0"
proof (induction cmp key b lo hi rule: bsearch_loop.induct)
  case (1 cmp key b lo hi)
  let ?m = "lo + (hi - lo) div 2"
  show ?case
  proof (cases "lo < hi")
    case True
    then have m: "lo \<le> ?m" "?m < hi" by auto
    show ?thesis using 1(1) [OF True refl refl] 1(2) [OF True refl refl] 1(3) True m
      by (auto simp: bsearch_loop.simps [of cmp key b lo hi] Let_def split: if_splits)
  qed (use 1(3) in \<open>simp add: bsearch_loop.simps [of cmp key b lo hi]\<close>)
qed

lemma bsearch_loop_complete:
  assumes "\<And>i j. i < j \<Longrightarrow> j < length b \<Longrightarrow> cmp key (b ! i) < 0 \<Longrightarrow> cmp key (b ! j) < 0"
    "\<And>i j. i < j \<Longrightarrow> j < length b \<Longrightarrow> cmp key (b ! j) > 0 \<Longrightarrow> cmp key (b ! i) > 0"
    "lo \<le> i" "i < hi" "hi \<le> length b" "cmp key (b ! i) = 0"
  shows "bsearch_loop cmp key b lo hi \<noteq> None"
  using assms
proof (induction cmp key b lo hi rule: bsearch_loop.induct)
  case (1 cmp key b lo hi)
  let ?m = "lo + (hi - lo) div 2"
  have t: "lo < hi" using 1(5,6) by simp
  have m: "?m < length b" using t 1(7) by auto
  show ?case
  proof (cases "cmp key (b ! ?m) = 0")
    case True
    then show ?thesis using t by (simp add: bsearch_loop.simps [of cmp key b lo hi] Let_def)
  next
    case n: False
    show ?thesis
    proof (cases "cmp key (b ! ?m) < 0")
      case True
      then have "i < ?m" using 1(3) [of ?m i] 1(6,7,8) n by (cases i ?m rule: linorder_cases) auto
      then show ?thesis using 1(1) [OF t refl refl n True 1(3,4,5)] m 1(8) t n True
        by (simp add: bsearch_loop.simps [of cmp key b lo hi] Let_def)
    next
      case False
      then have "?m < i" using 1(4) [of i ?m] 1(8) n m by (cases i ?m rule: linorder_cases) auto
      then show ?thesis using 1(2) [OF t refl refl n False 1(3,4)] 1(6,7,8) t n False
        by (simp add: bsearch_loop.simps [of cmp key b lo hi] Let_def)
    qed
  qed
qed

lemma vsnprintf_eq:
  "vsnprintf n fmt args = map_option (\<lambda>t. (take (n - 1) t @ (if n = 0 then [] else [0]), sint (of_nat (length t) :: 32 word))) (render fmt args)"
proof -
  have "holds n [] ([], 0)" by (simp add: holds_def)
  from fmt_loop_holds [OF this, of fmt args] show ?thesis
    by (cases rule: option.rel_cases) (auto simp: vsnprintf_def render_def holds_def)
qed

lemma render_ld:
  assumes "v \<noteq> 2 ^ 63"
  shows "render [37, 108, 100] [VLong v] = Some (fmt_signed v)"
proof -
  have f: "fold (\<lambda>c t. t @ [c]) cs t = t @ cs" for cs t :: bytes by (induction cs arbitrary: t) simp_all
  show ?thesis using assms by (simp add: render_def fmt_loop.simps(2) parse_spec_def convert_def emit_padded_def Let_def f)
qed

subsection \<open>Properties\<close>

text \<open>
  C20. Whatever the format and the arguments, \<open>vsnprintf\<close> leaves in a buffer of \<open>n\<close> bytes the first \<open>n - 1\<close>
  bytes of the formatted text and a NUL, never more than \<open>n\<close> bytes, and returns the length of the whole text
  (as an \<open>int\<close>).
\<close>
theorem vsnprintf_truncates:
  "vsnprintf n fmt args = map_option (\<lambda>t. (take (n - 1) t @ (if n = 0 then [] else [0]), sint (of_nat (length t) :: 32 word))) (render fmt args)
   \<and> pred_option (\<lambda>(b, r). length b \<le> n) (vsnprintf n fmt args)"
  by (auto simp: vsnprintf_eq option.pred_set)

text \<open>
  C25. Every \<open>long\<close> but the smallest that \<open>vsnprintf\<close> prints with \<open>%ld\<close> is read back by \<open>strtol\<close> to the same value, up
  to the end of the text.
\<close>
theorem print_read:
  assumes "- (2 ^ 63) < i" "i < 2 ^ 63"
  shows "\<exists>t r. vsnprintf (length t + 1) [37, 108, 100] [VLong (of_int i)] = Some (t @ [0], r) \<and> strtol t 10 = Some (i, [])"
proof -
  have u: "unat (of_int j :: u64) = nat j" if "0 \<le> j" "j < 2 ^ 63" for j :: int
    using that by (simp add: unat_eq_nat_uint uint_word_of_int)
  have "strtol (fmt_signed (of_int i)) 10 = Some (i, [])"
  proof (cases "i < 0")
    case True
    then have "unat (of_int (- i) :: u64) = nat (- i)" using assms by (intro u) simp_all
    then show ?thesis using strtol_decimal(2) [of "of_int (- i)"] True assms by (simp add: fmt_signed_of_int nat_less_iff)
  next
    case False
    then have "unat (of_int i :: u64) = nat i" using assms by (intro u) simp_all
    then show ?thesis using strtol_decimal(1) [of "of_int i"] False assms by (simp add: fmt_signed_of_int nat_less_iff)
  qed
  moreover have "(of_int i :: u64) \<noteq> 2 ^ 63"
  proof
    assume "(of_int i :: u64) = 2 ^ 63"
    then have "sint (of_int i :: u64) = sint (2 ^ 63 :: u64)" by simp
    moreover have "sint (of_int i :: u64) = i" using assms by (simp add: signed_of_int signed_take_bit_int_eq_self)
    ultimately show False using assms by simp
  qed
  ultimately show ?thesis by (intro exI [of _ "fmt_signed (of_int i)"] exI conjI) (simp_all add: vsnprintf_eq render_ld)
qed

theorem print_read_witness:
  "\<exists>t r. vsnprintf (length t + 1) [37, 108, 100] [VLong (of_int (- 1234))] = Some (t @ [0], r) \<and> strtol t 10 = Some (- 1234, [])"
  by (rule print_read) simp_all

text \<open>C27. \<open>qsort\<close> is the stable sort, for every comparison that orders the elements by some key.\<close>
theorem qsort_stable_sort:
  assumes "\<And>x y. cmp x y \<le> 0 \<longleftrightarrow> f x \<le> (f y :: 'k :: linorder)"
  shows "qsort cmp b = sort_key f b"
proof (cases b)
  case (Cons x r)
  then have "fold (\<lambda>i b. sift_down cmp b i) [1..<Suc (length r)] b = sort_key f (take (Suc (length r)) b) @ drop (Suc (length r)) b"
    by (intro qsort_prefix assms) simp
  with Cons show ?thesis by (simp add: qsort_def)
qed (simp add: qsort_def)

theorem qsort_stable_sort_witness:
  "qsort (\<lambda>x y. fst x - fst y) [(2, 0), (1, 1), (2, 2), (1, 3 :: nat)] = sort_key fst [(2 :: int, 0), (1, 1), (2, 2), (1, 3)]"
  by (rule qsort_stable_sort) simp

text \<open>
  On an array ordered by the comparison, \<open>bsearch\<close> gives an index whose element compares equal to the key,
  and NULL exactly when there is none.
\<close>
theorem bsearch_correct:
  assumes "\<And>i j. i < j \<Longrightarrow> j < length b \<Longrightarrow> cmp key (b ! i) < 0 \<Longrightarrow> cmp key (b ! j) < 0"
    "\<And>i j. i < j \<Longrightarrow> j < length b \<Longrightarrow> cmp key (b ! j) > 0 \<Longrightarrow> cmp key (b ! i) > 0"
  shows "case bsearch cmp key b of Some i \<Rightarrow> i < length b \<and> cmp key (b ! i) = 0 | None \<Rightarrow> \<forall>x \<in> set b. cmp key x \<noteq> 0"
proof (cases "bsearch cmp key b")
  case None
  have "cmp key (b ! i) \<noteq> 0" if "i < length b" for i
    using bsearch_loop_complete [where cmp = cmp and key = key and b = b and lo = 0 and i = i and hi = "length b", OF assms] None that
    by (auto simp: bsearch_def)
  then show ?thesis using None by (auto simp: in_set_conv_nth)
next
  case (Some i)
  then show ?thesis using bsearch_loop_sound [of cmp key b 0 "length b" i] by (simp add: bsearch_def)
qed

theorem bsearch_correct_witness:
  "case bsearch (\<lambda>k x. k - x) 5 [1, 3, 5 :: int] of Some i \<Rightarrow> i < length [1, 3, 5 :: int] \<and> 5 - [1, 3, 5] ! i = (0 :: int) | None \<Rightarrow> \<forall>x \<in> set [1, 3, 5 :: int]. 5 - x \<noteq> 0"
  by (rule bsearch_correct) (auto simp: nth_Cons split: nat.splits)

text \<open>Zero padding of a negative number: \<open>%05d\<close> of \<open>-42\<close> is printed as \<open>00-42\<close>, the zeros in front of the sign.\<close>
theorem zero_pad_before_sign:
  "vsnprintf 16 [37, 48, 53, 100] [VInt (- 42)] = Some ([48, 48, 45, 52, 50, 0], 5)"
proof -
  have d: "dec_digits 42 = [50, 52]" by (simp add: dec_digits.simps)
  have v: "fmt_signed (scast (- 42 :: 32 word)) = [45, 52, 50]"
    using fmt_signed_of_int [of "- 42"] by (simp add: fmt_unsigned_def d)
  have p: "parse_spec [48, 53, 100] = Some (\<lparr>left_align = False, zero_pad = True, width = 5, is_long = False\<rparr>, 100, [])"
    by (simp add: parse_spec_def)
  have c: "convert \<lparr>left_align = False, zero_pad = True, width = 5, is_long = False\<rparr> 100 [VInt (- 42)] = Some (Some ([45, 52, 50], 48, 5, []))"
    unfolding convert_def Let_def by (simp only: v spec.simps va_arg.case list.case if_True if_False simp_thms) simp
  have "emit_padded (\<lambda>c t. t @ [c]) False [45, 52, 50] 48 5 [] = [48, 48, 45, 52, 50 :: u8]"
    by (simp add: emit_padded_def eval_nat_numeral)
  then have "render [37, 48, 53, 100] [VInt (- 42)] = Some [48, 48, 45, 52, 50]"
    unfolding render_def fmt_loop.simps(2) by (simp add: p c)
  then show ?thesis by (simp add: vsnprintf_eq)
qed

end
