(* ===== verification/Ldterm.thy ===== *)
theory Ldterm
  imports Message
begin

text \<open>
  The line discipline \<open>uts/os/io/ldterm.c\<close>, a module between the stream head and the terminal driver. Its
  queues are taken as wired: a module above, a module below, and each queue linked to its partner. What a
  put procedure passes up or down and the signals it sends are its outputs, in order; \<open>ok n\<close> tells
  whether the \<open>n\<close>-th call of \<open>allocb\<close> succeeds. \<open>None\<close> is a NULL message, or a write behind the end of a
  data block. The theorems: the line buffer is never overrun, whatever arrives; a line is delivered as
  it was edited, and the screen shows what the buffer holds; settings written are read back; the output
  block has exactly the size computed for it. One theorem shows the screen and the buffer going apart
  when the buffer is full.
\<close>

section \<open>Definitions\<close>

definition ICRNL :: u32 where [consts_def]: "ICRNL = 0x100"
definition INLCR :: u32 where [consts_def]: "INLCR = 0x40"
definition IGNCR :: u32 where [consts_def]: "IGNCR = 0x80"
definition BRKINT :: u32 where [consts_def]: "BRKINT = 2"
definition OPOST :: u32 where [consts_def]: "OPOST = 1"
definition ONLCR :: u32 where [consts_def]: "ONLCR = 4"
definition OCRNL :: u32 where [consts_def]: "OCRNL = 8"
definition CS8 :: u32 where [consts_def]: "CS8 = 0x30"
definition CREAD :: u32 where [consts_def]: "CREAD = 0x80"
definition CLOCAL :: u32 where [consts_def]: "CLOCAL = 0x800"
definition ISIG :: u32 where [consts_def]: "ISIG = 1"
definition ICANON :: u32 where [consts_def]: "ICANON = 2"
definition ECHO :: u32 where [consts_def]: "ECHO = 8"
definition ECHOE :: u32 where [consts_def]: "ECHOE = 0x10"
definition ECHOK :: u32 where [consts_def]: "ECHOK = 0x20"
definition NOFLSH :: u32 where [consts_def]: "NOFLSH = 0x80"
definition VINTR :: nat where [consts_def]: "VINTR = 0"
definition VQUIT :: nat where [consts_def]: "VQUIT = 1"
definition VERASE :: nat where [consts_def]: "VERASE = 2"
definition VKILL :: nat where [consts_def]: "VKILL = 3"
definition VEOF :: nat where [consts_def]: "VEOF = 4"
definition VEOL :: nat where [consts_def]: "VEOL = 5"
definition TCGETA :: u32 where [consts_def]: "TCGETA = 0x5401"
definition TCSETA :: u32 where [consts_def]: "TCSETA = 0x5402"
definition TCSETAW :: u32 where [consts_def]: "TCSETAW = 0x5403"
definition TCSETAF :: u32 where [consts_def]: "TCSETAF = 0x5404"
definition TCFLSH :: u32 where [consts_def]: "TCFLSH = 0x5405"
definition SIGINT :: nat where [consts_def]: "SIGINT = 2"
definition SIGQUIT :: nat where [consts_def]: "SIGQUIT = 3"
definition LDTERM_LINEBUF_MAX :: nat where "LDTERM_LINEBUF_MAX = 512"

record termios =
  c_iflag :: u32
  c_oflag :: u32
  c_cflag :: u32
  c_lflag :: u32
  c_cc :: bytes

text \<open>\<open>canon_buf\<close> is its first \<open>canon_len\<close> bytes; \<open>ld_nalloc\<close> counts the calls of \<open>allocb\<close>.\<close>

record ldterm =
  ld_termios :: termios
  canon_buf :: bytes
  ld_nalloc :: nat

datatype ld_out = LUp msg | LDown msg | LSig nat

type_synonym ld_step = "ldterm \<Rightarrow> ld_out list \<times> ldterm"

definition ld_skip :: ld_step where
  "ld_skip ld = ([], ld)"

definition ld_seq :: "ld_step \<Rightarrow> ld_step \<Rightarrow> ld_step" where
  "ld_seq f g ld = (case f ld of (o1, l1) \<Rightarrow> case g l1 of (o2, l2) \<Rightarrow> (o1 @ o2, l2))"

definition ldterm_set_default_termios :: termios where
  "ldterm_set_default_termios =
     \<lparr>c_iflag = BRKINT OR ICRNL, c_oflag = OPOST OR ONLCR, c_cflag = CS8 OR CREAD OR CLOCAL, c_lflag = ISIG,
      c_cc = [0x03, 0x1c, 0x7f, 0x15, 0x04, 0, 0, 0]\<rparr>"

definition ldterm_putdown_byte :: "(nat \<Rightarrow> bool) \<Rightarrow> u8 \<Rightarrow> ld_step" where
  "ldterm_putdown_byte ok b ld =
     (if ok (ld_nalloc ld) then [LDown [new_msg M_DATA [b]]] else [], ld\<lparr>ld_nalloc := ld_nalloc ld + 1\<rparr>)"

definition ldterm_echo :: "(nat \<Rightarrow> bool) \<Rightarrow> u8 \<Rightarrow> ld_step" where
  "ldterm_echo ok b ld =
     (if \<not> flag (c_lflag (ld_termios ld)) ECHO then ld_skip ld
      else ld_seq (ldterm_putdown_byte ok b)
        (if b = 10 \<and> flag (c_oflag (ld_termios ld)) ONLCR then ldterm_putdown_byte ok 13 else ld_skip) ld)"

definition ldterm_echo_erase :: "(nat \<Rightarrow> bool) \<Rightarrow> ld_step" where
  "ldterm_echo_erase ok ld =
     (if \<not> flag (c_lflag (ld_termios ld)) ECHO then ld_skip ld
      else if flag (c_lflag (ld_termios ld)) ECHOE then
        ld_seq (ldterm_putdown_byte ok 8) (ld_seq (ldterm_putdown_byte ok 32) (ldterm_putdown_byte ok 8)) ld
      else ldterm_putdown_byte ok 8 ld)"

definition ldterm_deliver_line :: "(nat \<Rightarrow> bool) \<Rightarrow> bool \<Rightarrow> ld_step" where
  "ldterm_deliver_line ok append_terminator ld =
     (let dat = canon_buf ld @ (if append_terminator then [10] else []) in
      (if ok (ld_nalloc ld) then [LUp [(new_msg M_DATA dat)\<lparr>p_tail := (if dat = [] then 1 else 0)\<rparr>]] else [],
       ld\<lparr>canon_buf := [], ld_nalloc := ld_nalloc ld + 1\<rparr>))"

text \<open>The call of \<open>tty_signal_fg_pgrp\<close> for the terminal of the stream.\<close>

definition ldterm_signal_reader :: "nat \<Rightarrow> ld_step" where
  "ldterm_signal_reader sig ld = ([LSig sig], ld)"

text \<open>The mapping of CR and NL on input; \<open>None\<close> is a byte left out.\<close>

definition ldterm_map_input :: "u32 \<Rightarrow> u8 \<Rightarrow> u8 option" where
  "ldterm_map_input iflag b =
     (if b = 13 then (if flag iflag IGNCR then None else if flag iflag ICRNL then Some 10 else Some b)
      else if b = 10 \<and> flag iflag INLCR then Some 13 else Some b)"

definition ldterm_erase :: "(nat \<Rightarrow> bool) \<Rightarrow> ld_step" where
  "ldterm_erase ok ld = ldterm_echo_erase ok (ld\<lparr>canon_buf := butlast (canon_buf ld)\<rparr>)"

primrec ldterm_kill :: "(nat \<Rightarrow> bool) \<Rightarrow> nat \<Rightarrow> ld_step" where
  "ldterm_kill ok 0 = ld_skip"
| "ldterm_kill ok (Suc n) = ld_seq (ldterm_erase ok) (ldterm_kill ok n)"

definition ldterm_append :: "u8 \<Rightarrow> ld_step" where
  "ldterm_append b ld =
     ([], if length (canon_buf ld) < LDTERM_LINEBUF_MAX then ld\<lparr>canon_buf := canon_buf ld @ [b]\<rparr> else ld)"

definition ldterm_signal :: "nat \<Rightarrow> ld_step" where
  "ldterm_signal sig ld =
     ldterm_signal_reader sig (if flag (c_lflag (ld_termios ld)) NOFLSH then ld else ld\<lparr>canon_buf := []\<rparr>)"

definition ldterm_raw :: "(nat \<Rightarrow> bool) \<Rightarrow> u8 \<Rightarrow> ld_step" where
  "ldterm_raw ok b = ld_seq (ldterm_echo ok b)
     (\<lambda>l. (if ok (ld_nalloc l) then [LUp [new_msg M_DATA [b]]] else [], l\<lparr>ld_nalloc := ld_nalloc l + 1\<rparr>))"

definition ldterm_canon :: "(nat \<Rightarrow> bool) \<Rightarrow> u8 \<Rightarrow> ld_step" where
  "ldterm_canon ok b ld =
     (let t = ld_termios ld; cc = c_cc t in
      if b = cc ! VERASE then (if canon_buf ld \<noteq> [] then ldterm_erase ok ld else ld_skip ld)
      else if b = cc ! VKILL then
        ld_seq (ldterm_kill ok (length (canon_buf ld))) (if flag (c_lflag t) ECHOK then ldterm_echo ok 10 else ld_skip) ld
      else if b = cc ! VEOF then ldterm_deliver_line ok False ld
      else if b = 10 \<or> cc ! VEOL \<noteq> 0 \<and> b = cc ! VEOL then
        ld_seq (ldterm_echo ok b) (ldterm_deliver_line ok True) ld
      else ld_seq (ldterm_echo ok b) (ldterm_append b) ld)"

definition ldterm_byte :: "(nat \<Rightarrow> bool) \<Rightarrow> u8 \<Rightarrow> ld_step" where
  "ldterm_byte ok b0 ld =
     (let t = ld_termios ld; lflag = c_lflag t in
      case ldterm_map_input (c_iflag t) b0 of
        None \<Rightarrow> ld_skip ld
      | Some b \<Rightarrow>
          if flag lflag ISIG \<and> b = c_cc t ! VINTR then ldterm_signal SIGINT ld
          else if flag lflag ISIG \<and> b = c_cc t ! VQUIT then ldterm_signal SIGQUIT ld
          else if \<not> flag lflag ICANON then ldterm_raw ok b ld
          else ldterm_canon ok b ld)"

primrec ldterm_rx :: "(nat \<Rightarrow> bool) \<Rightarrow> bytes \<Rightarrow> ld_step" where
  "ldterm_rx ok [] = ld_skip"
| "ldterm_rx ok (b # bs) = ld_seq (ldterm_byte ok b) (ldterm_rx ok bs)"

text \<open>Return code, outputs and module state. Of a chain only the first block is looked at.\<close>

definition ldterm_rq_putp :: "(nat \<Rightarrow> bool) \<Rightarrow> ldterm option \<Rightarrow> msg \<Rightarrow> (int \<times> ld_out list \<times> ldterm option) option" where
  "ldterm_rq_putp ok st mp =
     (case st of
        None \<Rightarrow> Some (0, [LUp mp], None)
      | Some ld \<Rightarrow>
          (case mp of [] \<Rightarrow> None
           | p # _ \<Rightarrow> if p_type p \<noteq> M_DATA then Some (0, [LUp mp], Some ld)
                     else (case ldterm_rx ok (p_body p) ld of (out, ld') \<Rightarrow> Some (0, out, Some ld'))))"

definition termios_bytes :: "termios \<Rightarrow> bytes" where
  "termios_bytes t = le32 (c_iflag t) @ le32 (c_oflag t) @ le32 (c_cflag t) @ le32 (c_lflag t) @ c_cc t"

definition termios_of :: "bytes \<Rightarrow> termios" where
  "termios_of bs = \<lparr>c_iflag = un_le32 (subbytes 0 4 bs), c_oflag = un_le32 (subbytes 4 4 bs),
     c_cflag = un_le32 (subbytes 8 4 bs), c_lflag = un_le32 (subbytes 12 4 bs), c_cc = subbytes 16 8 bs\<rparr>"

text \<open>
  The reply is the message itself: count and error are stored at the offsets 4 and 8 of its first block,
  even when its data is shorter than an \<open>iocblk\<close>; what lies behind the data is not part of the message.
\<close>

definition ldterm_ioc_ack :: "(nat \<Rightarrow> bool) \<Rightarrow> piece \<Rightarrow> u32 \<Rightarrow> bytes \<Rightarrow> ldterm \<Rightarrow> (ld_out list \<times> ldterm) option" where
  "ldterm_ioc_ack ok p err dat ld =
     (if length (p_body p) + p_tail p < 12 then None
      else let body = take (length (p_body p)) (blit (p_body p @ replicate (p_tail p) 0) 4 (le32 (of_nat (length dat)) @ le32 err));
               q = p\<lparr>p_type := (if err \<noteq> 0 then M_IOCNAK else M_IOCACK), p_body := body\<rparr>
           in if dat = [] then Some ([LUp [q]], ld)
              else Some ([LUp (q # (if ok (ld_nalloc ld) then [new_msg M_DATA dat] else []))], ld\<lparr>ld_nalloc := ld_nalloc ld + 1\<rparr>))"

text \<open>The inner \<open>None\<close> is a command for the driver below.\<close>

definition ldterm_handle_ioctl :: "(nat \<Rightarrow> bool) \<Rightarrow> piece \<Rightarrow> msg \<Rightarrow> ldterm \<Rightarrow> (ld_out list \<times> ldterm) option option" where
  "ldterm_handle_ioctl ok p rest ld =
     (if length (p_body p) < 16 then map_option Some (ldterm_ioc_ack ok p (-1) [] ld)
      else let cmd = un_le32 (take 4 (p_body p)) in
        if cmd = TCGETA then map_option Some (ldterm_ioc_ack ok p 0 (termios_bytes (ld_termios ld)) ld)
        else if cmd = TCSETA \<or> cmd = TCSETAW \<or> cmd = TCSETAF then
          (case rest of
             c # _ \<Rightarrow> if length (p_body c) \<ge> 24
                      then map_option Some (ldterm_ioc_ack ok p 0 [] (ld\<lparr>ld_termios := termios_of (p_body c)\<rparr>))
                      else map_option Some (ldterm_ioc_ack ok p (-1) [] ld)
           | [] \<Rightarrow> map_option Some (ldterm_ioc_ack ok p (-1) [] ld))
        else if cmd = TCFLSH then map_option Some (ldterm_ioc_ack ok p 0 [] (ld\<lparr>canon_buf := []\<rparr>))
        else Some None)"

text \<open>Output processing: the size asked of \<open>allocb\<close> and the bytes stored.\<close>

primrec opost_need :: "u32 \<Rightarrow> bytes \<Rightarrow> nat" where
  "opost_need oflag [] = 0"
| "opost_need oflag (b # bs) = (if b = 10 \<and> flag oflag ONLCR then 2 else 1) + opost_need oflag bs"

primrec opost :: "u32 \<Rightarrow> bytes \<Rightarrow> bytes" where
  "opost oflag [] = []"
| "opost oflag (b # bs) =
     (if b = 10 \<and> flag oflag ONLCR then [13, 10] else if b = 13 \<and> flag oflag OCRNL then [10] else [b]) @ opost oflag bs"

text \<open>A store behind the block asked for is \<open>None\<close>.\<close>

definition ldterm_output :: "(nat \<Rightarrow> bool) \<Rightarrow> piece \<Rightarrow> ldterm \<Rightarrow> (ld_out list \<times> ldterm) option" where
  "ldterm_output ok p ld =
     (let oflag = c_oflag (ld_termios ld); need = opost_need oflag (p_body p);
          size = (if need = 0 then 1 else need); dat = opost oflag (p_body p); ld1 = ld\<lparr>ld_nalloc := ld_nalloc ld + 1\<rparr> in
      if \<not> ok (ld_nalloc ld) then Some ([], ld1)
      else if size < length dat then None
      else Some ([LDown [(new_msg M_DATA dat)\<lparr>p_tail := size - length dat\<rparr>]], ld1))"

definition ldterm_wq_putp :: "(nat \<Rightarrow> bool) \<Rightarrow> ldterm option \<Rightarrow> msg \<Rightarrow> (int \<times> ld_out list \<times> ldterm option) option" where
  "ldterm_wq_putp ok st mp =
     (case (st, mp) of
        (None, _) \<Rightarrow> Some (0, [LDown mp], None)
      | (Some ld, []) \<Rightarrow> None
      | (Some ld, p # rest) \<Rightarrow>
          if p_type p = M_IOCTL then
            (case ldterm_handle_ioctl ok p rest ld of
               None \<Rightarrow> None
             | Some None \<Rightarrow> Some (0, [LDown mp], Some ld)
             | Some (Some (out, ld')) \<Rightarrow> Some (0, out, Some ld'))
          else if p_type p \<noteq> M_DATA \<or> \<not> flag (c_oflag (ld_termios ld)) OPOST then Some (0, [LDown mp], Some ld)
          else map_option (\<lambda>(out, ld'). (0, out, Some ld')) (ldterm_output ok p ld))"

text \<open>\<open>st_ok\<close>: the allocation of the module state.\<close>

definition ldterm_qopen :: "bool \<Rightarrow> int \<times> ldterm option" where
  "ldterm_qopen st_ok =
     (if \<not> st_ok then (-1, None)
      else (0, Some \<lparr>ld_termios = ldterm_set_default_termios, canon_buf = [], ld_nalloc = 0\<rparr>))"

definition ldterm_qclose :: "ldterm option \<Rightarrow> int \<times> ldterm option" where
  "ldterm_qclose st = (0, None)"

subsection \<open>Specification\<close>

text \<open>Every stream of messages in both directions, with all outputs so far.\<close>

inductive ld_reach :: "(nat \<Rightarrow> bool) \<Rightarrow> ld_out list \<Rightarrow> ldterm \<Rightarrow> bool" for ok where
  opened: "ldterm_qopen True = (0, Some ld) \<Longrightarrow> ld_reach ok [] ld"
| read: "ld_reach ok outs ld \<Longrightarrow> ldterm_rq_putp ok (Some ld) mp = Some (rc, out, Some ld') \<Longrightarrow> ld_reach ok (outs @ out) ld'"
| written: "ld_reach ok outs ld \<Longrightarrow> ldterm_wq_putp ok (Some ld) mp = Some (rc, out, Some ld') \<Longrightarrow> ld_reach ok (outs @ out) ld'"

definition ld_wf :: "ldterm \<Rightarrow> bool" where
  "ld_wf ld \<longleftrightarrow> length (canon_buf ld) \<le> LDTERM_LINEBUF_MAX \<and> length (c_cc (ld_termios ld)) = 8"

text \<open>Data passed up is one block of at most a line.\<close>

fun up_ok :: "ld_out \<Rightarrow> bool" where
  "up_ok (LUp (p # r)) \<longleftrightarrow> p_type p = M_DATA \<longrightarrow> r = [] \<and> length (p_body p) \<le> LDTERM_LINEBUF_MAX + 1"
| "up_ok _ \<longleftrightarrow> True"

text \<open>What a user types on a line, what it means, and the byte sent for it.\<close>

datatype key = Plain u8 | Erase | Kill

fun edit :: "key \<Rightarrow> bytes \<Rightarrow> bytes" where
  "edit (Plain c) ln = ln @ [c]"
| "edit Erase ln = butlast ln"
| "edit Kill ln = []"

fun key_byte :: "termios \<Rightarrow> key \<Rightarrow> u8" where
  "key_byte t (Plain c) = c"
| "key_byte t Erase = c_cc t ! VERASE"
| "key_byte t Kill = c_cc t ! VKILL"

text \<open>Canonical mode with control characters that are told apart, and the characters that are not special.\<close>

definition cooked :: "termios \<Rightarrow> bool" where
  "cooked t \<longleftrightarrow> flag (c_lflag t) ICANON \<and> \<not> flag (c_iflag t) INLCR \<and> length (c_cc t) = 8
     \<and> distinct (10 # 13 # take 5 (c_cc t))"

definition ordinary :: "termios \<Rightarrow> u8 \<Rightarrow> bool" where
  "ordinary t c \<longleftrightarrow> c \<notin> set (10 # 13 # take 5 (c_cc t)) \<and> c \<noteq> c_cc t ! VEOL"

fun typable :: "termios \<Rightarrow> key \<Rightarrow> bool" where
  "typable t (Plain c) \<longleftrightarrow> ordinary t c"
| "typable t _ \<longleftrightarrow> True"

text \<open>The line never outgrows the buffer while the keys are typed.\<close>

primrec line_fits :: "key list \<Rightarrow> bytes \<Rightarrow> bool" where
  "line_fits [] ln \<longleftrightarrow> True"
| "line_fits (k # ks) ln \<longleftrightarrow> length (edit k ln) \<le> LDTERM_LINEBUF_MAX \<and> line_fits ks (edit k ln)"

text \<open>
  The text of the row before the cursor, when outputs arrive at the screen: a backspace moves back over the last
  character, a newline and a carriage return leave an empty row before the cursor, and every other byte is shown in one cell.
\<close>

definition screen_byte :: "u8 \<Rightarrow> bytes \<Rightarrow> bytes" where
  "screen_byte b s = (if b = 8 then butlast s else if b = 10 \<or> b = 13 then [] else s @ [b])"

fun screen_out :: "ld_out \<Rightarrow> bytes \<Rightarrow> bytes" where
  "screen_out (LDown mp) s = fold screen_byte (msg_bytes mp) s"
| "screen_out _ s = s"

fun goes_down :: "ld_out \<Rightarrow> bool" where
  "goes_down (LDown _) = True"
| "goes_down _ = False"

text \<open>The invariant carried over one step.\<close>

definition keeps :: "ldterm \<Rightarrow> ld_out list \<times> ldterm \<Rightarrow> bool" where
  "keeps ld r \<longleftrightarrow> (ld_wf ld \<longrightarrow> ld_wf (snd r) \<and> list_all up_ok (fst r))"

section \<open>Lemmas\<close>

subsection \<open>The line buffer\<close>

lemma if_app: "(if c then f else g) x = (if c then f x else g x)"
  by simp

lemma keeps_seq: "keeps ld (f ld) \<Longrightarrow> (\<And>l. keeps l (g l)) \<Longrightarrow> keeps ld (ld_seq f g ld)"
  by (cases "f ld"; cases "g (snd (f ld))") (auto simp: keeps_def ld_seq_def dest!: spec [where x = "snd (f ld)"] meta_spec [where x = "snd (f ld)"])

lemma keeps_skip: "keeps ld (ld_skip ld)"
  by (simp add: keeps_def ld_skip_def)

lemma keeps_putdown: "keeps ld (ldterm_putdown_byte ok b ld)"
  by (simp add: keeps_def ldterm_putdown_byte_def ld_wf_def)

lemmas keeps_basic = keeps_skip keeps_putdown keeps_seq

lemma keeps_echo: "keeps ld (ldterm_echo ok b ld)"
  by (simp add: ldterm_echo_def keeps_basic if_app)

lemma keeps_echo_erase: "keeps ld (ldterm_echo_erase ok ld)"
  by (simp add: ldterm_echo_erase_def keeps_basic)

lemma keeps_from: "keeps ld' r \<Longrightarrow> (ld_wf ld \<Longrightarrow> ld_wf ld') \<Longrightarrow> keeps ld r"
  by (simp add: keeps_def)

lemma keeps_erase: "keeps ld (ldterm_erase ok ld)"
  unfolding ldterm_erase_def by (rule keeps_from [OF keeps_echo_erase]) (auto simp: ld_wf_def)

lemma keeps_kill: "keeps ld (ldterm_kill ok n ld)"
  by (induction n arbitrary: ld) (simp_all add: keeps_skip keeps_seq keeps_erase)

lemma keeps_signal: "keeps ld (ldterm_signal sig ld)"
  by (simp add: keeps_def ldterm_signal_def ldterm_signal_reader_def ld_wf_def)

lemma keeps_deliver: "keeps ld (ldterm_deliver_line ok a ld)"
  by (simp add: keeps_def ldterm_deliver_line_def ld_wf_def new_msg_def Let_def)

lemma keeps_append: "keeps ld (ldterm_append b ld)"
  by (simp add: keeps_def ldterm_append_def ld_wf_def)

lemma keeps_raw: "keeps ld (ldterm_raw ok b ld)"
  unfolding ldterm_raw_def
  by (rule keeps_seq [OF keeps_echo]) (simp add: keeps_def ld_wf_def new_msg_def LDTERM_LINEBUF_MAX_def)

lemma keeps_canon: "keeps ld (ldterm_canon ok b ld)"
  by (simp add: ldterm_canon_def Let_def if_app keeps_basic keeps_echo keeps_erase keeps_kill keeps_deliver keeps_append)

lemma keeps_byte: "keeps ld (ldterm_byte ok b ld)"
  by (simp add: ldterm_byte_def Let_def keeps_skip keeps_signal keeps_raw keeps_canon split: option.split)

lemma keeps_rx: "keeps ld (ldterm_rx ok bs ld)"
  by (induction bs arbitrary: ld) (simp_all add: keeps_skip keeps_seq keeps_byte)

lemma keeps_rq:
  assumes "ldterm_rq_putp ok (Some ld) mp = Some (rc, out, Some ld')"
  shows "keeps ld (out, ld')"
proof (cases mp)
  case (Cons p r)
  show ?thesis
  proof (cases "p_type p = M_DATA")
    case True
    then have "ldterm_rx ok (p_body p) ld = (out, ld')" using assms Cons by (auto simp: ldterm_rq_putp_def split: prod.splits)
    then show ?thesis using keeps_rx [of ld ok "p_body p"] by simp
  qed (use assms Cons in \<open>auto simp: ldterm_rq_putp_def keeps_def\<close>)
qed (use assms in \<open>simp add: ldterm_rq_putp_def\<close>)

lemma ack_keeps:
  assumes "ldterm_ioc_ack ok p err dat ld = Some r"
  shows "keeps ld r"
  using assms by (auto simp: ldterm_ioc_ack_def keeps_def ld_wf_def Let_def consts_def split: if_splits)

lemma ioctl_keeps:
  assumes "ldterm_handle_ioctl ok p rest ld = Some (Some r)"
  shows "keeps ld r"
proof -
  obtain err dat ld1 where a: "ldterm_ioc_ack ok p err dat ld1 = Some r" "ld_wf ld \<Longrightarrow> ld_wf ld1"
    using assms by (auto simp: ldterm_handle_ioctl_def Let_def ld_wf_def termios_of_def split: if_splits list.splits)
  show ?thesis by (rule keeps_from [OF ack_keeps [OF a(1)] a(2)])
qed

lemma keeps_wq:
  assumes "ldterm_wq_putp ok (Some ld) mp = Some (rc, out, Some ld')"
  shows "keeps ld (out, ld')"
proof (cases mp)
  case (Cons p r)
  show ?thesis
  proof (cases "p_type p = M_IOCTL")
    case True
    then show ?thesis using assms Cons ioctl_keeps [of ok p r ld "(out, ld')"]
      by (auto simp: ldterm_wq_putp_def keeps_def split: option.splits)
  qed (use assms Cons in \<open>auto simp: ldterm_wq_putp_def ldterm_output_def keeps_def ld_wf_def Let_def split: if_splits\<close>)
qed (use assms in \<open>simp add: ldterm_wq_putp_def\<close>)

subsection \<open>Line editing\<close>

lemma ld_same: "\<exists>n. ld = ld\<lparr>ld_nalloc := n\<rparr>"
  by (rule exI [of _ "ld_nalloc ld"]) simp

lemma echo_erase_shows:
  assumes "\<forall>k. ok k"
  shows "\<exists>out n. ldterm_echo_erase ok ld = (out, ld\<lparr>ld_nalloc := n\<rparr>) \<and> list_all goes_down out
    \<and> (flag (c_lflag (ld_termios ld)) ECHO \<longrightarrow> (\<forall>s. fold screen_out out s = butlast s))"
  by (auto simp: ldterm_echo_erase_def ld_skip_def ld_seq_def ldterm_putdown_byte_def assms msg_bytes_def new_msg_def screen_byte_def)
    (rule ld_same)+

lemma echo_shows:
  assumes "\<forall>k. ok k"
  shows "\<exists>out n. ldterm_echo ok b ld = (out, ld\<lparr>ld_nalloc := n\<rparr>) \<and> list_all goes_down out
    \<and> (flag (c_lflag (ld_termios ld)) ECHO \<and> b \<noteq> 8 \<and> b \<noteq> 10 \<and> b \<noteq> 13 \<longrightarrow> (\<forall>s. fold screen_out out s = s @ [b]))
    \<and> (b = 10 \<longrightarrow> fold screen_out out [] = [])"
  by (auto simp: ldterm_echo_def ld_skip_def ld_seq_def ldterm_putdown_byte_def assms msg_bytes_def new_msg_def screen_byte_def)
    (rule ld_same)+

lemma kill_shows:
  assumes "\<forall>k. ok k"
  shows "\<exists>out n. ldterm_kill ok (length (canon_buf ld)) ld = (out, ld\<lparr>canon_buf := [], ld_nalloc := n\<rparr>) \<and> list_all goes_down out
    \<and> (flag (c_lflag (ld_termios ld)) ECHO \<longrightarrow> fold screen_out out (canon_buf ld) = [])"
proof (induction "length (canon_buf ld)" arbitrary: ld)
  case 0
  then show ?case by (intro exI [of _ "[]"] exI [of _ "ld_nalloc ld"]) (simp add: ld_skip_def)
next
  case (Suc m)
  define ld1 where "ld1 = ld\<lparr>canon_buf := butlast (canon_buf ld)\<rparr>"
  obtain o1 n1 where 1: "ldterm_echo_erase ok ld1 = (o1, ld1\<lparr>ld_nalloc := n1\<rparr>)" "list_all goes_down o1"
    "flag (c_lflag (ld_termios ld1)) ECHO \<longrightarrow> (\<forall>s. fold screen_out o1 s = butlast s)"
    using echo_erase_shows [where ld = ld1, OF assms] by blast
  define ld2 where "ld2 = ld1\<lparr>ld_nalloc := n1\<rparr>"
  have m: "m = length (canon_buf ld2)" using Suc(2) by (simp add: ld2_def ld1_def)
  obtain o2 n2 where 2: "ldterm_kill ok (length (canon_buf ld2)) ld2 = (o2, ld2\<lparr>canon_buf := [], ld_nalloc := n2\<rparr>)" "list_all goes_down o2"
    "flag (c_lflag (ld_termios ld2)) ECHO \<longrightarrow> fold screen_out o2 (canon_buf ld2) = []"
    using Suc(1) [OF m] by blast
  have "ldterm_kill ok (Suc m) ld = (o1 @ o2, ld\<lparr>canon_buf := [], ld_nalloc := n2\<rparr>)"
    using 1(1) 2(1) m by (simp add: ld_seq_def ldterm_erase_def ld1_def ld2_def)
  then show ?case using 1(2,3) 2(2,3) Suc(2) by (intro exI [of _ "o1 @ o2"] exI [of _ n2]) (simp add: ld1_def ld2_def)
qed

lemma take5: "length cc = 8 \<Longrightarrow> take 5 cc = [cc ! 0, cc ! 1, cc ! 2, cc ! 3, cc ! 4]"
  by (rule nth_equalityI) (auto simp: less_Suc_eq numeral_eq_Suc)

lemma key_canon:
  assumes "cooked (ld_termios ld)" "typable (ld_termios ld) k"
  shows "ldterm_byte ok (key_byte (ld_termios ld) k) ld = ldterm_canon ok (key_byte (ld_termios ld) k) ld"
  using assms by (cases k) (auto simp: ldterm_byte_def ldterm_map_input_def cooked_def ordinary_def take5 Let_def
    VINTR_def VQUIT_def VERASE_def VKILL_def)

lemma enter_canon:
  assumes "cooked (ld_termios ld)"
  shows "ldterm_byte ok 10 ld = ld_seq (ldterm_echo ok 10) (ldterm_deliver_line ok True) ld"
  using assms by (auto simp: ldterm_byte_def ldterm_map_input_def ldterm_canon_def cooked_def take5 Let_def
    VINTR_def VQUIT_def VERASE_def VKILL_def VEOF_def)

lemma char_canon:
  assumes "cooked (ld_termios ld)" "ordinary (ld_termios ld) c"
  shows "ldterm_canon ok c ld = ld_seq (ldterm_echo ok c) (ldterm_append c) ld"
  using assms by (auto simp: ldterm_canon_def cooked_def ordinary_def take5 Let_def VERASE_def VKILL_def VEOF_def)

lemma key_edits:
  assumes "\<forall>k. ok k" "cooked (ld_termios ld)" "typable (ld_termios ld) k" "length (edit k (canon_buf ld)) \<le> LDTERM_LINEBUF_MAX"
  shows "\<exists>out n. ldterm_byte ok (key_byte (ld_termios ld) k) ld = (out, ld\<lparr>canon_buf := edit k (canon_buf ld), ld_nalloc := n\<rparr>)
    \<and> list_all goes_down out
    \<and> (flag (c_lflag (ld_termios ld)) ECHO \<and> k \<noteq> Plain 8
       \<longrightarrow> fold screen_out out (canon_buf ld) = edit k (canon_buf ld))"
proof (cases k)
  case (Plain c)
  obtain out n where e: "ldterm_echo ok c ld = (out, ld\<lparr>ld_nalloc := n\<rparr>)" "list_all goes_down out"
    "flag (c_lflag (ld_termios ld)) ECHO \<and> c \<noteq> 8 \<and> c \<noteq> 10 \<and> c \<noteq> 13 \<longrightarrow> (\<forall>s. fold screen_out out s = s @ [c])"
    using echo_shows [where b = c and ld = ld, OF assms(1)] by blast
  have "c \<noteq> 10 \<and> c \<noteq> 13" using assms(3) Plain by (simp add: ordinary_def)
  moreover have "ldterm_byte ok (key_byte (ld_termios ld) k) ld = (out, ld\<lparr>canon_buf := canon_buf ld @ [c], ld_nalloc := n\<rparr>)"
    unfolding key_canon [OF assms(2,3)] using char_canon [OF assms(2), of c ok] assms(3,4) e(1) Plain
    by (simp add: ld_seq_def ldterm_append_def)
  ultimately show ?thesis using e(2,3) Plain by (intro exI [of _ out] exI [of _ n]) simp
next
  case Erase
  define ld1 where "ld1 = ld\<lparr>canon_buf := butlast (canon_buf ld)\<rparr>"
  obtain out n where e: "ldterm_echo_erase ok ld1 = (out, ld1\<lparr>ld_nalloc := n\<rparr>)" "list_all goes_down out"
    "flag (c_lflag (ld_termios ld1)) ECHO \<longrightarrow> (\<forall>s. fold screen_out out s = butlast s)"
    using echo_erase_shows [where ld = ld1, OF assms(1)] by blast
  show ?thesis unfolding key_canon [OF assms(2,3)]
  proof (cases "canon_buf ld = []")
    case True
    then show "\<exists>out n. ldterm_canon ok (key_byte (ld_termios ld) k) ld = (out, ld\<lparr>canon_buf := edit k (canon_buf ld), ld_nalloc := n\<rparr>)
      \<and> list_all goes_down out \<and> (flag (c_lflag (ld_termios ld)) ECHO \<and> k \<noteq> Plain 8
       \<longrightarrow> fold screen_out out (canon_buf ld) = edit k (canon_buf ld))"
      using Erase by (intro exI [of _ "[]"] exI [of _ "ld_nalloc ld"]) (simp add: ldterm_canon_def ld_skip_def)
  next
    case False
    then show "\<exists>out n. ldterm_canon ok (key_byte (ld_termios ld) k) ld = (out, ld\<lparr>canon_buf := edit k (canon_buf ld), ld_nalloc := n\<rparr>)
      \<and> list_all goes_down out \<and> (flag (c_lflag (ld_termios ld)) ECHO \<and> k \<noteq> Plain 8
       \<longrightarrow> fold screen_out out (canon_buf ld) = edit k (canon_buf ld))"
      using e Erase by (intro exI [of _ out] exI [of _ n]) (simp add: ldterm_canon_def ldterm_erase_def ld1_def)
  qed
next
  case Kill
  obtain o1 n1 where 1: "ldterm_kill ok (length (canon_buf ld)) ld = (o1, ld\<lparr>canon_buf := [], ld_nalloc := n1\<rparr>)" "list_all goes_down o1"
    "flag (c_lflag (ld_termios ld)) ECHO \<longrightarrow> fold screen_out o1 (canon_buf ld) = []"
    using kill_shows [where ld = ld, OF assms(1)] by blast
  obtain o2 n2 where 2: "ldterm_echo ok 10 (ld\<lparr>canon_buf := [], ld_nalloc := n1\<rparr>) = (o2, ld\<lparr>canon_buf := [], ld_nalloc := n2\<rparr>)"
    "list_all goes_down o2" "fold screen_out o2 [] = []" using echo_shows [where b = 10 and ld = "ld\<lparr>canon_buf := [], ld_nalloc := n1\<rparr>", OF assms(1)] by auto
  have "c_cc (ld_termios ld) ! VKILL \<noteq> c_cc (ld_termios ld) ! VERASE"
    using assms(2) by (auto simp: cooked_def take5 VKILL_def VERASE_def)
  then have "ldterm_byte ok (key_byte (ld_termios ld) k) ld = (if flag (c_lflag (ld_termios ld)) ECHOK then (o1 @ o2, ld\<lparr>canon_buf := [], ld_nalloc := n2\<rparr>)
    else (o1, ld\<lparr>canon_buf := [], ld_nalloc := n1\<rparr>))"
    unfolding key_canon [OF assms(2,3)] using Kill 1(1) 2(1) by (simp add: ldterm_canon_def Let_def ld_seq_def ld_skip_def)
  then show ?thesis using Kill 1(2,3) 2(2,3) by (cases "flag (c_lflag (ld_termios ld)) ECHOK") auto
qed

lemma keys_edit:
  assumes "\<forall>k. ok k" "cooked (ld_termios ld)" "list_all (typable (ld_termios ld)) ks" "line_fits ks (canon_buf ld)"
  shows "\<exists>out n. ldterm_rx ok (map (key_byte (ld_termios ld)) ks) ld = (out, ld\<lparr>canon_buf := fold edit ks (canon_buf ld), ld_nalloc := n\<rparr>)
    \<and> list_all goes_down out
    \<and> (flag (c_lflag (ld_termios ld)) ECHO \<and> Plain 8 \<notin> set ks
       \<longrightarrow> fold screen_out out (canon_buf ld) = fold edit ks (canon_buf ld))"
  using assms(2-4)
proof (induction ks arbitrary: ld)
  case Nil
  show ?case by (intro exI [of _ "[]"] exI [of _ "ld_nalloc ld"]) (simp add: ld_skip_def)
next
  case (Cons k ks)
  obtain o1 n1 where 1: "ldterm_byte ok (key_byte (ld_termios ld) k) ld = (o1, ld\<lparr>canon_buf := edit k (canon_buf ld), ld_nalloc := n1\<rparr>)"
    "list_all goes_down o1" "flag (c_lflag (ld_termios ld)) ECHO \<and> k \<noteq> Plain 8
       \<longrightarrow> fold screen_out o1 (canon_buf ld) = edit k (canon_buf ld)"
    using key_edits [where k = k, OF assms(1) Cons.prems(1)] Cons.prems by auto
  define ld1 where "ld1 = ld\<lparr>canon_buf := edit k (canon_buf ld), ld_nalloc := n1\<rparr>"
  have t: "ld_termios ld1 = ld_termios ld" "canon_buf ld1 = edit k (canon_buf ld)" by (simp_all add: ld1_def)
  obtain o2 n2 where 2: "ldterm_rx ok (map (key_byte (ld_termios ld)) ks) ld1 = (o2, ld1\<lparr>canon_buf := fold edit ks (canon_buf ld1), ld_nalloc := n2\<rparr>)"
    "list_all goes_down o2" "flag (c_lflag (ld_termios ld)) ECHO \<and> Plain 8 \<notin> set ks
       \<longrightarrow> fold screen_out o2 (canon_buf ld1) = fold edit ks (canon_buf ld1)"
    using Cons.IH [of ld1] Cons.prems unfolding t by auto
  show ?case using 1 2 t by (intro exI [of _ "o1 @ o2"] exI [of _ n2]) (auto simp: ld_seq_def ld1_def)
qed

lemma rx_append: "ldterm_rx ok (xs @ ys) ld = ld_seq (ldterm_rx ok xs) (ldterm_rx ok ys) ld"
  by (induction xs arbitrary: ld) (auto simp: ld_seq_def ld_skip_def split: prod.splits)

lemma filter_not_down: "list_all goes_down out \<Longrightarrow> filter (Not \<circ> goes_down) out = []"
  by (induction out) simp_all

subsection \<open>Settings and output\<close>

lemma termios_of_bytes:
  assumes "length (c_cc t) = 8"
  shows "termios_of (termios_bytes t) = t" "length (termios_bytes t) = 24"
  using assms by (simp_all add: termios_of_def termios_bytes_def subbytes_def)

lemma length_opost: "length (opost oflag bs) = opost_need oflag bs"
  by (induction bs) simp_all

subsection \<open>Properties\<close>

text \<open>
  C14. Whatever arrives from above and below, in any order and with any failures of \<open>allocb\<close>, and whatever the
  settings become: the line buffer never holds more than its 512 bytes, the table of control characters
  keeps its 8, and data goes up only as one block of at most 513 bytes.
\<close>
theorem ldterm_bounded:
  assumes "ld_reach ok outs ld"
  shows "ld_wf ld \<and> list_all up_ok outs"
  using assms
proof induction
  case (opened ld)
  then show ?case by (auto simp: ldterm_qopen_def ldterm_set_default_termios_def ld_wf_def)
next
  case (read outs ld mp rc out ld')
  then show ?case using keeps_rq [OF read(2)] by (simp add: keeps_def)
next
  case (written outs ld mp rc out ld')
  then show ?case using keeps_wq [OF written(2)] by (simp add: keeps_def)
qed

theorem ldterm_bounded_witness:
  "\<exists>ld. ld_reach (\<lambda>k. True) [LSig SIGINT] ld \<and> ld_wf ld"
proof -
  define l0 where "l0 = \<lparr>ld_termios = ldterm_set_default_termios, canon_buf = [], ld_nalloc = 0\<rparr>"
  have "ld_reach (\<lambda>k. True) [] l0" by (rule opened) (simp add: ldterm_qopen_def l0_def)
  moreover have "ldterm_rq_putp (\<lambda>k. True) (Some l0) [new_msg M_DATA [3]] = Some (0, [LSig SIGINT], Some l0)"
    by (simp add: ldterm_rq_putp_def new_msg_def l0_def ldterm_set_default_termios_def ldterm_byte_def ldterm_map_input_def
      ldterm_signal_def ldterm_signal_reader_def ld_seq_def ld_skip_def Let_def flag_def consts_def)
  ultimately have "ld_reach (\<lambda>k. True) ([] @ [LSig SIGINT]) l0" by (rule ld_reach.read)
  then show ?thesis using ldterm_bounded [of "\<lambda>k. True" "[LSig SIGINT]" l0] by auto
qed

text \<open>
  C17. A line in canonical mode: characters, erase and kill characters in any order and then a newline arrive. As
  long as the line fits the buffer, exactly one message goes up, the line as edited with its newline, no
  signal is sent, and the buffer is empty again.
\<close>
theorem line_delivered:
  assumes "\<forall>k. ok k" "cooked (ld_termios ld)" "list_all (typable (ld_termios ld)) ks" "line_fits ks (canon_buf ld)"
  shows "\<exists>out ld'. ldterm_rq_putp ok (Some ld) [new_msg M_DATA (map (key_byte (ld_termios ld)) ks @ [10])] = Some (0, out, Some ld')
    \<and> filter (Not \<circ> goes_down) out = [LUp [new_msg M_DATA (fold edit ks (canon_buf ld) @ [10])]] \<and> canon_buf ld' = []"
proof -
  obtain o1 n1 where 1: "ldterm_rx ok (map (key_byte (ld_termios ld)) ks) ld = (o1, ld\<lparr>canon_buf := fold edit ks (canon_buf ld), ld_nalloc := n1\<rparr>)"
    "list_all goes_down o1" using keys_edit [OF assms] by blast
  define ld1 where "ld1 = ld\<lparr>canon_buf := fold edit ks (canon_buf ld), ld_nalloc := n1\<rparr>"
  obtain o2 n2 where 2: "ldterm_echo ok 10 ld1 = (o2, ld1\<lparr>ld_nalloc := n2\<rparr>)" "list_all goes_down o2"
    using echo_shows [where b = 10 and ld = ld1, OF assms(1)] by blast
  have "ldterm_byte ok 10 ld1 = (o2 @ [LUp [new_msg M_DATA (fold edit ks (canon_buf ld) @ [10])]], ld1\<lparr>canon_buf := [], ld_nalloc := n2 + 1\<rparr>)"
    using enter_canon [of ld1 ok] assms(1,2) 2(1) by (simp add: ld1_def ld_seq_def ldterm_deliver_line_def new_msg_def Let_def)
  then show ?thesis using 1 filter_not_down [OF 1(2)] filter_not_down [OF 2(2)]
    by (simp add: ldterm_rq_putp_def new_msg_def rx_append ld_seq_def ld_skip_def ld1_def)
qed

theorem line_delivered_witness:
  "\<exists>out ld'. ldterm_rq_putp (\<lambda>k. True) (Some \<lparr>ld_termios = ldterm_set_default_termios\<lparr>c_lflag := ICANON OR ECHO\<rparr>, canon_buf = [], ld_nalloc = 0\<rparr>)
      [new_msg M_DATA [108, 120, 0x7f, 115, 10]] = Some (0, out, Some ld')
    \<and> filter (Not \<circ> goes_down) out = [LUp [new_msg M_DATA [108, 115, 10]]] \<and> canon_buf ld' = []"
  using line_delivered [of "\<lambda>k. True" "\<lparr>ld_termios = ldterm_set_default_termios\<lparr>c_lflag := ICANON OR ECHO\<rparr>, canon_buf = [], ld_nalloc = 0\<rparr>"
    "[Plain 108, Plain 120, Erase, Plain 115]"]
  by (simp add: cooked_def ordinary_def ldterm_set_default_termios_def flag_def consts_def LDTERM_LINEBUF_MAX_def)

text \<open>
  C35. With echo on and memory for the echoed bytes: after any characters, erase and kill characters that fit the
  line buffer, whether or not a killed line is followed by a newline (\<open>ECHOK\<close>) and a character is wiped out (\<open>ECHOE\<close>), the row
  of the screen before the cursor is what the line buffer holds. No backspace is among the
  characters typed as text: it is stored as a character but moves the cursor back.
\<close>
theorem screen_shows_line:
  assumes "\<forall>k. ok k" "cooked (ld_termios ld)" "list_all (typable (ld_termios ld)) ks" "line_fits ks (canon_buf ld)"
    "flag (c_lflag (ld_termios ld)) ECHO" "Plain 8 \<notin> set ks"
  shows "\<exists>out ld'. ldterm_rq_putp ok (Some ld) [new_msg M_DATA (map (key_byte (ld_termios ld)) ks)] = Some (0, out, Some ld')
    \<and> canon_buf ld' = fold edit ks (canon_buf ld) \<and> fold screen_out out (canon_buf ld) = canon_buf ld'"
  using keys_edit [OF assms(1-4)] assms(5,6) by (auto simp: ldterm_rq_putp_def new_msg_def)

theorem screen_shows_line_witness:
  "\<exists>out ld'. ldterm_rq_putp (\<lambda>k. True) (Some \<lparr>ld_termios = ldterm_set_default_termios\<lparr>c_lflag := ICANON OR ECHO OR ECHOE OR ECHOK\<rparr>, canon_buf = [], ld_nalloc = 0\<rparr>)
      [new_msg M_DATA [97, 98, 0x15, 99]] = Some (0, out, Some ld')
    \<and> canon_buf ld' = [99] \<and> fold screen_out out [] = canon_buf ld'"
  using screen_shows_line [of "\<lambda>k. True" "\<lparr>ld_termios = ldterm_set_default_termios\<lparr>c_lflag := ICANON OR ECHO OR ECHOE OR ECHOK\<rparr>, canon_buf = [], ld_nalloc = 0\<rparr>"
    "[Plain 97, Plain 98, Kill, Plain 99]"]
  by (simp add: cooked_def ordinary_def ldterm_set_default_termios_def flag_def consts_def LDTERM_LINEBUF_MAX_def)

text \<open>
  When the buffer is full, a character is echoed but not stored, and the erase character typed to take it back
  removes a stored one: the screen shows the old line, the buffer has lost its last character.
\<close>
theorem erase_after_overflow:
  assumes "\<forall>k. ok k" "cooked (ld_termios ld)" "ordinary (ld_termios ld) c" "c \<noteq> 8"
    "flag (c_lflag (ld_termios ld)) ECHO" "length (canon_buf ld) = LDTERM_LINEBUF_MAX"
  shows "\<exists>out ld'. ldterm_rq_putp ok (Some ld) [new_msg M_DATA [c, c_cc (ld_termios ld) ! VERASE]] = Some (0, out, Some ld')
    \<and> fold screen_out out (canon_buf ld) = canon_buf ld \<and> canon_buf ld' = butlast (canon_buf ld)"
proof -
  have "c \<noteq> 10" "c \<noteq> 13" using assms(3) by (simp_all add: ordinary_def)
  then obtain o1 n1 where 1: "ldterm_echo ok c ld = (o1, ld\<lparr>ld_nalloc := n1\<rparr>)" "\<forall>s. fold screen_out o1 s = s @ [c]"
    using echo_shows [where b = c and ld = ld, OF assms(1)] assms(4,5) by blast
  define ld1 where "ld1 = ld\<lparr>ld_nalloc := n1\<rparr>"
  have "ldterm_byte ok c ld = (o1, ld1)"
    using key_canon [OF assms(2), of "Plain c" ok] char_canon [OF assms(2,3), of ok] assms(3,6) 1(1)
    by (simp add: ld_seq_def ldterm_append_def ld1_def)
  moreover obtain o2 n2 where 2: "ldterm_echo_erase ok (ld1\<lparr>canon_buf := butlast (canon_buf ld1)\<rparr>) = (o2, ld1\<lparr>canon_buf := butlast (canon_buf ld1), ld_nalloc := n2\<rparr>)"
    "\<forall>s. fold screen_out o2 s = butlast s"
    using echo_erase_shows [where ld = "ld1\<lparr>canon_buf := butlast (canon_buf ld1)\<rparr>", OF assms(1)] assms(5) by (auto simp: ld1_def)
  moreover have "canon_buf ld1 \<noteq> []" using assms(6) by (auto simp: ld1_def LDTERM_LINEBUF_MAX_def)
  then have "ldterm_byte ok (c_cc (ld_termios ld) ! VERASE) ld1 = ldterm_erase ok ld1"
    using key_canon [of ld1 Erase ok] assms(2) by (simp add: ld1_def ldterm_canon_def)
  ultimately show ?thesis using 1(2)
    by (simp add: ldterm_rq_putp_def new_msg_def ld_seq_def ld_skip_def ldterm_erase_def) (simp add: ld1_def)
qed

theorem erase_after_overflow_witness:
  "\<exists>out ld'. ldterm_rq_putp (\<lambda>k. True) (Some \<lparr>ld_termios = ldterm_set_default_termios\<lparr>c_lflag := ICANON OR ECHO\<rparr>, canon_buf = replicate 512 97, ld_nalloc = 0\<rparr>)
      [new_msg M_DATA [98, 0x7f]] = Some (0, out, Some ld')
    \<and> fold screen_out out (replicate 512 97) = replicate 512 97 \<and> canon_buf ld' = butlast (replicate 512 97)"
  using erase_after_overflow [of "\<lambda>k. True" "\<lparr>ld_termios = ldterm_set_default_termios\<lparr>c_lflag := ICANON OR ECHO\<rparr>, canon_buf = replicate 512 97, ld_nalloc = 0\<rparr>" 98]
  by (simp add: cooked_def ordinary_def ldterm_set_default_termios_def flag_def consts_def LDTERM_LINEBUF_MAX_def)

text \<open>
  Settings written with \<open>TCSETA\<close> are acknowledged, and a following \<open>TCGETA\<close> is answered with the same 24 bytes.
\<close>
theorem termios_set_get:
  assumes "\<forall>k. ok k" "length (c_cc t) = 8"
    "p_type p = M_IOCTL" "16 \<le> length (p_body p)" "un_le32 (take 4 (p_body p)) = TCSETA"
    "p_type g = M_IOCTL" "16 \<le> length (p_body g)" "un_le32 (take 4 (p_body g)) = TCGETA"
  shows "\<exists>a ld1 b ld2. ldterm_wq_putp ok (Some ld) [p, new_msg M_DATA (termios_bytes t)] = Some (0, [LUp [a]], Some ld1) \<and> p_type a = M_IOCACK
    \<and> ldterm_wq_putp ok (Some ld1) [g] = Some (0, [LUp [b, new_msg M_DATA (termios_bytes t)]], Some ld2) \<and> p_type b = M_IOCACK"
proof -
  have ne: "termios_bytes t \<noteq> []" using termios_of_bytes(2) [OF assms(2)] by auto
  show ?thesis using assms ne
    by (simp add: ldterm_wq_putp_def ldterm_handle_ioctl_def ldterm_ioc_ack_def termios_of_bytes Let_def new_msg_def TCSETA_def TCGETA_def)
qed

theorem termios_set_get_witness:
  "\<exists>a ld1 b ld2. ldterm_wq_putp (\<lambda>k. True) (Some \<lparr>ld_termios = ldterm_set_default_termios, canon_buf = [], ld_nalloc = 0\<rparr>)
      [new_msg M_IOCTL (le32 TCSETA @ replicate 12 0), new_msg M_DATA (termios_bytes (ldterm_set_default_termios\<lparr>c_lflag := ICANON\<rparr>))]
      = Some (0, [LUp [a]], Some ld1) \<and> p_type a = M_IOCACK
    \<and> ldterm_wq_putp (\<lambda>k. True) (Some ld1) [new_msg M_IOCTL (le32 TCGETA @ replicate 12 0)]
      = Some (0, [LUp [b, new_msg M_DATA (termios_bytes (ldterm_set_default_termios\<lparr>c_lflag := ICANON\<rparr>))]], Some ld2) \<and> p_type b = M_IOCACK"
  by (rule termios_set_get) (simp_all add: new_msg_def ldterm_set_default_termios_def)

text \<open>
  Output processing never stores behind the block it asked for: the data of a message goes down as one block,
  processed byte by byte, of exactly the size computed before.
\<close>
theorem output_fits:
  assumes "p_type p = M_DATA" "flag (c_oflag (ld_termios ld)) OPOST" "ok (ld_nalloc ld)"
  shows "\<exists>q ld'. ldterm_wq_putp ok (Some ld) (p # r) = Some (0, [LDown [q]], Some ld')
    \<and> p_body q = opost (c_oflag (ld_termios ld)) (p_body p)
    \<and> length (p_body q) = opost_need (c_oflag (ld_termios ld)) (p_body p)"
  using assms by (simp add: ldterm_wq_putp_def ldterm_output_def Let_def length_opost new_msg_def M_DATA_def M_IOCTL_def)

theorem output_fits_witness:
  "\<exists>q ld'. ldterm_wq_putp (\<lambda>k. True) (Some \<lparr>ld_termios = ldterm_set_default_termios, canon_buf = [], ld_nalloc = 0\<rparr>) [new_msg M_DATA [104, 105, 10]]
      = Some (0, [LDown [q]], Some ld') \<and> p_body q = [104, 105, 13, 10]"
  using output_fits [of "new_msg M_DATA [104, 105, 10]" "\<lparr>ld_termios = ldterm_set_default_termios, canon_buf = [], ld_nalloc = 0\<rparr>" "\<lambda>k. True" "[]"]
  by (auto simp: new_msg_def ldterm_set_default_termios_def flag_def consts_def)

end
