(* ===== verification/Malloc.thy ===== *)
theory Malloc
  imports Kappara_Prelude
begin

text \<open>
  The allocator of the C library, \<open>lib/libc/src/malloc.c\<close>, and the system call it grows by, \<open>sys_brk_impl\<close> of
  \<open>uts/os/user/user.c\<close>. A block is its header, by address; the chain of \<open>next\<close> pointers from \<open>freelist\<close> is
  the list of the blocks. The caller is a process with an address
  space, of which the break and the set of mapped heap pages are kept;
  \<open>ok n\<close> tells whether the \<open>n\<close>-th page can be allocated and mapped. \<open>None\<close> is a pointer to free that is not
  one of a block. The theorems: the bytes behind the pointers a program holds are apart from each other
  and from all headers and lie on mapped pages, and a failed system call leaves the break where it was. One theorem
  shows a request near the largest number that is served by an empty block.
\<close>

section \<open>Definitions\<close>

definition EXEC_HEAP_VA :: u64 where "EXEC_HEAP_VA = 0x21200000"
definition EXEC_HEAP_SIZE :: u64 where "EXEC_HEAP_SIZE = 0x400000"

record heap_vm =
  heap_brk :: u64
  heap_pages :: "u64 set"
  heap_tries :: nat

text \<open>Rounding up to a page and to 8 bytes.\<close>

definition page_up :: "u64 \<Rightarrow> u64" where
  "page_up a = (a + 0xfff) AND NOT 0xfff"

definition align8 :: "u64 \<Rightarrow> u64" where
  "align8 a = (a + 7) AND NOT 7"

primrec vmap_alloc_pages :: "(nat \<Rightarrow> bool) \<Rightarrow> u64 \<Rightarrow> nat \<Rightarrow> heap_vm \<Rightarrow> bool \<times> heap_vm" where
  "vmap_alloc_pages ok va 0 vm = (True, vm)"
| "vmap_alloc_pages ok va (Suc n) vm =
     (if ok (heap_tries vm)
      then vmap_alloc_pages ok (va + 0x1000) n (vm\<lparr>heap_pages := insert va (heap_pages vm), heap_tries := heap_tries vm + 1\<rparr>)
      else (False, vm\<lparr>heap_tries := heap_tries vm + 1\<rparr>))"

primrec vmap_unmap_pages :: "u64 \<Rightarrow> nat \<Rightarrow> heap_vm \<Rightarrow> heap_vm" where
  "vmap_unmap_pages va 0 vm = vm"
| "vmap_unmap_pages va (Suc n) vm = vmap_unmap_pages (va + 0x1000) n (vm\<lparr>heap_pages := heap_pages vm - {va}\<rparr>)"

text \<open>The value returned is a \<open>long\<close>; \<open>-1\<close> is the largest word.\<close>

definition sys_brk_impl :: "(nat \<Rightarrow> bool) \<Rightarrow> u64 \<Rightarrow> heap_vm \<Rightarrow> u64 \<times> heap_vm" where
  "sys_brk_impl ok addr vm =
     (if heap_brk vm = 0 then (-1, vm)
      else if addr = 0 then (heap_brk vm, vm)
      else if addr < EXEC_HEAP_VA \<or> addr > EXEC_HEAP_VA + EXEC_HEAP_SIZE then (-1, vm)
      else let old_top = page_up (heap_brk vm); new_top = page_up addr in
        if new_top > old_top then
          (case vmap_alloc_pages ok old_top (unat ((new_top - old_top) div 0x1000)) vm of
             (False, vm1) \<Rightarrow> (-1, vm1)
           | (True, vm1) \<Rightarrow> (addr, vm1\<lparr>heap_brk := addr\<rparr>))
        else (addr, (vmap_unmap_pages new_top (unat ((old_top - new_top) div 0x1000)) vm)\<lparr>heap_brk := addr\<rparr>))"

record hblock =
  hb_addr :: u64
  hb_size :: u64
  hb_free :: bool

record uheap =
  freelist :: "hblock list"
  uh_vm :: heap_vm

definition heap_grow :: "(nat \<Rightarrow> bool) \<Rightarrow> u64 \<Rightarrow> heap_vm \<Rightarrow> u64 option \<times> heap_vm" where
  "heap_grow ok n0 vm =
     (let n = page_up n0; (cur, vm1) = sys_brk_impl ok 0 vm in
      if sint cur < 0 then (None, vm1)
      else let (nb, vm2) = sys_brk_impl ok (cur + n) vm1 in
        if sint nb < 0 \<or> nb = cur then (None, vm2) else (Some cur, vm2))"

fun first_fit :: "u64 \<Rightarrow> hblock list \<Rightarrow> (u64 \<times> hblock list) option" where
  "first_fit sz [] = None"
| "first_fit sz (b # bs) =
     (if hb_free b \<and> hb_size b \<ge> sz then
        (if hb_size b \<ge> sz + 24 + 8
         then Some (hb_addr b + 24, b\<lparr>hb_size := sz, hb_free := False\<rparr>
                # \<lparr>hb_addr = hb_addr b + 24 + sz, hb_size = hb_size b - sz - 24, hb_free = True\<rparr> # bs)
         else Some (hb_addr b + 24, b\<lparr>hb_free := False\<rparr> # bs))
      else map_option (\<lambda>(p, bs'). (p, b # bs')) (first_fit sz bs))"

definition malloc :: "(nat \<Rightarrow> bool) \<Rightarrow> u64 \<Rightarrow> uheap \<Rightarrow> u64 option \<times> uheap" where
  "malloc ok sz0 h =
     (if sz0 = 0 then (None, h)
      else let sz = align8 sz0 in
        case first_fit sz (freelist h) of
          Some (p, bs) \<Rightarrow> (Some p, h\<lparr>freelist := bs\<rparr>)
        | None \<Rightarrow>
            (case heap_grow ok (sz + 24) (uh_vm h) of
               (None, vm) \<Rightarrow> (None, h\<lparr>uh_vm := vm\<rparr>)
             | (Some raw, vm) \<Rightarrow>
                 (Some (raw + 24), h\<lparr>freelist := freelist h @ [\<lparr>hb_addr = raw, hb_size = sz, hb_free = False\<rparr>], uh_vm := vm\<rparr>)))"

fun free_block :: "u64 \<Rightarrow> hblock list \<Rightarrow> hblock list option" where
  "free_block p [] = None"
| "free_block p (b # bs) =
     (if hb_addr b + 24 = p then
        Some (case bs of
                n # r \<Rightarrow> if hb_free n then b\<lparr>hb_free := True, hb_size := hb_size b + (24 + hb_size n)\<rparr> # r
                         else b\<lparr>hb_free := True\<rparr> # bs
              | [] \<Rightarrow> [b\<lparr>hb_free := True\<rparr>])
      else map_option ((#) b) (free_block p bs))"

definition ufree :: "u64 option \<Rightarrow> uheap \<Rightarrow> uheap option" where
  "ufree ptr h = (case ptr of None \<Rightarrow> Some h | Some p \<Rightarrow> map_option (\<lambda>bs. h\<lparr>freelist := bs\<rparr>) (free_block p (freelist h)))"

subsection \<open>Specification\<close>

definition heap_init :: uheap where
  "heap_init = \<lparr>freelist = [], uh_vm = \<lparr>heap_brk = EXEC_HEAP_VA, heap_pages = {}, heap_tries = 0\<rparr>\<rparr>"

text \<open>
  Everything a program can do with requests of all but the largest sizes and with the pointers it was given:
  \<open>given\<close> lists the pointers that \<open>malloc\<close> returned and that are not freed yet, each with the size asked for.
\<close>

inductive mreach :: "(nat \<Rightarrow> bool) \<Rightarrow> (u64 \<times> u64) list \<Rightarrow> uheap \<Rightarrow> bool" for ok where
  start: "mreach ok [] heap_init"
| alloc: "mreach ok given h \<Longrightarrow> unat sz \<le> 2 ^ 64 - 2 ^ 30 \<Longrightarrow> malloc ok sz h = (Some p, h') \<Longrightarrow> mreach ok ((p, sz) # given) h'"
| alloc_fails: "mreach ok given h \<Longrightarrow> unat sz \<le> 2 ^ 64 - 2 ^ 30 \<Longrightarrow> malloc ok sz h = (None, h') \<Longrightarrow> mreach ok given h'"
| release: "mreach ok given h \<Longrightarrow> (p, sz) \<in> set given \<Longrightarrow> ufree (Some p) h = Some h' \<Longrightarrow> mreach ok (remove1 (p, sz) given) h'"

text \<open>The bytes a caller may use.\<close>

definition range_of :: "u64 \<times> u64 \<Rightarrow> nat set" where
  "range_of x = {unat (fst x) ..< unat (fst x) + unat (snd x)}"

definition hb_end :: "hblock \<Rightarrow> nat" where
  "hb_end b = unat (hb_addr b) + 24 + unat (hb_size b)"

text \<open>Headers and payloads one after the other between two addresses.\<close>

primrec chain :: "nat \<Rightarrow> hblock list \<Rightarrow> nat \<Rightarrow> bool" where
  "chain lo [] hi \<longleftrightarrow> lo \<le> hi"
| "chain lo (b # bs) hi \<longleftrightarrow> lo \<le> unat (hb_addr b) \<and> chain (hb_end b) bs hi"

definition vm_wf :: "heap_vm \<Rightarrow> bool" where
  "vm_wf vm \<longleftrightarrow> unat EXEC_HEAP_VA \<le> unat (heap_brk vm) \<and> unat (heap_brk vm) \<le> unat EXEC_HEAP_VA + unat EXEC_HEAP_SIZE
     \<and> 4096 dvd unat (heap_brk vm)
     \<and> (\<forall>k. unat EXEC_HEAP_VA \<le> 4096 * k \<and> 4096 * k < unat (heap_brk vm) \<longrightarrow> of_nat (4096 * k) \<in> heap_pages vm)"

definition uheap_wf :: "uheap \<Rightarrow> bool" where
  "uheap_wf h \<longleftrightarrow> vm_wf (uh_vm h) \<and> chain (unat EXEC_HEAP_VA) (freelist h) (unat (heap_brk (uh_vm h)))"

text \<open>Every pointer handed out belongs to a block that is marked as in use and is large enough.\<close>

definition held :: "(u64 \<times> u64) list \<Rightarrow> uheap \<Rightarrow> bool" where
  "held given h \<longleftrightarrow> distinct (map fst given)
     \<and> (\<forall>(p, n) \<in> set given. \<exists>b \<in> set (freelist h). \<not> hb_free b \<and> p = hb_addr b + 24 \<and> unat n \<le> unat (hb_size b))"

definition in_use :: "uheap \<Rightarrow> hblock set" where
  "in_use h = {b \<in> set (freelist h). \<not> hb_free b}"

text \<open>The bytes of a block behind its header, those of the header, and the page of an address.\<close>

definition payload :: "hblock \<Rightarrow> nat set" where
  "payload b = {unat (hb_addr b) + 24 ..< hb_end b}"

definition header :: "hblock \<Rightarrow> nat set" where
  "header b = {unat (hb_addr b) ..< unat (hb_addr b) + 24}"

definition page_of :: "nat \<Rightarrow> u64" where
  "page_of a = of_nat (4096 * (a div 4096))"

section \<open>Lemmas\<close>

subsection \<open>Words\<close>

lemma unat_add: "unat a + unat b < 2 ^ 64 \<Longrightarrow> unat (a + b :: u64) = unat a + unat b"
  by (simp add: unat_word_ariths)

lemma unat_and_not_mask: "unat ((a :: u64) AND NOT (mask k)) = unat a - unat a mod 2 ^ k"
proof -
  have "a AND NOT (mask k) = a - take_bit k a"
  proof -
    have "take_bit k a + (a AND NOT (mask k)) = take_bit k a OR (a AND NOT (mask k))"
      by (rule disjunctive_add_eq_or) (rule bit_word_eqI, auto simp: bit_simps)
    also have "\<dots> = a" by (rule bit_word_eqI) (auto simp: bit_simps)
    finally show ?thesis by (simp add: algebra_simps)
  qed
  moreover have t: "unat (take_bit k a) = unat a mod 2 ^ k"
    unfolding unsigned_take_bit_eq take_bit_nat_def by simp
  then have "take_bit k a \<le> a" by (simp add: word_le_nat_alt)
  ultimately show ?thesis using t by (simp add: unat_sub)
qed

lemma unat_page_up:
  assumes "unat a + 4095 < 2 ^ 64"
  shows "unat (page_up a) = 4096 * ((unat a + 4095) div 4096)"
proof -
  have "page_up a = (a + 4095) AND NOT (mask 12)" by (simp add: page_up_def mask_eq_exp_minus_1)
  moreover have "unat (a + 4095) = unat a + 4095" using assms unat_add [of a 4095] by simp
  ultimately show ?thesis by (simp add: unat_and_not_mask minus_mod_eq_mult_div)
qed

lemma unat_align8:
  assumes "unat a + 7 < 2 ^ 64"
  shows "unat (align8 a) = 8 * ((unat a + 7) div 8)"
proof -
  have "align8 a = (a + 7) AND NOT (mask 3)" by (simp add: align8_def mask_eq_exp_minus_1)
  moreover have "unat (a + 7) = unat a + 7" using assms unat_add [of a 7] by simp
  ultimately show ?thesis by (simp add: unat_and_not_mask minus_mod_eq_mult_div)
qed

lemma heap_consts: "unat EXEC_HEAP_VA = 0x21200000" "unat EXEC_HEAP_SIZE = 0x400000"
  "unat (EXEC_HEAP_VA + EXEC_HEAP_SIZE) = 0x21600000"
  by (simp_all add: EXEC_HEAP_VA_def EXEC_HEAP_SIZE_def)

subsection \<open>The break\<close>

lemma vmap_alloc_pages_brk: "heap_brk (snd (vmap_alloc_pages ok va n vm)) = heap_brk vm \<and> heap_pages vm \<subseteq> heap_pages (snd (vmap_alloc_pages ok va n vm))"
proof (induction n arbitrary: va vm)
  case (Suc n)
  show ?case using Suc [of "va + 0x1000" "vm\<lparr>heap_pages := insert va (heap_pages vm), heap_tries := heap_tries vm + 1\<rparr>"] by auto
qed simp

lemma vmap_alloc_pages_maps:
  assumes "vmap_alloc_pages ok va n vm = (True, vm')" "i < n"
  shows "va + 0x1000 * of_nat i \<in> heap_pages vm'"
  using assms
proof (induction n arbitrary: va vm i)
  case (Suc n)
  define vm1 where "vm1 = vm\<lparr>heap_pages := insert va (heap_pages vm), heap_tries := heap_tries vm + 1\<rparr>"
  have r: "vmap_alloc_pages ok (va + 0x1000) n vm1 = (True, vm')" using Suc.prems(1) by (simp add: vm1_def split: if_splits)
  show ?case
  proof (cases i)
    case 0
    then show ?thesis using vmap_alloc_pages_brk [of ok "va + 0x1000" n vm1] r by (auto simp: vm1_def)
  next
    case (Suc j)
    then show ?thesis using Suc.IH [OF r, of j] Suc.prems(2) by (simp add: algebra_simps)
  qed
qed simp

lemma page_up_aligned: "4096 dvd unat a \<Longrightarrow> unat a + 4095 < 2 ^ 64 \<Longrightarrow> page_up a = a"
  by (auto simp: word_unat_eq_iff unat_page_up elim!: dvdE)

text \<open>A request for a higher break, as the allocator makes it.\<close>

lemma sys_brk_grows:
  assumes "vm_wf vm" "unat (heap_brk vm) < unat addr" "4096 dvd unat addr" "sys_brk_impl ok addr vm = (r, vm')"
  shows "vm_wf vm' \<and> (r = addr \<and> heap_brk vm' = addr \<or> r = -1 \<and> heap_brk vm' = heap_brk vm)"
proof -
  have b: "0x21200000 \<le> unat (heap_brk vm)" "unat (heap_brk vm) \<le> 0x21600000" "4096 dvd unat (heap_brk vm)"
    using assms(1) by (simp_all add: vm_wf_def heap_consts)
  have nz: "heap_brk vm \<noteq> 0" "addr \<noteq> 0" using b(1) assms(2) by (auto simp: unat_eq_0)
  show ?thesis
  proof (cases "addr < EXEC_HEAP_VA \<or> addr > EXEC_HEAP_VA + EXEC_HEAP_SIZE")
    case True
    then show ?thesis using assms(1,4) nz by (simp add: sys_brk_impl_def)
  next
    case False
    then have a: "unat addr \<le> 0x21600000" by (simp add: word_less_nat_alt heap_consts)
    have t: "page_up (heap_brk vm) = heap_brk vm" "page_up addr = addr"
      using a b assms(3) by (simp_all add: page_up_aligned)
    define n where "n = unat ((addr - heap_brk vm) div 0x1000)"
    have le: "heap_brk vm \<le> addr" using assms(2) by (simp add: word_le_nat_alt)
    have n: "n = (unat addr - unat (heap_brk vm)) div 4096" by (simp add: n_def unat_div unat_sub [OF le])
    obtain s vm1 where v: "vmap_alloc_pages ok (heap_brk vm) n vm = (s, vm1)" by fastforce
    have k: "heap_brk vm1 = heap_brk vm" "heap_pages vm \<subseteq> heap_pages vm1"
      using vmap_alloc_pages_brk [of ok "heap_brk vm" n vm] v by simp_all
    have res: "(r, vm') = (if s then (addr, vm1\<lparr>heap_brk := addr\<rparr>) else (-1, vm1))"
      using assms(2,4) False nz t v by (auto simp: sys_brk_impl_def word_less_nat_alt n_def Let_def split: bool.splits)
    show ?thesis
    proof (cases s)
      case True
      have "of_nat (4096 * q) \<in> heap_pages vm1" if q: "unat EXEC_HEAP_VA \<le> 4096 * q" "4096 * q < unat addr" for q
      proof (cases "4096 * q < unat (heap_brk vm)")
        case True
        then show ?thesis using assms(1) q(1) k(2) by (auto simp: vm_wf_def)
      next
        case False
        obtain c where c: "unat (heap_brk vm) = 4096 * c" using b(3) by (auto elim: dvdE)
        obtain d where d: "unat addr = 4096 * d" using assms(3) by (auto elim: dvdE)
        have "q - c < n" using False q(2) by (simp add: n c d)
        then have "heap_brk vm + 0x1000 * of_nat (q - c) \<in> heap_pages vm1" using v True by (intro vmap_alloc_pages_maps) simp
        moreover have "heap_brk vm = of_nat (4096 * c)" unfolding c [symmetric] by simp
        then have "heap_brk vm + 0x1000 * of_nat (q - c) = of_nat (4096 * c + 4096 * (q - c))" by simp
        then have "heap_brk vm + 0x1000 * of_nat (q - c) = of_nat (4096 * q)" using False c by (simp add: diff_mult_distrib2)
        ultimately show ?thesis by simp
      qed
      then show ?thesis using True res a assms(1-3) by (auto simp: vm_wf_def heap_consts)
    next
      case False
      then show ?thesis using res assms(1) k by (auto simp: vm_wf_def)
    qed
  qed
qed

lemma brk_query: "vm_wf vm \<Longrightarrow> sys_brk_impl ok 0 vm = (heap_brk vm, vm)"
  by (auto simp: sys_brk_impl_def vm_wf_def heap_consts)

lemma sint_small:
  assumes "unat (a :: u64) < 2 ^ 63"
  shows "\<not> sint a < 0"
proof -
  have "int (unat a) < int (2 ^ 63)" using assms by (simp only: of_nat_less_iff)
  then have "uint a < 2 ^ 63" unfolding uint_nat by (simp only: of_nat_power of_nat_numeral)
  moreover have "- (2 ^ 63) \<le> uint a" by (rule order_trans [OF _ uint_ge_0]) simp
  ultimately have "sint a = uint a" unfolding sint_uint by (intro signed_take_bit_int_eq_self) simp_all
  then show ?thesis by simp
qed

lemma heap_grow_correct:
  assumes "vm_wf vm" "0 < unat n" "unat n \<le> 2 ^ 64 - 2 ^ 30 + 32" "heap_grow ok n vm = (r, vm')"
  shows "vm_wf vm' \<and> (case r of None \<Rightarrow> heap_brk vm' = heap_brk vm
     | Some p \<Rightarrow> p = heap_brk vm \<and> unat (heap_brk vm) + unat n \<le> unat (heap_brk vm'))"
proof -
  define g where "g = page_up n"
  have b: "unat (heap_brk vm) \<le> 0x21600000" "4096 dvd unat (heap_brk vm)" using assms(1) by (simp_all add: vm_wf_def heap_consts)
  have g: "unat g = 4096 * ((unat n + 4095) div 4096)" using assms(3) by (simp add: g_def unat_page_up)
  have gn: "unat n \<le> unat g" "unat g \<le> 2 ^ 64 - 2 ^ 30 + 4200" unfolding g using assms(3) by linarith+
  have s: "unat (heap_brk vm + g) = unat (heap_brk vm) + unat g" using b(1) gn(2) by (intro unat_add) simp
  obtain nb vm2 where v: "sys_brk_impl ok (heap_brk vm + g) vm = (nb, vm2)" by fastforce
  have w: "vm_wf vm2 \<and> (nb = heap_brk vm + g \<and> heap_brk vm2 = heap_brk vm + g \<or> nb = -1 \<and> heap_brk vm2 = heap_brk vm)"
    using b(2) gn(1) assms(2) by (intro sys_brk_grows [OF assms(1) _ _ v]) (simp_all add: s, simp add: g)
  have c: "\<not> sint (heap_brk vm) < 0" "heap_brk vm + g \<noteq> heap_brk vm"
    using b(1) gn assms(2) by (simp_all add: sint_small) auto
  have c2: "\<not> sint (heap_brk vm2) < 0"
    by (rule sint_small) (use w in \<open>simp add: vm_wf_def heap_consts\<close>)
  have "(r, vm') = (if sint nb < 0 \<or> nb = heap_brk vm then (None, vm2) else (Some (heap_brk vm), vm2))"
    using assms(4) c(1) v by (simp add: heap_grow_def brk_query [OF assms(1)] g_def Let_def)
  then show ?thesis using w c(2) c2 s gn(1) by auto
qed

subsection \<open>The blocks\<close>

lemma chain_le: "chain lo bs hi \<Longrightarrow> lo \<le> hi"
proof (induction bs arbitrary: lo)
  case (Cons b bs)
  then have "lo \<le> unat (hb_addr b)" "hb_end b \<le> hi" by simp_all
  then show ?case by (simp add: hb_end_def)
qed simp

lemma chain_in: "chain lo bs hi \<Longrightarrow> b \<in> set bs \<Longrightarrow> lo \<le> unat (hb_addr b) \<and> hb_end b \<le> hi"
proof (induction bs arbitrary: lo)
  case (Cons c bs)
  then have c: "lo \<le> unat (hb_addr c)" "chain (hb_end c) bs hi" by simp_all
  show ?case
  proof (cases "b = c")
    case False
    then show ?thesis using Cons.IH [OF c(2)] Cons.prems(2) c(1) by (simp add: hb_end_def)
  qed (use c chain_le in simp)
qed simp

lemma chain_apart: "chain lo bs hi \<Longrightarrow> b \<in> set bs \<Longrightarrow> c \<in> set bs \<Longrightarrow> b \<noteq> c \<Longrightarrow> payload b \<inter> payload c = {}"
proof (induction bs arbitrary: lo)
  case (Cons d bs)
  have "payload d \<inter> payload x = {}" if "x \<in> set bs" for x
    using chain_in [of "hb_end d" bs hi x] Cons.prems(1) that by (auto simp: payload_def)
  then show ?case using Cons by (auto simp: Int_commute)
qed simp

lemma chain_snoc: "chain lo bs hi \<Longrightarrow> hi \<le> unat (hb_addr b) \<Longrightarrow> hb_end b \<le> hi' \<Longrightarrow> chain lo (bs @ [b]) hi'"
  by (induction bs arbitrary: lo) auto

lemma chain_mono: "chain lo bs hi \<Longrightarrow> lo' \<le> lo \<Longrightarrow> hi \<le> hi' \<Longrightarrow> chain lo' bs hi'"
  by (induction bs arbitrary: lo lo') auto

lemma first_fit_correct:
  assumes "chain lo bs hi" "hi < 2 ^ 32" "first_fit sz bs = Some (p, bs')"
  shows "chain lo bs' hi \<and> (\<exists>b \<in> set bs'. \<not> hb_free b \<and> p = hb_addr b + 24 \<and> sz \<le> hb_size b
    \<and> {x \<in> set bs'. \<not> hb_free x} = insert b {x \<in> set bs. \<not> hb_free x} \<and> (\<exists>f \<in> set bs. hb_free f \<and> hb_addr f = hb_addr b))"
  using assms(1,3)
proof (induction bs arbitrary: lo bs' p)
  case (Cons b bs)
  have e: "hb_end b \<le> hi" using Cons.prems(1) chain_le [of "hb_end b" bs hi] by simp
  show ?case
  proof (cases "hb_free b \<and> hb_size b \<ge> sz")
    case fit: True
    then have le: "unat sz \<le> unat (hb_size b)" by (simp add: word_le_nat_alt)
    have sm: "unat (hb_addr b) + 24 + unat (hb_size b) < 2 ^ 32" using e assms(2) by (simp add: hb_end_def)
    show ?thesis
    proof (cases "hb_size b \<ge> sz + 24 + 8")
      case True
      have s32: "unat (sz + 24 + 8) = unat sz + 32" using le sm unat_add [of sz 32] by (simp add: add.assoc)
      then have "unat sz + 32 \<le> unat (hb_size b)" using True by (simp add: word_le_nat_alt)
      then have d: "unat (hb_size b - sz - 24) = unat (hb_size b) - unat sz - 24"
        by (simp add: unat_sub word_le_nat_alt le)
      have "unat (hb_addr b + 24) = unat (hb_addr b) + 24" using sm unat_add [of "hb_addr b" 24] by simp
      then have a: "unat (hb_addr b + 24 + sz) = unat (hb_addr b) + 24 + unat sz"
        using sm le unat_add [of "hb_addr b + 24" sz] by simp
      define nb where "nb = \<lparr>hb_addr = hb_addr b + 24 + sz, hb_size = hb_size b - sz - 24, hb_free = True\<rparr>"
      have "hb_end nb = hb_end b" using \<open>unat sz + 32 \<le> unat (hb_size b)\<close> by (simp add: nb_def hb_end_def a d)
      moreover have "bs' = b\<lparr>hb_size := sz, hb_free := False\<rparr> # nb # bs" using Cons.prems(2) fit True by (auto simp: nb_def)
      moreover have "unat (hb_addr nb) = unat (hb_addr b) + 24 + unat sz" by (simp add: nb_def a)
      moreover have "hb_end (b\<lparr>hb_size := sz, hb_free := False\<rparr>) = unat (hb_addr b) + 24 + unat sz" by (simp add: hb_end_def)
      ultimately have "chain lo bs' hi" using Cons.prems(1) by simp
      then show ?thesis using Cons.prems fit True by auto
    next
      case False
      then show ?thesis using Cons.prems fit by (auto simp: hb_end_def)
    qed
  next
    case False
    then obtain bs1 where r: "first_fit sz bs = Some (p, bs1)" "bs' = b # bs1"
      using Cons.prems(2) by (auto split: if_splits)
    have "chain (hb_end b) bs hi" using Cons.prems(1) by simp
    from Cons.IH [OF this r(1)] show ?thesis using r(2) Cons.prems(1) by auto
  qed
qed simp

lemma free_block_chain:
  assumes "chain lo bs hi" "hi < 2 ^ 32" "free_block p bs = Some bs'"
  shows "chain lo bs' hi"
  using assms(1,3)
proof (induction bs arbitrary: lo bs')
  case (Cons b bs)
  show ?case
  proof (cases "hb_addr b + 24 = p")
    case True
    show ?thesis
    proof (cases bs)
      case (Cons n r)
      have c: "chain (hb_end n) r hi" "hb_end b \<le> unat (hb_addr n)" using Cons.prems(1) Cons by simp_all
      have "hb_end n \<le> hi" using chain_le [OF c(1)] .
      then have "unat (hb_size b) + 24 + unat (hb_size n) < 2 ^ 32" using c(2) assms(2) by (simp add: hb_end_def)
      then have "unat (24 + hb_size n) = 24 + unat (hb_size n)" "unat (hb_size b + (24 + hb_size n)) = unat (hb_size b) + 24 + unat (hb_size n)"
        using unat_add [of 24 "hb_size n"] unat_add [of "hb_size b" "24 + hb_size n"] by simp_all
      then show ?thesis using True Cons Cons.prems c chain_mono [OF c(1)] by (auto simp: hb_end_def split: if_splits)
    qed (use True Cons.prems in \<open>auto simp: hb_end_def\<close>)
  next
    case False
    then show ?thesis using Cons by auto
  qed
qed simp

lemma chain_same: "chain lo bs hi \<Longrightarrow> b \<in> set bs \<Longrightarrow> c \<in> set bs \<Longrightarrow> hb_addr b = hb_addr c \<Longrightarrow> b = c"
proof (induction bs arbitrary: lo)
  case (Cons d bs)
  have a: "hb_addr x \<noteq> hb_addr d" if "x \<in> set bs" for x
    using chain_in [of "hb_end d" bs hi x] Cons.prems(1) that by (auto simp: hb_end_def)
  show ?case using Cons.prems a [of b] a [of c] Cons.IH [of "hb_end d"] by auto
qed simp

lemma request_sz:
  assumes "0 < unat sz" "unat sz \<le> 2 ^ 64 - 2 ^ 30"
  shows "unat sz \<le> unat (align8 sz)" "unat (align8 sz + 24) = unat (align8 sz) + 24" "unat (align8 sz + 24) \<le> 2 ^ 64 - 2 ^ 30 + 32"
proof -
  have a: "unat (align8 sz) = 8 * ((unat sz + 7) div 8)" using assms by (intro unat_align8) simp
  show le: "unat sz \<le> unat (align8 sz)" unfolding a by linarith
  have u: "unat (align8 sz) \<le> 2 ^ 64 - 2 ^ 30 + 7" unfolding a using assms(2) by linarith
  show "unat (align8 sz + 24) = unat (align8 sz) + 24" using u unat_add [of "align8 sz" 24] by simp
  then show "unat (align8 sz + 24) \<le> 2 ^ 64 - 2 ^ 30 + 32" using u by simp
qed

lemma uheap_wf_bounds: "uheap_wf h \<Longrightarrow> unat (heap_brk (uh_vm h)) < 2 ^ 32"
  by (simp add: uheap_wf_def vm_wf_def heap_consts)

text \<open>A request that no block fits, and the break moved by it.\<close>

lemma malloc_grow:
  assumes "uheap_wf h" "0 < unat sz" "unat sz \<le> 2 ^ 64 - 2 ^ 30" "heap_grow ok (align8 sz + 24) (uh_vm h) = (r, vm)"
  shows "uheap_wf (h\<lparr>uh_vm := vm\<rparr>) \<and> (\<forall>raw. r = Some raw \<longrightarrow> raw = heap_brk (uh_vm h)
    \<and> uheap_wf (h\<lparr>freelist := freelist h @ [\<lparr>hb_addr = raw, hb_size = align8 sz, hb_free = False\<rparr>], uh_vm := vm\<rparr>))"
proof -
  have w: "vm_wf (uh_vm h)" "chain (unat EXEC_HEAP_VA) (freelist h) (unat (heap_brk (uh_vm h)))"
    using assms(1) by (simp_all add: uheap_wf_def)
  have g: "vm_wf vm \<and> (case r of None \<Rightarrow> heap_brk vm = heap_brk (uh_vm h)
     | Some p \<Rightarrow> p = heap_brk (uh_vm h) \<and> unat (heap_brk (uh_vm h)) + unat (align8 sz + 24) \<le> unat (heap_brk vm))"
    by (rule heap_grow_correct [OF w(1) _ request_sz(3) [OF assms(2,3)] assms(4)]) (simp add: request_sz(2) [OF assms(2,3)])
  have "unat (heap_brk (uh_vm h)) \<le> unat (heap_brk vm)" using g by (cases r) auto
  then have "chain (unat EXEC_HEAP_VA) (freelist h) (unat (heap_brk vm))" using chain_mono [OF w(2)] by blast
  moreover have "chain (unat EXEC_HEAP_VA) (freelist h @ [\<lparr>hb_addr = raw, hb_size = align8 sz, hb_free = False\<rparr>]) (unat (heap_brk vm))"
    if "r = Some raw" for raw
    using g that request_sz(2) [OF assms(2,3)] by (intro chain_snoc [OF w(2)]) (auto simp: hb_end_def)
  ultimately show ?thesis using g by (auto simp: uheap_wf_def)
qed

lemma malloc_wf:
  assumes "uheap_wf h" "unat sz \<le> 2 ^ 64 - 2 ^ 30" "malloc ok sz h = (r, h')"
  shows "uheap_wf h'"
proof (cases "sz = 0")
  case False
  then have pos: "0 < unat sz" by (simp add: unat_gt_0)
  show ?thesis
  proof (cases "first_fit (align8 sz) (freelist h)")
    case None
    obtain q vm where g: "heap_grow ok (align8 sz + 24) (uh_vm h) = (q, vm)" by fastforce
    show ?thesis using malloc_grow [OF assms(1) pos assms(2) g] assms(3) None False g by (auto simp: malloc_def split: option.splits)
  next
    case (Some a)
    then obtain p bs where f: "first_fit (align8 sz) (freelist h) = Some (p, bs)" by (cases a) auto
    have c: "chain (unat EXEC_HEAP_VA) (freelist h) (unat (heap_brk (uh_vm h)))" using assms(1) by (simp add: uheap_wf_def)
    have "chain (unat EXEC_HEAP_VA) bs (unat (heap_brk (uh_vm h)))"
      by (rule conjunct1 [OF first_fit_correct [OF c uheap_wf_bounds [OF assms(1)] f]])
    moreover have "h' = h\<lparr>freelist := bs\<rparr>" using assms(3) f False by (simp add: malloc_def)
    ultimately show ?thesis using assms(1) by (simp add: uheap_wf_def)
  qed
qed (use assms in \<open>simp add: malloc_def\<close>)

lemma ufree_wf:
  assumes "uheap_wf h" "ufree p h = Some h'"
  shows "uheap_wf h'"
proof (cases p)
  case (Some q)
  then obtain bs where f: "free_block q (freelist h) = Some bs" "h' = h\<lparr>freelist := bs\<rparr>" using assms(2) by (auto simp: ufree_def)
  have c: "chain (unat EXEC_HEAP_VA) (freelist h) (unat (heap_brk (uh_vm h)))" using assms(1) by (simp add: uheap_wf_def)
  show ?thesis using free_block_chain [OF c uheap_wf_bounds [OF assms(1)] f(1)] assms(1) f(2) by (simp add: uheap_wf_def)
qed (use assms in \<open>simp add: ufree_def\<close>)

text \<open>
  A request that is served returns the payload of a block at least as large, which was not in use; the other
  blocks in use stay as they are.
\<close>

lemma malloc_block:
  assumes "uheap_wf h" "unat sz \<le> 2 ^ 64 - 2 ^ 30" "malloc ok sz h = (Some p, h')"
  shows "\<exists>b. p = hb_addr b + 24 \<and> unat sz \<le> unat (hb_size b) \<and> b \<notin> in_use h \<and> in_use h' = insert b (in_use h)"
proof -
  note w = assms(1)
  then have c: "chain (unat EXEC_HEAP_VA) (freelist h) (unat (heap_brk (uh_vm h)))" by (simp add: uheap_wf_def)
  have nz: "sz \<noteq> 0" using assms(3) by (auto simp: malloc_def)
  then have pos: "0 < unat sz" by (simp add: unat_gt_0)
  note sz = request_sz(1) [OF pos assms(2)]
  show ?thesis
  proof (cases "first_fit (align8 sz) (freelist h)")
    case None
    obtain q vm where g: "heap_grow ok (align8 sz + 24) (uh_vm h) = (q, vm)" by fastforce
    then obtain raw where r: "q = Some raw" using assms(3) None nz by (cases q) (auto simp: malloc_def)
    define b where "b = \<lparr>hb_addr = raw, hb_size = align8 sz, hb_free = False\<rparr>"
    have "raw = heap_brk (uh_vm h)" using malloc_grow [OF w pos assms(2) g] r by blast
    then have "b \<notin> set (freelist h)" using chain_in [OF c, of b] by (auto simp: b_def hb_end_def)
    moreover have "p = raw + 24" "freelist h' = freelist h @ [b]" using assms(3) None nz g r by (auto simp: malloc_def b_def)
    ultimately show ?thesis using sz by (intro exI [of _ b]) (auto simp: in_use_def b_def)
  next
    case (Some a)
    then obtain bs where f: "first_fit (align8 sz) (freelist h) = Some (p, bs)" "freelist h' = bs"
      using assms(3) nz by (cases a) (auto simp: malloc_def)
    obtain b e where b: "\<not> hb_free b" "p = hb_addr b + 24" "align8 sz \<le> hb_size b"
      "{x \<in> set bs. \<not> hb_free x} = insert b {x \<in> set (freelist h). \<not> hb_free x}" "e \<in> set (freelist h)" "hb_free e" "hb_addr e = hb_addr b"
      using first_fit_correct [OF c uheap_wf_bounds [OF w] f(1)] by blast
    have "b \<notin> set (freelist h)" using chain_same [OF c b(5), of b] b(1,6,7) by auto
    then show ?thesis using b sz f(2) by (intro exI [of _ b]) (auto simp: in_use_def word_le_nat_alt)
  qed
qed

lemma distinct_sorted_wrt_fst: "distinct (map fst xs) \<Longrightarrow> sorted_wrt (\<lambda>x y. fst x \<noteq> fst y) xs"
  by (induction xs) force+

lemma free_block_keeps:
  assumes "free_block p bs = Some bs'" "c \<in> set bs" "\<not> hb_free c" "hb_addr c + 24 \<noteq> p"
  shows "c \<in> set bs'"
  using assms
proof (induction bs arbitrary: bs')
  case (Cons b bs)
  then show ?case by (cases bs) (auto split: if_splits)
qed simp

lemma free_block_some: "b \<in> set bs \<Longrightarrow> free_block (hb_addr b + 24) bs \<noteq> None"
  by (induction bs) auto

lemma malloc_held:
  assumes "uheap_wf h" "held given h" "unat sz \<le> 2 ^ 64 - 2 ^ 30" "malloc ok sz h = (Some p, h')"
  shows "held ((p, sz) # given) h'"
proof -
  obtain b where b: "p = hb_addr b + 24" "unat sz \<le> unat (hb_size b)" "b \<notin> in_use h" "in_use h' = insert b (in_use h)"
    using malloc_block [OF assms(1,3,4)] by blast
  have w: "uheap_wf h'" by (rule malloc_wf [OF assms(1,3,4)])
  have c: "chain (unat EXEC_HEAP_VA) (freelist h') (unat (heap_brk (uh_vm h')))" using w by (simp add: uheap_wf_def)
  have old: "\<exists>c \<in> in_use h. q = hb_addr c + 24 \<and> unat n \<le> unat (hb_size c)" if "(q, n) \<in> set given" for q n
    using assms(2) that unfolding held_def in_use_def by fastforce
  have sub: "x \<in> set (freelist h') \<and> \<not> hb_free x" if "x \<in> insert b (in_use h)" for x
    using that b(4) unfolding in_use_def by blast
  have "p \<noteq> q" if g: "(q, n) \<in> set given" for q n
  proof
    assume e: "p = q"
    obtain d where d: "d \<in> in_use h" "q = hb_addr d + 24" using old [OF g] by blast
    then have "b = d" using chain_same [OF c, of b d] sub [of b] sub [of d] e b(1) by simp
    then show False using d(1) b(3) by simp
  qed
  then have "p \<notin> fst ` set given" by force
  then have "distinct (map fst ((p, sz) # given))" using assms(2) by (simp add: held_def)
  moreover have "\<exists>x \<in> set (freelist h'). \<not> hb_free x \<and> q = hb_addr x + 24 \<and> unat n \<le> unat (hb_size x)"
    if "(q, n) \<in> set ((p, sz) # given)" for q n
    using that b(1,2) sub old [of q n] by auto
  ultimately show ?thesis unfolding held_def by blast
qed

lemma malloc_none:
  assumes "malloc ok sz h = (None, h')"
  shows "freelist h' = freelist h"
  using assms by (auto simp: malloc_def Let_def split: if_splits option.splits prod.splits)

lemma ufree_held:
  assumes "held given h" "(p, sz) \<in> set given" "ufree (Some p) h = Some h'"
  shows "held (remove1 (p, sz) given) h'"
proof -
  obtain bs where f: "free_block p (freelist h) = Some bs" "freelist h' = bs" using assms(3) by (auto simp: ufree_def)
  have d: "distinct (map fst given)" using assms(1) by (simp add: held_def)
  then have "distinct given" by (simp add: distinct_map)
  have ne: "q \<noteq> p" if g: "(q, n) \<in> set (remove1 (p, sz) given)" for q n
  proof
    assume "q = p"
    moreover have "(q, n) \<in> set given" "(q, n) \<noteq> (p, sz)" using g \<open>distinct given\<close> by auto
    ultimately show False using d assms(2) eq_key_imp_eq_value [of given p sz n] by simp
  qed
  have "\<exists>x \<in> set bs. \<not> hb_free x \<and> q = hb_addr x + 24 \<and> unat n \<le> unat (hb_size x)"
    if "(q, n) \<in> set (remove1 (p, sz) given)" for q n
  proof -
    have "(q, n) \<in> set given" using that set_remove1_subset by fast
    then obtain x where x: "x \<in> set (freelist h)" "\<not> hb_free x" "q = hb_addr x + 24" "unat n \<le> unat (hb_size x)"
      using assms(1) unfolding held_def by blast
    then show ?thesis using free_block_keeps [OF f(1), of x] ne [OF that] by blast
  qed
  moreover have "distinct (map fst (remove1 (p, sz) given))"
    using d by (auto simp: distinct_map inj_on_def)
  ultimately show ?thesis unfolding held_def f(2) by blast
qed

lemma mreach_inv: "mreach ok given h \<Longrightarrow> uheap_wf h \<and> held given h"
proof (induction rule: mreach.induct)
  case start
  have "4096 dvd (0x21200000 :: nat)" by (rule dvdI [of _ _ "0x21200"]) simp
  then show ?case by (simp add: heap_init_def uheap_wf_def vm_wf_def heap_consts held_def)
next
  case (alloc given h sz p h')
  then show ?case using malloc_wf [of h sz ok "Some p" h'] malloc_held [of h given sz ok p h'] by blast
next
  case (alloc_fails given h sz h')
  then show ?case using malloc_wf [of h sz ok None h'] malloc_none [of ok sz h h'] by (simp add: held_def)
next
  case (release given h p sz h')
  then show ?case using ufree_wf [of h "Some p" h'] ufree_held [of given h p sz h'] by blast
qed

lemma payload_mapped:
  assumes "uheap_wf h" "b \<in> set (freelist h)" "a \<in> payload b"
  shows "page_of a \<in> heap_pages (uh_vm h)"
proof -
  have "unat EXEC_HEAP_VA \<le> a" "a < unat (heap_brk (uh_vm h))"
    using chain_in [of "unat EXEC_HEAP_VA" "freelist h" "unat (heap_brk (uh_vm h))" b] assms by (auto simp: uheap_wf_def payload_def)
  then have "unat EXEC_HEAP_VA \<le> 4096 * (a div 4096)" "4096 * (a div 4096) < unat (heap_brk (uh_vm h))"
    using div_le_mono [of "0x21200000" a 4096] le_less_trans [of "4096 * (a div 4096)" a] by (simp_all add: heap_consts)
  then show ?thesis using assms(1) unfolding uheap_wf_def vm_wf_def page_of_def by blast
qed

text \<open>The bytes handed out lie inside the payload of their block, and so apart from each other and from all headers.\<close>

lemma chain_headers: "chain lo bs hi \<Longrightarrow> b \<in> set bs \<Longrightarrow> c \<in> set bs \<Longrightarrow> header b \<inter> payload c = {}"
proof (induction bs arbitrary: lo)
  case (Cons d bs)
  have "header d \<inter> payload x = {} \<and> header x \<inter> payload d = {}" if "x \<in> set bs" for x
    using chain_in [of "hb_end d" bs hi x] Cons.prems(1) that by (auto simp: payload_def header_def hb_end_def)
  moreover have "header d \<inter> payload d = {}" by (auto simp: payload_def header_def)
  ultimately show ?case using Cons.IH [of "hb_end d"] Cons.prems by fastforce
qed simp

lemma range_payload:
  assumes "uheap_wf h" "b \<in> set (freelist h)" "unat n \<le> unat (hb_size b)"
  shows "range_of (hb_addr b + 24, n) \<subseteq> payload b"
proof -
  have "hb_end b \<le> unat (heap_brk (uh_vm h))"
    using chain_in [of "unat EXEC_HEAP_VA" "freelist h" "unat (heap_brk (uh_vm h))" b] assms by (simp add: uheap_wf_def)
  then have "unat (hb_addr b) + 24 < 2 ^ 32" using uheap_wf_bounds [OF assms(1)] by (simp add: hb_end_def)
  then have "unat (hb_addr b + 24) = unat (hb_addr b) + 24" using unat_add [of "hb_addr b" 24] by simp
  then show ?thesis using assms(3) by (auto simp: range_of_def payload_def hb_end_def)
qed

subsection \<open>Properties\<close>

text \<open>
  C8. Whatever a program allocates and frees, in any order, with requests up to a gigabyte below the largest
  number and with any failures of the kernel to find a page, as long as it frees only pointers that \<open>malloc\<close> gave
  it and frees each once: the bytes it asked for behind any two pointers it still holds are apart, they are apart
  from the headers of all blocks, every one of them lies on a page that the system call mapped, and
  any pointer it holds can be freed.
\<close>
theorem heap_blocks_apart:
  assumes "mreach ok given h"
  shows "sorted_wrt (\<lambda>x y. range_of x \<inter> range_of y = {}) given
    \<and> (\<forall>x \<in> set given. (\<forall>b \<in> set (freelist h). range_of x \<inter> header b = {})
        \<and> (\<forall>a \<in> range_of x. page_of a \<in> heap_pages (uh_vm h)) \<and> ufree (Some (fst x)) h \<noteq> None)"
proof -
  have w: "uheap_wf h" "held given h" using mreach_inv [OF assms] by simp_all
  then have c: "chain (unat EXEC_HEAP_VA) (freelist h) (unat (heap_brk (uh_vm h)))" by (simp add: uheap_wf_def)
  have blk: "\<exists>b \<in> set (freelist h). fst x = hb_addr b + 24 \<and> range_of x \<subseteq> payload b" if g: "x \<in> set given" for x
  proof -
    obtain b where "b \<in> set (freelist h)" "fst x = hb_addr b + 24" "unat (snd x) \<le> unat (hb_size b)"
      using w(2) g unfolding held_def by (cases x) auto
    then show ?thesis using range_payload [OF w(1), of b "snd x"] by (metis prod.collapse)
  qed
  have ap: "range_of x \<inter> range_of y = {}" if xy: "x \<in> set given" "y \<in> set given" "fst x \<noteq> fst y" for x y
  proof -
    obtain b d where "b \<in> set (freelist h)" "fst x = hb_addr b + 24" "range_of x \<subseteq> payload b"
        "d \<in> set (freelist h)" "fst y = hb_addr d + 24" "range_of y \<subseteq> payload d" using blk xy(1,2) by meson
    then show ?thesis using chain_apart [OF c, of b d] xy(3) by (cases "b = d") auto
  qed
  have "sorted_wrt (\<lambda>x y. fst x \<noteq> fst y) given"
    using w(2) distinct_sorted_wrt_fst [of given] by (simp add: held_def)
  then have "sorted_wrt (\<lambda>x y. range_of x \<inter> range_of y = {}) given"
    by (rule sorted_wrt_mono_rel [rotated]) (rule ap)
  moreover have "(\<forall>b \<in> set (freelist h). range_of x \<inter> header b = {})
        \<and> (\<forall>a \<in> range_of x. page_of a \<in> heap_pages (uh_vm h)) \<and> ufree (Some (fst x)) h \<noteq> None" if g: "x \<in> set given" for x
  proof -
    obtain b where b: "b \<in> set (freelist h)" "fst x = hb_addr b + 24" "range_of x \<subseteq> payload b" using blk [OF g] by blast
    then show ?thesis using chain_headers [OF c _ b(1)] payload_mapped [OF w(1) b(1)] free_block_some [OF b(1)]
      by (auto simp: ufree_def)
  qed
  ultimately show ?thesis by blast
qed

text \<open>Two requests on a fresh heap.\<close>

theorem heap_blocks_apart_witness:
  "\<exists>h. mreach (\<lambda>k. True) [(0x21201018, 200), (0x21200018, 100)] h \<and> range_of (0x21201018, 200) \<inter> range_of (0x21200018, 100) = {}"
proof -
  define h1 where "h1 = snd (malloc (\<lambda>k. True) 100 heap_init)"
  have m1: "malloc (\<lambda>k. True) 100 heap_init = (Some 0x21200018, h1)"
    by (simp add: h1_def malloc_def align8_def heap_init_def heap_grow_def page_up_def sys_brk_impl_def EXEC_HEAP_VA_def EXEC_HEAP_SIZE_def Let_def)
  have "fst (malloc (\<lambda>k. True) 200 h1) = Some 0x21201018"
    by (simp add: h1_def malloc_def align8_def heap_init_def heap_grow_def page_up_def sys_brk_impl_def EXEC_HEAP_VA_def EXEC_HEAP_SIZE_def Let_def)
  then obtain h2 where m2: "malloc (\<lambda>k. True) 200 h1 = (Some 0x21201018, h2)" by (metis prod.collapse)
  have "mreach (\<lambda>k. True) [(0x21201018, 200), (0x21200018, 100)] h2"
    by (rule alloc [OF alloc [OF start _ m1] _ m2]) simp_all
  then show ?thesis using heap_blocks_apart [of "\<lambda>k. True" "[(0x21201018, 200), (0x21200018, 100)]" h2] by auto
qed

text \<open>
  A request near the largest number is rounded to 0 and served: the first block of a fresh heap has no byte of
  the \<open>2 ^ 64 - 1\<close> asked for.
\<close>
theorem malloc_huge_empty:
  "\<exists>h. malloc (\<lambda>k. True) (- 1) heap_init = (Some 0x21200018, h) \<and> in_use h = {\<lparr>hb_addr = 0x21200000, hb_size = 0, hb_free = False\<rparr>}"
  by (auto simp: malloc_def align8_def heap_init_def heap_grow_def page_up_def sys_brk_impl_def EXEC_HEAP_VA_def EXEC_HEAP_SIZE_def in_use_def Let_def)

end
