(* ===== verification/Spec2Isabelle.thy ===== *)
theory Spec2Isabelle
  imports Kmem Vfs Delay Slip Arp Ipv4 Pktfilter Udp Icmp Kstring Cdevsw Libc Ldterm Malloc
begin

text \<open>
  Kappara is a small System V flavoured operating system for AArch64. This development models the
  parts of its kernel (\<open>src/uts/os\<close>) that manage memory, storage, files, messages and network
  packets, and proves that they keep their data structures intact and do what their callers rely on.

  \<^bold>\<open>Parts and how they interact.\<close> A system call reaches the virtual file system (\<open>fs/vfs.c\<close>), which
  copies paths and buffers in through \<open>core/uaccess.c\<close>, keeps the tree of names and the descriptor
  tables, and hands a file to its driver: the on-disk file system (\<open>fs/kfs.c\<close>) or a block device. Both
  work on 512-byte blocks through the buffer cache (\<open>io/buf.c\<close>), which calls the driver of the device
  number (\<open>io/bdevsw.c\<close>, \<open>fs/ramdisk.c\<close>, \<open>io/bram.c\<close>). Pages come from \<open>core/pmm.c\<close> and smaller objects
  from \<open>core/kmem.c\<close>. Terminals and the
  network are stacks of STREAMS modules (\<open>io/streams.c\<close>): IP (\<open>net/ipv4.c\<close>) multiplexes the transport
  modules over the registered interfaces (\<open>net/netif.c\<close>), among them the loopback (\<open>net/lo.c\<close>) and the
  serial line (\<open>net/slip.c\<close>); Ethernet drivers resolve neighbours with \<open>net/arp.c\<close>; \<open>net/pktfilter.c\<close> can be
  pushed between a user and a transport.

  \<^bold>\<open>Conventions.\<close> C integers are words of their width wherever wrap-around matters. A pointer into a
  pool is an index or \<open>None\<close>; linked structures are maps from indices to records, and the predicates
  \<open>lseg\<close>, \<open>slist\<close> and \<open>dlist\<close> of \<open>Kappara_Prelude\<close> say which list a chain of links is. A C string is
  its bytes without the NUL. An operation takes the state and gives the new state; an outer \<open>None\<close>
  means that the C code does not return a result (it sleeps for ever, follows a NULL or freed pointer
  or walks a cyclic list), while C return codes are ordinary values. Allocation is a counter with an
  oracle that may refuse any request. A put procedure that ends by passing its message on returns the
  code of the next queue, which is its argument \<open>rc\<close>. Locks are left out: each operation is one step, and the step
  relations below interleave whole operations.

  \<^bold>\<open>Theories.\<close>
  \<^item> \<open>Kappara_Prelude\<close>: types, list predicates and their splicing lemmas, byte strings, encodings.
  \<^item> \<open>Uaccess\<close> (\<open>core/uaccess.c\<close>): the window test is exact, copies stay inside the window, string copies
    stop at the NUL or the end; a zero-length range that wraps is accepted.
  \<^item> \<open>Pmm\<close> (\<open>core/pmm.c\<close>): the free list refines a list of pages; a page has one owner at a time, under any
    sequence of allocations and frees.
  \<^item> \<open>Kmem\<close> (\<open>core/kmem.c\<close>): slabs on those pages, with headers and free lists in the words of the page; objects
    in use never overlap, and a request is served from the smallest class that fits, and refused exactly when
    that class and the pages are exhausted.
  \<^item> \<open>Buf\<close> and \<open>Blockdev\<close> (\<open>io/buf.c\<close>, \<open>io/bdevsw.c\<close>, \<open>fs/ramdisk.c\<close>, \<open>io/bram.c\<close>): LRU list and hash
    chains agree, a block is in at most one slot, and with drivers that do not fail the cache is
    transparent: reads give what was last written. Two theorems show what fails: evicting a dirty
    block corrupts the LRU list, and a failed read can lose a write.
  \<^item> \<open>Vfs_Tree\<close>, \<open>Kfs\<close>, \<open>Kfs_Files\<close> (the tree of \<open>fs/vfs.c\<close>, and \<open>fs/kfs.c\<close>): the on-disk invariant
    (bitmap exact, no block with two owners, names unique) is established by making an image and kept by
    creating and removing files and directories and by writing, each of which succeeds exactly when there is
    room and changes exactly what it should; reading returns what was written.
  \<^item> \<open>Vfs\<close> (\<open>fs/vfs.c\<close>, \<open>resolve_path_kva\<close> of \<open>proc/syscall.c\<close>): descriptors, reference counts and the
    system calls; every descriptor names a live file with an exact count under any interleaving. Closing
    returns for files of any kind whose own close method does; \<open>stream_close\<close> is not modelled and is
    represented by that condition.
  \<^item> \<open>Streams\<close>, \<open>Message\<close> (\<open>io/streams.c\<close>): reference counts of shared data blocks, queues as first-in
    first-out lists; \<open>Message\<close> is the by-value view of a message chain the modules use.
  \<^item> \<open>Delay\<close> (the delay module and the read side of \<open>io/stream_head.c\<close>): a service run over a stack of queues that
    enable each other ends and delivers every message in order.
  \<^item> \<open>Slip\<close> (\<open>net/slip.c\<close>), \<open>Netif\<close> (\<open>net/netif.c\<close>), \<open>Arp\<close> (\<open>net/arp.c\<close>), \<open>Ipv4\<close> (\<open>net/ipv4.c\<close>, \<open>net/lo.c\<close>),
    \<open>Pktfilter\<close> (\<open>net/pktfilter.c\<close>): the protocol modules, one definition per put procedure or handler.
  \<^item> \<open>Udp\<close> (\<open>net/udp.c\<close>): the bind handshake with IP, in which a port held by another stream is granted too, and a datagram carried from the user of one host to the
    user of another; the receiver does not apply the length field of the header.
  \<^item> \<open>Icmp\<close> (\<open>net/icmp.c\<close>): a ping is answered exactly by the streams that have the sender's identifier, and the
    answer comes back to the reader.
  \<^item> \<open>Kstring\<close> (\<open>core/string.c\<close>, \<open>core/klog.c\<close>) and \<open>Cdevsw\<close> (\<open>io/cdevsw.c\<close>): the byte loops, the boot log
    and the character-device switch.
  \<^item> \<open>Ldterm\<close> (\<open>io/ldterm.c\<close>): the line discipline; the line buffer is never overrun, a line goes up as it was
    edited, and the screen shows what the buffer holds until the buffer is full.
  \<^item> \<open>Libc\<close> (\<open>lib/libc/src/printf.c\<close>, \<open>stdlib.c\<close>, \<open>ctype.c\<close>): formatted output never leaves its buffer and numbers
    are read back; sorting is the stable sort, searching finds what is there; one theorem shows zero padding
    going wrong.
  \<^item> \<open>Malloc\<close> (\<open>lib/libc/src/malloc.c\<close>, \<open>sys_brk_impl\<close> of \<open>user/user.c\<close>): the bytes behind the pointers a program holds
    are apart from each other and from the block headers and lie on pages the kernel mapped for its heap.
  \<^item> This theory: the theorem that spans IP and the serial line.

  \<^bold>\<open>Interfaces.\<close> The locales \<open>page_source\<close>, \<open>block_switch\<close>, \<open>block_store\<close>, \<open>file_closer\<close>, \<open>file_driver\<close> and \<open>msg_queue\<close> state
  what one part expects of another; each is interpreted on the definitions of the part that provides it,
  and the theorems about the clients rest on those interpretations.

  \<^bold>\<open>Loops.\<close> Loops that count something down are total functions with a measure. Walks along links, and
  the service loop, are \<open>partial_function\<close>s; the theorems about them prove that they return. No fuel
  is used anywhere.

  \<^bold>\<open>Not modelled.\<close> Scheduling, signals and saved register frames, device registers, the rest of the stream head with
  its sleeping callers, the terminal driver and virtual terminals, TCP, text rendering
  for \<open>/proc\<close> and the console, the rest of the C library, and user programs. Console messages are dropped from the modelled
  functions.
\<close>

section \<open>Across components\<close>

text \<open>
  C12. A packet sent over a serial line: IP builds it, the SLIP module frames it, the receiver of the other
  end unframes it, and IP there delivers the payload to the modules bound to the protocol, with the
  addresses of both ends.
\<close>
theorem ip_over_slip:
  assumes "ip_route dst s = Some l" "l_nif l = Some n" "qbot l = Some q"
    "n_mtu (nifs (inet s) n) = of_nat SLIP_MTU" "20 + length (p_body mp) \<le> SLIP_MTU" "20 \<le> p_head mp" "p_type mp = M_DATA"
    "slip_idle rx" "\<And>k. ok k"
  shows "\<exists>pkt wire up rx'. ip_handle_send rc (ip_send_meta dst proto) [mp] s = (rc, [Down q pkt], s\<lparr>ip_id_next := ip_id_next s + 1\<rparr>)
    \<and> slip_wq_putp rc' ok (Some tx) pkt = (rc', [wire], Some (tx\<lparr>nalloc := nalloc tx + 1, tx_frames := tx_frames tx + 1\<rparr>))
    \<and> slip_rq_putp ok (Some rx) [new_msg M_DATA wire] = (0, [up], Some rx') \<and> slip_idle rx'
    \<and> ip_rput (\<lambda>_. True) (\<lambda>_. True) [new_msg M_DATA up] r
      = Some (0, map (\<lambda>rq. Deliver rq [build_unitdata_ind proto (n_ip (nifs (inet s) n)) dst, (new_msg M_DATA (p_body mp))\<lparr>p_head := 20\<rparr>])
                   (ip_matches proto r), r)"
proof -
  let ?nif = "nifs (inet s) n" let ?b = "p_body mp" let ?t = "of_nat (20 + length ?b) :: u16"
  have m: "20 + length ?b \<le> unat (n_mtu ?nif)" "n_mtu ?nif < 65536" using assms(4,5) by (simp_all add: SLIP_MTU_def)
  obtain i c where c: "c = ip_checksum (ip_hdr_bytes ?t i proto 0 (n_ip ?nif) dst)"
    and snd: "ip_handle_send rc (ip_send_meta dst proto) [mp] s = (rc, [Down q [mp\<lparr>p_head := p_head mp - 20,
        p_body := ip_hdr_bytes ?t i proto c (n_ip ?nif) dst @ ?b\<rparr>]], s\<lparr>ip_id_next := ip_id_next s + 1\<rparr>)"
    and l: "20 + length ?b < 65536"
    by (rule ip_handle_send_ok [OF assms(1-3) m assms(6)])
  let ?p = "ip_hdr_bytes ?t i proto c (n_ip ?nif) dst @ ?b"
  let ?rx = "rx\<lparr>frame := slip_alloc ok (nalloc rx), nalloc := nalloc rx + 1, rx_frames := rx_frames rx + 1\<rparr>"
  have w: "slip_wq_putp rc' ok (Some tx) [mp\<lparr>p_head := p_head mp - 20, p_body := ?p\<rparr>]
      = (rc', [slip_frame ?p], Some (tx\<lparr>nalloc := nalloc tx + 1, tx_frames := tx_frames tx + 1\<rparr>))"
    using assms(7,9) by (simp add: slip_wq_putp_def msg_bytes_def)
  have "slip_rx ok rx (slip_frame ?p) = ([?p], ?rx)" using assms(5) by (intro slip_rx_frame [OF assms(8)]) simp_all
  then have u: "slip_rq_putp ok (Some rx) [new_msg M_DATA (slip_frame ?p)] = (0, [?p], Some ?rx)"
    by (simp add: slip_rq_putp_def new_msg_def msg_bytes_def)
  have "slip_idle ?rx" using assms(8,9) by (simp add: slip_idle_def slip_alloc_def)
  moreover have "ip_rput (\<lambda>_. True) (\<lambda>_. True) [new_msg M_DATA ?p] r
      = Some (0, ip_demux (\<lambda>_. True) (\<lambda>_. True) proto (n_ip ?nif) dst
          [(new_msg M_DATA ?p)\<lparr>p_head := p_head (new_msg M_DATA ?p) + 20, p_body := ?b\<rparr>] r, r)"
    using l by (intro ip_rput_accepts) (simp_all add: c new_msg_def)
  ultimately show ?thesis using snd w u ip_demux_eq
    by (intro exI [of _ "[mp\<lparr>p_head := p_head mp - 20, p_body := ?p\<rparr>]"] exI [of _ "slip_frame ?p"] exI [of _ ?p] exI [of _ ?rx])
      (simp add: new_msg_def)
qed

lemma slip_route: "ip_route 0xc0a80a01 (sample_ip\<lparr>inet := \<lparr>nifs = \<lambda>_. slip0_nif, netif_list = [0]\<rparr>\<rparr>) = Some \<lparr>muxid = 1, qbot = Some 5, l_nif = Some 0\<rparr>"
  by (simp add: ip_route_def sample_ip_def usable_def on_subnet_def slip0_nif_def)

theorem ip_over_slip_witness:
  "\<exists>pkt wire up rx'. slip_rq_putp (\<lambda>_. True) (Some slip_fresh) [new_msg M_DATA wire] = (0, [up], Some rx')
    \<and> slip_wq_putp 0 (\<lambda>_. True) (Some slip_fresh) pkt = (0, [wire], Some (slip_fresh\<lparr>nalloc := 2, tx_frames := 1\<rparr>))
    \<and> ip_rput (\<lambda>_. True) (\<lambda>_. True) [new_msg M_DATA up] sample_ip
      = Some (0, [Deliver (Some 8) [build_unitdata_ind 17 0xc0a80a02 0xc0a80a01, (new_msg M_DATA [0xc0, 0xdb])\<lparr>p_head := 20\<rparr>]], sample_ip)"
proof -
  have i: "slip_idle slip_fresh" by (simp add: slip_idle_def slip_fresh_def)
  have m: "ip_matches 17 sample_ip = [Some 8]" by (simp add: ip_matches_def sample_ip_def)
  let ?s = "sample_ip\<lparr>inet := \<lparr>nifs = \<lambda>_. slip0_nif, netif_list = [0]\<rparr>\<rparr>"
  let ?mp = "\<lparr>p_type = M_DATA, p_head = 20, p_body = [0xc0, 0xdb], p_tail = 0\<rparr>"
  have n: "n_ip (nifs (inet ?s) 0) = 0xc0a80a02" "n_mtu (nifs (inet ?s) 0) = of_nat SLIP_MTU" by (simp_all add: slip0_nif_def SLIP_MTU_def)
  have f: "slip_fresh\<lparr>nalloc := nalloc slip_fresh + 1, tx_frames := tx_frames slip_fresh + 1\<rparr> = slip_fresh\<lparr>nalloc := 2, tx_frames := 1\<rparr>"
    by (simp add: slip_fresh_def)
  have "20 + length (p_body ?mp) \<le> SLIP_MTU" by (simp add: SLIP_MTU_def)
  from ip_over_slip [OF slip_route, of 0 5 ?mp slip_fresh "\<lambda>_. True" 0 17 0 slip_fresh sample_ip, OF _ _ n(2) this _ _ i]
  show ?thesis unfolding n m f by simp blast
qed

end
